(* ===== verification/Prelude.thy ===== *)
theory Prelude
  imports
    Main
    "HOL-Library.Char_ord"
    "HOL-Library.List_Lexorder"
    "HOL-Library.Product_Lexorder"
begin

text \<open>
  Shared ground of the development: the types that stand for Go's machine integers,
  durations and instants, the wrap-around of 64-bit arithmetic, buffered channels of empty
  structs (the program uses them as counting semaphores only), the collections of rewrite
  rules the component proofs draw on, and two interfaces that several components share:
  a bounded counter (\<open>bounded_channel\<close>) and a state machine with an invariant
  (\<open>guarded_machine\<close>).
\<close>

section \<open>Collections of rules\<close>

named_theorems wf_intros \<open>well-formedness of a state after an operation\<close>
named_theorems frame_simps \<open>what an operation leaves unchanged\<close>
named_theorems chan_simps \<open>lengths and capacities of channels\<close>

section \<open>Go's integers, durations and instants\<close>

text \<open>
  \<open>time.Duration\<close> is a signed 64-bit count of nanoseconds and Go's \<open>int\<close> is 64 bits wide on the
  targets the packages are released for. Both are integers here; every operation of the
  source that can leave the range is followed by \<open>wrap64\<close>. \<open>time.Time\<close> is a count of
  nanoseconds from the zero time, so that 0 is Go's zero value.
\<close>

type_synonym duration = int
type_synonym time = int

definition wrap64 :: "int \<Rightarrow> int" where
  "wrap64 x = (x + 2 ^ 63) mod 2 ^ 64 - 2 ^ 63"

definition max_int64 :: int where
  "max_int64 = 2 ^ 63 - 1"

definition min_int64 :: int where
  "min_int64 = - (2 ^ 63)"

definition in_int64 :: "int \<Rightarrow> bool" where
  "in_int64 x \<longleftrightarrow> min_int64 \<le> x \<and> x \<le> max_int64"

text \<open>Integer division of Go truncates towards zero.\<close>

definition go_div :: "int \<Rightarrow> int \<Rightarrow> int" where
  "go_div a b = sgn a * sgn b * (\<bar>a\<bar> div \<bar>b\<bar>)"

definition millisecond :: duration where
  "millisecond = 1000000"

definition second :: duration where
  "second = 1000000000"

lemma wrap64_id [simp]: "in_int64 x \<Longrightarrow> wrap64 x = x"
  by (simp add: wrap64_def in_int64_def min_int64_def max_int64_def)

lemma wrap64_in_int64: "in_int64 (wrap64 x)"
proof -
  have "0 \<le> (x + 2 ^ 63) mod 2 ^ 64" and "(x + 2 ^ 63) mod 2 ^ 64 < 2 ^ 64"
    by simp_all
  then show ?thesis
    by (simp add: wrap64_def in_int64_def min_int64_def max_int64_def)
qed

lemma wrap64_idem [simp]: "wrap64 (wrap64 x) = wrap64 x"
  by (simp add: wrap64_in_int64)

section \<open>Errors as values\<close>

text \<open>
  A Go function that returns a value and an error is a sum: \<^const>\<open>Inl\<close> the error. The
  early return \<open>if err != nil { return err }\<close> is \<open>bind_err\<close>; \<open>wrap_err\<close> is \<open>fmt.Errorf\<close> with \<open>%w\<close>.
\<close>

definition bind_err :: "'e + 'a \<Rightarrow> ('a \<Rightarrow> 'e + 'b) \<Rightarrow> 'e + 'b" where
  "bind_err r f = (case r of Inl e \<Rightarrow> Inl e | Inr x \<Rightarrow> f x)"

definition wrap_err :: "('d \<Rightarrow> 'e) \<Rightarrow> 'd + 'a \<Rightarrow> 'e + 'a" where
  "wrap_err w r = (case r of Inl e \<Rightarrow> Inl (w e) | Inr x \<Rightarrow> Inr x)"

lemma bind_err_simps [simp]:
  "bind_err (Inl e) f = Inl e" "bind_err (Inr x) f = f x"
  by (simp_all add: bind_err_def)

lemma wrap_err_simps [simp]:
  "wrap_err w (Inl e) = Inl (w e)" "wrap_err w (Inr x) = Inr x"
  by (simp_all add: wrap_err_def)

lemma bind_err_InrE [elim!]:
  assumes "bind_err r f = Inr y"
  obtains x where "r = Inr x" and "f x = Inr y"
  using assms by (cases r) auto

lemma wrap_err_Inr [simp]: "wrap_err w r = Inr x \<longleftrightarrow> r = Inr x"
  by (cases r) auto

section \<open>Lists, pointers and stable sorting\<close>

lemma nth_mem_set [intro]: "i < length xs \<Longrightarrow> xs ! i \<in> set xs"
  by simp

lemma sorted_filter_map:
  "sorted (map f xs) \<Longrightarrow> sorted (map f (filter P xs))"
  by (rule sorted_filter)

text \<open>
  \<open>sort.SliceStable\<close> sorts by a strict order and keeps the order of equal elements.
  \<^const>\<open>sort_key\<close> is that sort: ordered, a permutation, and stable on every key.
\<close>

lemma sort_key_stable_filter:
  "filter (\<lambda>x. f x = k) (sort_key f xs) = filter (\<lambda>x. f x = k) xs"
  by (rule sort_key_stable)

lemma insort_key_cong:
  "f x = g x \<Longrightarrow> (\<And>y. y \<in> set ys \<Longrightarrow> f y = g y) \<Longrightarrow> insort_key f x ys = insort_key g x ys"
  by (induction ys) auto

lemma sort_key_cong: "(\<And>x. x \<in> set xs \<Longrightarrow> f x = g x) \<Longrightarrow> sort_key f xs = sort_key g xs"
proof (induction xs)
  case (Cons x xs)
  then have "sort_key f xs = sort_key g xs" by simp
  with Cons.prems show ?case by (auto intro: insort_key_cong)
qed simp

lemma distinct_map_sort_key [simp]:
  "distinct (map g (sort_key f xs)) = distinct (map g xs)"
  by (simp add: distinct_map)

lemma sorted_distinct_strict:
  fixes f :: "'a \<Rightarrow> 'b::linorder"
  assumes "sorted (map f xs)" and "distinct (map f xs)" and "i < j" and "j < length xs"
  shows "f (xs ! i) < f (xs ! j)"
proof -
  have "f (xs ! i) \<le> f (xs ! j)"
    using assms(1,3,4) by (auto simp: sorted_iff_nth_mono)
  moreover have "f (xs ! i) \<noteq> f (xs ! j)"
    using assms(2-4) nth_eq_iff_index_eq [of "map f xs" i j] by auto
  ultimately show ?thesis by simp
qed

section \<open>Channels of empty structs\<close>

text \<open>
  \<open>make(chan struct{}, n)\<close>: the values carry nothing, so a channel is how many it holds and
  how many it can hold. A send blocks (\<^const>\<open>None\<close>) when it is full, a receive when it is
  empty.
\<close>

record chan =
  ch_len :: nat
  ch_cap :: nat

definition make_chan :: "nat \<Rightarrow> chan" where
  "make_chan n = \<lparr>ch_len = 0, ch_cap = n\<rparr>"

definition chan_send :: "chan \<Rightarrow> chan option" where
  "chan_send c = (if ch_len c < ch_cap c then Some (c\<lparr>ch_len := Suc (ch_len c)\<rparr>) else None)"

definition chan_recv :: "chan \<Rightarrow> chan option" where
  "chan_recv c = (if ch_len c = 0 then None else Some (c\<lparr>ch_len := ch_len c - 1\<rparr>))"

lemma make_chan_simps [simp]:
  "ch_len (make_chan n) = 0" "ch_cap (make_chan n) = n"
  by (simp_all add: make_chan_def)

lemma chan_send_SomeD [chan_simps]:
  "chan_send c = Some c' \<longleftrightarrow> ch_len c < ch_cap c \<and> c' = c\<lparr>ch_len := Suc (ch_len c)\<rparr>"
  by (auto simp: chan_send_def)

lemma chan_recv_SomeD [chan_simps]:
  "chan_recv c = Some c' \<longleftrightarrow> 0 < ch_len c \<and> c' = c\<lparr>ch_len := ch_len c - 1\<rparr>"
  by (auto simp: chan_recv_def)

lemma chan_send_None [chan_simps]: "chan_send c = None \<longleftrightarrow> ch_cap c \<le> ch_len c"
  by (auto simp: chan_send_def)

lemma chan_recv_None [chan_simps]: "chan_recv c = None \<longleftrightarrow> ch_len c = 0"
  by (auto simp: chan_recv_def)

section \<open>Interface: a bounded channel used as a semaphore\<close>

text \<open>
  What a component promises that hands out slots of a channel: how many are taken, how many
  there are, and that acquiring and releasing move the count by one. The clients' facts
  (the bound holds in every state, an acquire followed by its release restores the count)
  are proved once here.
\<close>

locale bounded_channel =
  fixes ok :: "'s \<Rightarrow> bool"
    and used :: "'s \<Rightarrow> nat"
    and limit :: "'s \<Rightarrow> nat"
    and acquire :: "'s \<Rightarrow> 's option"
    and release :: "'s \<Rightarrow> 's option"
  assumes acquire_None: "ok s \<Longrightarrow> acquire s = None \<longleftrightarrow> limit s \<le> used s"
    and acquire_Some: "ok s \<Longrightarrow> acquire s = Some t \<Longrightarrow> ok t \<and> used t = Suc (used s) \<and> limit t = limit s"
    and release_None: "ok s \<Longrightarrow> release s = None \<longleftrightarrow> used s = 0"
    and release_Some: "ok s \<Longrightarrow> release s = Some t \<Longrightarrow> ok t \<and> Suc (used t) = used s \<and> limit t = limit s"
begin

lemma acquire_within: "ok s \<Longrightarrow> acquire s = Some t \<Longrightarrow> used t \<le> limit t"
  using acquire_None [of s] acquire_Some [of s t] by auto

lemma release_within: "ok s \<Longrightarrow> used s \<le> limit s \<Longrightarrow> release s = Some t \<Longrightarrow> used t \<le> limit t"
  using release_Some [of s t] by auto

lemma acquire_release:
  assumes "ok s" and "acquire s = Some t"
  shows "\<exists>u. release t = Some u \<and> used u = used s \<and> limit u = limit s"
proof -
  from acquire_Some [OF assms] have t: "ok t" "used t = Suc (used s)" "limit t = limit s" by auto
  then obtain u where "release t = Some u"
    using release_None [of t] by (cases "release t") auto
  with release_Some [of t u] t show ?thesis by auto
qed

text \<open>A full channel hands out a slot again as soon as one is released.\<close>

lemma release_acquire:
  assumes "ok s" and "used s \<le> limit s" and "release s = Some t"
  shows "\<exists>u. acquire t = Some u \<and> used u = used s"
proof -
  from release_Some [OF assms(1,3)] have t: "ok t" "Suc (used t) = used s" "limit t = limit s" by auto
  with assms(2) have "\<not> limit t \<le> used t" by simp
  then obtain u where "acquire t = Some u"
    using acquire_None [of t] t(1) by (cases "acquire t") auto
  with acquire_Some [of t u] t show ?thesis by auto
qed

text \<open>Exactly as many acquires succeed in a row as there are free slots.\<close>

fun acquire_many :: "nat \<Rightarrow> 's \<Rightarrow> 's option" where
  "acquire_many 0 s = Some s"
| "acquire_many (Suc n) s = (case acquire s of None \<Rightarrow> None | Some t \<Rightarrow> acquire_many n t)"

lemma acquire_many_iff:
  "ok s \<Longrightarrow> used s \<le> limit s \<Longrightarrow> acquire_many n s \<noteq> None \<longleftrightarrow> used s + n \<le> limit s"
proof (induction n arbitrary: s)
  case 0
  then show ?case by simp
next
  case (Suc n)
  show ?case
  proof (cases "acquire s")
    case None
    with acquire_None [OF Suc.prems(1)] show ?thesis by simp
  next
    case (Some t)
    from acquire_Some [OF Suc.prems(1) Some] acquire_within [OF Suc.prems(1) Some]
    have "ok t" "used t = Suc (used s)" "limit t = limit s" "used t \<le> limit t" by auto
    with Suc.IH [of t] Some show ?thesis by simp
  qed
qed

end

interpretation chan: bounded_channel "\<lambda>_. True" ch_len ch_cap chan_send chan_recv
  by unfold_locales (auto simp: chan_simps)

section \<open>Interface: a machine with an invariant\<close>

text \<open>
  A component that reacts to events: one step per event and an invariant that every step
  keeps. What follows for whole runs is proved once here, and each component interprets the
  locale on its own step function.
\<close>

locale guarded_machine =
  fixes step :: "'e \<Rightarrow> 's \<Rightarrow> 's"
    and inv :: "'s \<Rightarrow> bool"
  assumes step_inv: "inv s \<Longrightarrow> inv (step e s)"
begin

lemma run_inv: "inv s \<Longrightarrow> inv (fold step es s)"
  by (induction es arbitrary: s) (auto intro: step_inv)

text \<open>A measure of the state that no step changes is the same after every run.\<close>

lemma run_frame:
  assumes "\<And>e s. f (step e s) = f s"
  shows "f (fold step es s) = f s"
  using assms by (induction es arbitrary: s) auto

end

end
