(* ===== verification/GoText.thy ===== *)
theory GoText
  imports Prelude
begin

text \<open>
  The parts of Go's standard library that the configuration code calls on text:
  \<open>strings\<close> (TrimSpace, ToLower, ToUpper, Cut, HasSuffix, EqualFold), \<open>strconv\<close> (Itoa, Atoi, Quote),
  \<open>bufio.Scanner\<close> with its line splitter, \<open>net.JoinHostPort\<close> and \<open>net.ParseIP\<close> (the address
  grammar of \<open>net/netip\<close>, zones refused). A string is its list of bytes; case mapping and
  white space are the ASCII ones, so the model speaks of text whose bytes are below 128.
\<close>

section \<open>Package strings\<close>

definition is_space :: "char \<Rightarrow> bool" where
  "is_space c \<longleftrightarrow> (of_char c :: nat) \<in> {9, 10, 11, 12, 13, 32}"

definition trim_space :: "string \<Rightarrow> string" where
  "trim_space s = rev (dropWhile is_space (rev (dropWhile is_space s)))"

definition lower_char :: "char \<Rightarrow> char" where
  "lower_char c = (let n = of_char c :: nat in if 65 \<le> n \<and> n \<le> 90 then char_of (n + 32) else c)"

definition upper_char :: "char \<Rightarrow> char" where
  "upper_char c = (let n = of_char c :: nat in if 97 \<le> n \<and> n \<le> 122 then char_of (n - 32) else c)"

definition to_lower :: "string \<Rightarrow> string" where
  "to_lower = map lower_char"

definition to_upper :: "string \<Rightarrow> string" where
  "to_upper = map upper_char"

definition equal_fold :: "string \<Rightarrow> string \<Rightarrow> bool" where
  "equal_fold a b \<longleftrightarrow> to_lower a = to_lower b"

text \<open>\<open>strings.Cut(s, sep)\<close> for a one-byte separator.\<close>

fun cut :: "char \<Rightarrow> string \<Rightarrow> (string \<times> string) option" where
  "cut sep [] = None"
| "cut sep (c # cs) =
     (if c = sep then Some ([], cs)
      else case cut sep cs of None \<Rightarrow> None | Some (a, b) \<Rightarrow> Some (c # a, b))"

definition has_suffix :: "string \<Rightarrow> string \<Rightarrow> bool" where
  "has_suffix s suf \<longleftrightarrow> length suf \<le> length s \<and> drop (length s - length suf) s = suf"

fun join :: "string \<Rightarrow> string list \<Rightarrow> string" where
  "join sep [] = []"
| "join sep [x] = x"
| "join sep (x # y # ys) = x @ sep @ join sep (y # ys)"

section \<open>Package strconv\<close>

definition is_digit :: "char \<Rightarrow> bool" where
  "is_digit c \<longleftrightarrow> (let n = of_char c :: int in 48 \<le> n \<and> n \<le> 57)"

definition digit_val :: "char \<Rightarrow> int" where
  "digit_val c = of_char c - 48"

definition digit_char :: "int \<Rightarrow> char" where
  "digit_char d = char_of (48 + d)"

function show_dec :: "int \<Rightarrow> string" where
  "show_dec n = (if n < 10 then [digit_char n] else show_dec (n div 10) @ [digit_char (n mod 10)])"
  by pat_completeness auto
termination
  by (relation "measure nat") auto

declare show_dec.simps [simp del]

definition itoa :: "int \<Rightarrow> string" where
  "itoa i = (if i < 0 then CHR ''-'' # show_dec (- i) else show_dec i)"

definition read_dec :: "string \<Rightarrow> int" where
  "read_dec s = foldl (\<lambda>n c. 10 * n + digit_val c) 0 s"

text \<open>\<open>strconv.Quote\<close>, the verb \<open>%q\<close>, for ASCII text.\<close>

definition hex_digit :: "int \<Rightarrow> char" where
  "hex_digit d = (if d < 10 then char_of (48 + d) else char_of (87 + d))"

definition quote_char :: "char \<Rightarrow> string" where
  "quote_char c =
     (let n = of_char c :: int in
      if c = CHR 0x22 \<or> c = CHR 0x5C then [CHR 0x5C, c]
      else if 32 \<le> n \<and> n < 127 then [c]
      else if n = 7 then [CHR 0x5C, CHR ''a'']
      else if n = 8 then [CHR 0x5C, CHR ''b'']
      else if n = 12 then [CHR 0x5C, CHR ''f'']
      else if n = 10 then [CHR 0x5C, CHR ''n'']
      else if n = 13 then [CHR 0x5C, CHR ''r'']
      else if n = 9 then [CHR 0x5C, CHR ''t'']
      else if n = 11 then [CHR 0x5C, CHR ''v'']
      else [CHR 0x5C, CHR ''x'', hex_digit (n div 16), hex_digit (n mod 16)])"

definition go_quote :: "string \<Rightarrow> string" where
  "go_quote s = CHR 0x22 # concat (map quote_char s) @ [CHR 0x22]"

text \<open>
  \<open>strconv.Atoi\<close>: an optional sign, then at least one decimal digit and nothing else; a value
  that does not fit Go's \<open>int\<close> is a range error.
\<close>

definition atoi_digits :: "int \<Rightarrow> string \<Rightarrow> int option" where
  "atoi_digits sign s =
     (if s = [] \<or> \<not> list_all is_digit s then None
      else let v = sign * read_dec s in if in_int64 v then Some v else None)"

definition atoi :: "string \<Rightarrow> int option" where
  "atoi s =
     (case s of
        [] \<Rightarrow> None
      | c # cs \<Rightarrow>
          if c = CHR ''-'' then atoi_digits (-1) cs
          else if c = CHR ''+'' then atoi_digits 1 cs
          else atoi_digits 1 s)"

section \<open>Package bufio: the line scanner\<close>

text \<open>
  \<open>bufio.NewScanner\<close> with its default buffer. A line ends at a line feed, one carriage return
  before it is dropped, and the text after the last line feed is a line when it is not
  empty. The scanner gives up (second component) at a line that fills its 64 KiB buffer.
\<close>

definition max_token :: int where
  "max_token = 65536"

definition drop_cr :: "string \<Rightarrow> string" where
  "drop_cr s = (if s \<noteq> [] \<and> last s = CHR 0x0D then butlast s else s)"

fun split_lines :: "string \<Rightarrow> string \<Rightarrow> string list" where
  "split_lines acc [] = (if acc = [] then [] else [rev acc])"
| "split_lines acc (c # cs) =
     (if c = CHR 0x0A then rev acc # split_lines [] cs else split_lines (c # acc) cs)"

definition scan_lines :: "string \<Rightarrow> string list \<times> bool" where
  "scan_lines s =
     (let ls = split_lines [] s; ok = takeWhile (\<lambda>l. int (length l) < max_token) ls
      in (map drop_cr ok, length ok < length ls))"

section \<open>Package net\<close>

definition join_host_port :: "string \<Rightarrow> string \<Rightarrow> string" where
  "join_host_port host port =
     (if CHR '':'' \<in> set host then ''['' @ host @ '']:'' @ port else host @ '':'' @ port)"

text \<open>
  The loop of \<open>parseIPv4Fields\<close> over the bytes of a dotted quad: the value and the number of
  digits of the current octet, the octets already closed, and whether the byte before was
  the start of the text or a dot.
\<close>

fun ipv4_fields :: "int list \<Rightarrow> int \<Rightarrow> nat \<Rightarrow> string \<Rightarrow> int list option" where
  "ipv4_fields octs val digs [] =
     (if length octs < 3 then None else Some (octs @ [val]))"
| "ipv4_fields octs val digs (c # cs) =
     (if is_digit c then
        (if digs = 1 \<and> val = 0 then None
         else let v = val * 10 + digit_val c in
           if 255 < v then None else ipv4_fields octs v (digs + 1) cs)
      else if c = CHR ''.'' then
        (if digs = 0 \<or> cs = [] then None
         else if length octs = 3 then None
         else ipv4_fields (octs @ [val]) 0 0 cs)
      else None)"

definition parse_ipv4 :: "string \<Rightarrow> int list option" where
  "parse_ipv4 s = ipv4_fields [] 0 0 s"

definition hex_val :: "char \<Rightarrow> int option" where
  "hex_val c =
     (let n = of_char c :: int in
      if 48 \<le> n \<and> n \<le> 57 then Some (n - 48)
      else if 97 \<le> n \<and> n \<le> 102 then Some (n - 87)
      else if 65 \<le> n \<and> n \<le> 70 then Some (n - 55)
      else None)"

text \<open>The hexadecimal digits at the start of a text, and what follows them.\<close>

definition hex_prefix :: "string \<Rightarrow> string" where
  "hex_prefix s = takeWhile (\<lambda>c. hex_val c \<noteq> None) s"

definition hex_rest :: "string \<Rightarrow> string" where
  "hex_rest s = dropWhile (\<lambda>c. hex_val c \<noteq> None) s"

definition hex_value :: "string \<Rightarrow> int" where
  "hex_value s = foldl (\<lambda>n c. 16 * n + (case hex_val c of None \<Rightarrow> 0 | Some d \<Rightarrow> d)) 0 s"

text \<open>
  The group loop of \<open>parseIPv6\<close>, over the number of 16-bit groups there is still room for
  (the source counts the bytes written, \<open>i\<close>; there are \<open>16 - i\<close> left, two per group):
  the bytes read so far, the position of the ellipsis and the text left. A group is one to
  four hexadecimal digits; a dot after the digits switches to an embedded IPv4 tail. Four
  digits cannot exceed 65535, so the source's second test on a group never fires on its own.
\<close>

fun ipv6_groups ::
  "nat \<Rightarrow> int list \<Rightarrow> nat option \<Rightarrow> string \<Rightarrow> (int list \<times> nat option \<times> string) option" where
  "ipv6_groups 0 ip ell s = Some (ip, ell, s)"
| "ipv6_groups (Suc room) ip ell s =
     (if hex_prefix s = [] \<or> 4 < length (hex_prefix s) then None
      else if hex_rest s \<noteq> [] \<and> hd (hex_rest s) = CHR ''.'' then
        (if ell = None \<and> length ip \<noteq> 12 then None
         else if 16 < length ip + 4 then None
         else case parse_ipv4 s of None \<Rightarrow> None | Some bs \<Rightarrow> Some (ip @ bs, ell, []))
      else
        let acc = hex_value (hex_prefix s); ip' = ip @ [acc div 256, acc mod 256] in
        (case hex_rest s of
           [] \<Rightarrow> Some (ip', ell, [])
         | c # cs \<Rightarrow>
             if c \<noteq> CHR '':'' \<or> cs = [] then None
             else if hd cs = CHR '':'' then
               (if ell \<noteq> None then None
                else if tl cs = [] then Some (ip', Some (length ip'), [])
                else ipv6_groups room ip' (Some (length ip')) (tl cs))
             else ipv6_groups room ip' ell cs))"

definition expand_ellipsis :: "int list \<Rightarrow> nat option \<Rightarrow> int list option" where
  "expand_ellipsis ip ell =
     (case ell of
        None \<Rightarrow> if length ip < 16 then None else Some ip
      | Some k \<Rightarrow>
          if length ip < 16 then Some (take k ip @ replicate (16 - length ip) 0 @ drop k ip)
          else None)"

definition parse_ipv6 :: "string \<Rightarrow> int list option" where
  "parse_ipv6 s =
     (let (ell, body) = (if take 2 s = ''::'' then (Some 0, drop 2 s) else (None, s)) in
      if ell = Some 0 \<and> body = [] then Some (replicate 16 0)
      else case ipv6_groups 8 [] ell body of
          None \<Rightarrow> None
        | Some (ip, ell', rest) \<Rightarrow> if rest \<noteq> [] then None else expand_ellipsis ip ell')"

text \<open>
  \<open>net.ParseIP\<close>: the first of \<open>.\<close>, \<open>:\<close> and \<open>%\<close> decides; an IPv6 address with a zone is
  parsed by \<open>netip\<close> but refused by \<open>net\<close>.
\<close>

fun ip_kind :: "string \<Rightarrow> char option" where
  "ip_kind [] = None"
| "ip_kind (c # cs) = (if c \<in> {CHR ''.'', CHR '':'', CHR ''%''} then Some c else ip_kind cs)"

definition parse_ip :: "string \<Rightarrow> int list option" where
  "parse_ip s =
     (if ip_kind s = Some (CHR ''.'') then parse_ipv4 s
      else if ip_kind s = Some (CHR '':'') then
        (if CHR ''%'' \<in> set s then None else parse_ipv6 s)
      else None)"

section \<open>Decimal text: printing and reading are inverse\<close>

lemma of_char_char_of_int: "0 \<le> n \<Longrightarrow> n < 256 \<Longrightarrow> of_char (char_of n) = (n :: int)"
  by (simp add: take_bit_int_eq_self)

lemma digit_char_digit:
  assumes "0 \<le> d" and "d < 10"
  shows "is_digit (digit_char d)" and "digit_val (digit_char d) = d"
  using assms of_char_char_of_int [of "48 + d"]
  by (simp_all add: is_digit_def digit_val_def digit_char_def)

lemma is_digit_neq:
  "is_digit c \<Longrightarrow> c \<noteq> CHR '':''" "is_digit c \<Longrightarrow> c \<noteq> CHR ''-''" "is_digit c \<Longrightarrow> c \<noteq> CHR ''+''"
  "is_digit c \<Longrightarrow> c \<noteq> CHR ''.''" "is_digit c \<Longrightarrow> c \<noteq> CHR ''%''"
  by (auto simp: is_digit_def)

lemma read_dec_snoc: "read_dec (s @ [c]) = 10 * read_dec s + digit_val c"
  by (simp add: read_dec_def)

lemma show_dec_digits: "0 \<le> n \<Longrightarrow> list_all is_digit (show_dec n)"
proof (induction n rule: show_dec.induct)
  case (1 n)
  then show ?case
    by (simp add: show_dec.simps [of n] digit_char_digit)
qed

lemma show_dec_not_Nil [simp]: "show_dec n \<noteq> []"
  by (simp add: show_dec.simps [of n])

lemma read_show_dec: "0 \<le> n \<Longrightarrow> read_dec (show_dec n) = n"
proof (induction n rule: show_dec.induct)
  case (1 n)
  show ?case
  proof (cases "n < 10")
    case True
    with "1.prems" show ?thesis
      by (simp add: show_dec.simps [of n] read_dec_def digit_char_digit)
  next
    case False
    with "1.IH" "1.prems" have "read_dec (show_dec (n div 10)) = n div 10" by simp
    then show ?thesis
      by (simp add: show_dec.simps [of n] read_dec_snoc read_dec_def digit_char_digit False)
  qed
qed

lemma show_dec_chars: "0 \<le> n \<Longrightarrow> c \<in> set (show_dec n) \<Longrightarrow> is_digit c"
  using show_dec_digits by (auto simp: list_all_iff)

text \<open>Every value of Go's \<open>int\<close> that \<open>Itoa\<close> prints is read back by \<open>Atoi\<close>.\<close>

lemma atoi_itoa: "in_int64 i \<Longrightarrow> atoi (itoa i) = Some i"
proof -
  assume i: "in_int64 i"
  show ?thesis
  proof (cases "i < 0")
    case True
    with i show ?thesis
      by (simp add: itoa_def atoi_def atoi_digits_def show_dec_digits read_show_dec)
  next
    case False
    then obtain c cs where s: "show_dec i = c # cs"
      by (cases "show_dec i") auto
    with False have "is_digit c" using show_dec_chars [of i c] by simp
    then have "c \<noteq> CHR ''-''" "c \<noteq> CHR ''+''" by (auto dest: is_digit_neq)
    moreover have "atoi_digits 1 (show_dec i) = Some i"
      using False i by (simp add: atoi_digits_def show_dec_digits read_show_dec)
    ultimately show ?thesis
      using False by (simp add: itoa_def atoi_def s)
  qed
qed

lemma atoi_in_int64: "atoi s = Some i \<Longrightarrow> in_int64 i"
  by (auto simp: atoi_def atoi_digits_def Let_def split: list.splits if_splits)

lemma itoa_inj: "in_int64 i \<Longrightarrow> in_int64 j \<Longrightarrow> itoa i = itoa j \<Longrightarrow> i = j"
  by (metis atoi_itoa option.inject)

lemma itoa_no_colon: "CHR '':'' \<notin> set (itoa i)"
  using show_dec_chars [of i "CHR '':''"] show_dec_chars [of "- i" "CHR '':''"]
  by (auto simp: itoa_def dest: is_digit_neq)

section \<open>Host and port: the printed endpoint determines both\<close>

lemma append_first_sep:
  "x \<notin> set b \<Longrightarrow> x \<notin> set b' \<Longrightarrow> b @ x # a = b' @ x # a' \<Longrightarrow> b = b' \<and> a = a'"
proof (induction b arbitrary: b')
  case Nil
  then show ?case by (cases b') auto
next
  case (Cons y b)
  then show ?case by (cases b') auto
qed

lemma append_last_sep:
  assumes "a @ x # b = a' @ x # b'" and "x \<notin> set b" and "x \<notin> set b'"
  shows "a = a' \<and> b = b'"
  using append_first_sep [of x "rev b" "rev b'" "rev a" "rev a'"] assms(2,3)
    arg_cong [OF assms(1), of rev] by simp

lemma join_host_port_inj:
  assumes eq: "join_host_port h p = join_host_port h' p'"
    and p: "CHR '':'' \<notin> set p" and p': "CHR '':'' \<notin> set p'"
  shows "h = h' \<and> p = p'"
proof -
  define body where "body h = (if CHR '':'' \<in> set h then ''['' @ h @ '']'' else h)" for h
  have split: "join_host_port h p = body h @ CHR '':'' # p" for h p
    by (simp add: join_host_port_def body_def)
  from eq have "body h = body h'" and "p = p'"
    using append_last_sep [of "body h" "CHR '':''" p "body h'" p'] p p' by (simp_all add: split)
  moreover have "CHR '':'' \<in> set (body h) \<longleftrightarrow> CHR '':'' \<in> set h" for h
    by (simp add: body_def)
  ultimately have "CHR '':'' \<in> set h \<longleftrightarrow> CHR '':'' \<in> set h'" by metis
  with \<open>body h = body h'\<close> have "h = h'" by (auto simp: body_def split: if_splits)
  with \<open>p = p'\<close> show ?thesis by simp
qed

section \<open>Dotted quads\<close>

definition show_ipv4 :: "int \<Rightarrow> int \<Rightarrow> int \<Rightarrow> int \<Rightarrow> string" where
  "show_ipv4 a b c d = itoa a @ ''.'' @ itoa b @ ''.'' @ itoa c @ ''.'' @ itoa d"

lemma ipv4_fields_octet:
  assumes "0 \<le> n" and "n < 256"
  shows "\<exists>k > 0. \<forall>rest. ipv4_fields octs 0 0 (show_dec n @ rest) = ipv4_fields octs n k rest"
proof -
  note d = digit_char_digit
  consider "n < 10" | "10 \<le> n" "n < 100" | "100 \<le> n" by linarith
  then show ?thesis
  proof cases
    case 1
    then show ?thesis
      using assms by (intro exI [of _ "Suc 0"]) (simp add: show_dec.simps [of n] d)
  next
    case 2
    then have "show_dec n = [digit_char (n div 10), digit_char (n mod 10)]"
      by (simp add: show_dec.simps [of n] show_dec.simps [of "n div 10"])
    moreover have "n div 10 \<noteq> 0" "n div 10 < 10" using 2 by auto
    ultimately show ?thesis
      using assms by (intro exI [of _ "Suc (Suc 0)"]) (simp add: d Let_def)
  next
    case 3
    then have h: "\<not> n div 10 < 10" "n div 10 div 10 < 10" using assms by auto
    then have "show_dec n = [digit_char (n div 10 div 10), digit_char (n div 10 mod 10), digit_char (n mod 10)]"
      using 3 by (simp add: show_dec.simps [of n] show_dec.simps [of "n div 10"]
          show_dec.simps [of "n div 10 div 10"])
    moreover have "n div 10 div 10 \<noteq> 0" using 3 assms by auto
    moreover have "10 * (10 * (n div 10 div 10) + n div 10 mod 10) + n mod 10 = n" by presburger
    moreover have "10 * (n div 10 div 10) + n div 10 mod 10 \<le> 255" using assms by presburger
    ultimately show ?thesis
      using assms h by (intro exI [of _ "Suc (Suc (Suc 0))"]) (simp add: d Let_def mult.commute add.commute)
  qed
qed

lemma parse_show_ipv4:
  assumes "0 \<le> a" "a < 256" "0 \<le> b" "b < 256" "0 \<le> c" "c < 256" "0 \<le> d" "d < 256"
  shows "parse_ipv4 (show_ipv4 a b c d) = Some [a, b, c, d]"
proof -
  obtain ka where a: "ka > 0" "\<And>rest. ipv4_fields [] 0 0 (show_dec a @ rest) = ipv4_fields [] a ka rest"
    using ipv4_fields_octet assms(1,2) by metis
  obtain kb where b: "kb > 0" "\<And>rest. ipv4_fields [a] 0 0 (show_dec b @ rest) = ipv4_fields [a] b kb rest"
    using ipv4_fields_octet assms(3,4) by metis
  obtain kc where c: "kc > 0" "\<And>rest. ipv4_fields [a, b] 0 0 (show_dec c @ rest) = ipv4_fields [a, b] c kc rest"
    using ipv4_fields_octet assms(5,6) by metis
  obtain kd where d: "kd > 0" "\<And>rest. ipv4_fields [a, b, c] 0 0 (show_dec d @ rest) = ipv4_fields [a, b, c] d kd rest"
    using ipv4_fields_octet assms(7,8) by metis
  show ?thesis
    using assms a b c d d(2) [of "[]"]
    by (simp add: parse_ipv4_def show_ipv4_def itoa_def is_digit_def)
qed

lemma ip_kind_digits: "list_all is_digit ds \<Longrightarrow> ip_kind (ds @ CHR ''.'' # rest) = Some (CHR ''.'')"
  by (induction ds) (auto dest: is_digit_neq)

text \<open>Every dotted quad of four bytes is an address \<open>net.ParseIP\<close> accepts.\<close>

lemma parse_ip_ipv4:
  assumes "0 \<le> a" "a < 256" "0 \<le> b" "b < 256" "0 \<le> c" "c < 256" "0 \<le> d" "d < 256"
  shows "parse_ip (show_ipv4 a b c d) = Some [a, b, c, d]"
  using assms parse_show_ipv4 [OF assms] ip_kind_digits [OF show_dec_digits [OF assms(1)]]
  by (simp add: parse_ip_def show_ipv4_def itoa_def)

end
