(* ===== verification/Config.thy ===== *)
theory Config
  imports GoText
begin

text \<open>
  \<open>internal/config/config.go\<close>: the configuration record and its defaults, the reader for UCI
  text (comment stripping, field splitting, sections), the interpretation of the sections,
  the validator, and what a configuration that \<open>Parse\<close> accepts is guaranteed to satisfy.
\<close>

section \<open>The data\<close>

record Probe =
  p_Name :: string
  p_QType :: int

record Upstream =
  u_Name :: string
  u_Enabled :: bool
  u_Priority :: int
  u_Protocol :: string
  u_Address :: string
  u_Port :: int

record Config =
  c_Enabled :: bool
  c_ListenAddr :: string
  c_ListenPort :: int
  c_AttemptTimeout :: duration
  c_RequestTimeout :: duration
  c_HealthInterval :: duration
  c_FailThreshold :: int
  c_RecoverThreshold :: int
  c_MaxConcurrent :: int
  c_StatusSocket :: string
  c_Probes :: "Probe list"
  c_Upstreams :: "Upstream list"

definition Endpoint :: "Upstream \<Rightarrow> string" where
  "Endpoint u = join_host_port (u_Address u) (itoa (u_Port u))"

definition DefaultPath :: string where
  "DefaultPath = ''/etc/config/failsafe-dns-proxy''"

definition Defaults :: Config where
  "Defaults =
     \<lparr>c_Enabled = True,
      c_ListenAddr = ''127.0.0.1'',
      c_ListenPort = 5359,
      c_AttemptTimeout = 1500 * millisecond,
      c_RequestTimeout = 5 * second,
      c_HealthInterval = 10 * second,
      c_FailThreshold = 3,
      c_RecoverThreshold = 3,
      c_MaxConcurrent = 128,
      c_StatusSocket = ''/var/run/failsafe-dns-proxy.sock'',
      c_Probes = [],
      c_Upstreams = []\<rparr>"

text \<open>
  A UCI section: the options are a map, where a later line wins, and the lists collect their
  values in order.
\<close>

record uci_section =
  sec_kind :: string
  sec_name :: string
  sec_options :: "string \<rightharpoonup> string"
  sec_lists :: "string \<Rightarrow> string list"
  sec_line :: nat

section \<open>The errors\<close>

datatype line_error =
    UnterminatedQuoteOrEscape
  | EmptyDirective
  | ConfigExpectsTypeAndName
  | OutsideSection string
  | ExpectsKeyAndValue string
  | UnsupportedDirective string

datatype option_error = MustBeBoolean string | MustBeInteger string

datatype probe_error = ExpectedNameType | TypeMustBeAOrAAAA

datatype problem =
    ListenAddrNotIP
  | ListenPortRange
  | AttemptTimeoutNotPositive
  | RequestTimeoutTooSmall
  | HealthIntervalNotPositive
  | ThresholdsNotPositive
  | MaxConcurrentNotPositive
  | StatusSocketEmpty
  | NoProbe
  | NoUpstream
  | DuplicateName string
  | DuplicatePriority int
  | NegativePriority string
  | BadProtocol string
  | AddressNotIP string
  | PortRange string

datatype config_error =
    OpenError string string
  | LineError nat line_error
  | ReadError string
  | MultipleMain
  | MissingMain
  | UnsupportedSection nat string
  | MainOption option_error
  | MainProbe string probe_error
  | UpstreamRequiresName nat
  | UpstreamOption string option_error
  | InvalidConfig "problem list"

section \<open>The text of the errors\<close>

fun line_error_text :: "line_error \<Rightarrow> string" where
  "line_error_text UnterminatedQuoteOrEscape = ''unterminated quote or escape''"
| "line_error_text EmptyDirective = ''empty directive''"
| "line_error_text ConfigExpectsTypeAndName = ''config expects type and optional name''"
| "line_error_text (OutsideSection d) = d @ '' outside section''"
| "line_error_text (ExpectsKeyAndValue d) = d @ '' expects key and value''"
| "line_error_text (UnsupportedDirective d) = ''unsupported directive '' @ go_quote d"

fun option_error_text :: "option_error \<Rightarrow> string" where
  "option_error_text (MustBeBoolean key) = key @ '' must be a boolean''"
| "option_error_text (MustBeInteger key) = key @ '' must be an integer''"

fun probe_error_text :: "probe_error \<Rightarrow> string" where
  "probe_error_text ExpectedNameType = ''expected name:type''"
| "probe_error_text TypeMustBeAOrAAAA = ''type must be A or AAAA''"

fun problem_text :: "problem \<Rightarrow> string" where
  "problem_text ListenAddrNotIP = ''listen_addr must be an IP address''"
| "problem_text ListenPortRange = ''listen_port must be between 1 and 65535''"
| "problem_text AttemptTimeoutNotPositive = ''attempt_timeout_ms must be positive''"
| "problem_text RequestTimeoutTooSmall = ''request_timeout_ms must be >= attempt_timeout_ms''"
| "problem_text HealthIntervalNotPositive = ''health_interval_s must be positive''"
| "problem_text ThresholdsNotPositive = ''failure and recovery thresholds must be positive''"
| "problem_text MaxConcurrentNotPositive = ''max_concurrent must be positive''"
| "problem_text StatusSocketEmpty = ''status_socket must not be empty''"
| "problem_text NoProbe = ''at least one probe is required''"
| "problem_text NoUpstream = ''at least one enabled upstream is required''"
| "problem_text (DuplicateName name) = ''duplicate upstream name '' @ go_quote name"
| "problem_text (DuplicatePriority p) = ''duplicate upstream priority '' @ itoa p"
| "problem_text (NegativePriority name) = ''upstream '' @ go_quote name @ '' priority must be non-negative''"
| "problem_text (BadProtocol name) = ''upstream '' @ go_quote name @ '' protocol must be udp or tcp''"
| "problem_text (AddressNotIP name) = ''upstream '' @ go_quote name @ '' address must be an IP address''"
| "problem_text (PortRange name) = ''upstream '' @ go_quote name @ '' port must be between 1 and 65535''"

fun config_error_text :: "config_error \<Rightarrow> string" where
  "config_error_text (OpenError path e) = ''open config '' @ go_quote path @ '': '' @ e"
| "config_error_text (LineError n e) = ''line '' @ itoa (int n) @ '': '' @ line_error_text e"
| "config_error_text (ReadError e) = ''read config: '' @ e"
| "config_error_text MultipleMain = ''multiple main sections''"
| "config_error_text MissingMain = ''missing main section''"
| "config_error_text (UnsupportedSection n kind) =
     ''line '' @ itoa (int n) @ '': unsupported section type '' @ go_quote kind"
| "config_error_text (MainOption e) = option_error_text e"
| "config_error_text (MainProbe raw e) = ''main probe '' @ go_quote raw @ '': '' @ probe_error_text e"
| "config_error_text (UpstreamRequiresName n) = ''line '' @ itoa (int n) @ '': upstream requires a name''"
| "config_error_text (UpstreamOption name e) = ''upstream '' @ go_quote name @ '': '' @ option_error_text e"
| "config_error_text (InvalidConfig problems) = join ''; '' (map problem_text problems)"

section \<open>UCI lines\<close>

text \<open>
  \<open>stripComment\<close> cuts the line at the first \<open>#\<close> outside quotes. It knows quotes but, unlike
  \<open>splitUCI\<close>, no backslash.
\<close>

fun strip_from :: "char option \<Rightarrow> string \<Rightarrow> string" where
  "strip_from quote [] = []"
| "strip_from quote (r # rs) =
     (if quote = None \<and> (r = CHR 0x27 \<or> r = CHR 0x22) then r # strip_from (Some r) rs
      else if quote = Some r then r # strip_from None rs
      else if quote = None \<and> r = CHR ''#'' then []
      else r # strip_from quote rs)"

definition stripComment :: "string \<Rightarrow> string" where
  "stripComment line = strip_from None line"

definition flush :: "string list \<Rightarrow> string \<Rightarrow> string list" where
  "flush flds b = (if b = [] then flds else flds @ [b])"

text \<open>The loop of \<open>splitUCI\<close>: fields done, the field being built, the open quote, the escape flag.\<close>

fun split_from ::
  "string list \<Rightarrow> string \<Rightarrow> char option \<Rightarrow> bool \<Rightarrow> string \<Rightarrow> line_error + string list" where
  "split_from flds b quote escaped [] =
     (if escaped \<or> quote \<noteq> None then Inl UnterminatedQuoteOrEscape
      else if flush flds b = [] then Inl EmptyDirective
      else Inr (flush flds b))"
| "split_from flds b quote escaped (r # rs) =
     (if escaped then split_from flds (b @ [r]) quote False rs
      else if r = CHR 0x5C \<and> quote \<noteq> Some (CHR 0x27) then split_from flds b quote True rs
      else if quote \<noteq> None then
        (if quote = Some r then split_from flds b None False rs
         else split_from flds (b @ [r]) quote False rs)
      else if r = CHR 0x27 \<or> r = CHR 0x22 then split_from flds b (Some r) False rs
      else if r = CHR '' '' \<or> r = CHR 0x09 then split_from (flush flds b) [] None False rs
      else split_from flds (b @ [r]) None False rs)"

definition splitUCI :: "string \<Rightarrow> line_error + string list" where
  "splitUCI line = split_from [] [] None False line"

section \<open>Options\<close>

definition boolOption :: "uci_section \<Rightarrow> string \<Rightarrow> bool \<Rightarrow> option_error + bool" where
  "boolOption s key fallback =
     (case sec_options s key of
        None \<Rightarrow> Inr fallback
      | Some raw \<Rightarrow>
          if raw \<in> {''1'', ''true'', ''yes'', ''on''} then Inr True
          else if raw \<in> {''0'', ''false'', ''no'', ''off''} then Inr False
          else Inl (MustBeBoolean key))"

definition intOption :: "uci_section \<Rightarrow> string \<Rightarrow> int \<Rightarrow> option_error + int" where
  "intOption s key fallback =
     (case sec_options s key of
        None \<Rightarrow> Inr fallback
      | Some raw \<Rightarrow> (case atoi raw of None \<Rightarrow> Inl (MustBeInteger key) | Some v \<Rightarrow> Inr v))"

definition stringOption :: "uci_section \<Rightarrow> string \<Rightarrow> string \<Rightarrow> string" where
  "stringOption s key fallback =
     (case sec_options s key of None \<Rightarrow> fallback | Some v \<Rightarrow> v)"

definition parseProbe :: "string \<Rightarrow> probe_error + Probe" where
  "parseProbe raw =
     (case cut (CHR '':'') raw of
        None \<Rightarrow> Inl ExpectedNameType
      | Some (name, kind) \<Rightarrow>
          if trim_space name = [] then Inl ExpectedNameType
          else
            let name = to_lower (trim_space name);
                name = (if has_suffix name ''.'' then name else name @ ''.'');
                kind = to_upper (trim_space kind)
            in if kind = ''A'' then Inr \<lparr>p_Name = name, p_QType = 1\<rparr>
               else if kind = ''AAAA'' then Inr \<lparr>p_Name = name, p_QType = 28\<rparr>
               else Inl TypeMustBeAOrAAAA)"

section \<open>Sections\<close>

fun applyProbes :: "Probe list \<Rightarrow> string list \<Rightarrow> config_error + Probe list" where
  "applyProbes ps [] = Inr ps"
| "applyProbes ps (raw # raws) =
     (case parseProbe raw of
        Inl e \<Rightarrow> Inl (MainProbe raw e)
      | Inr p \<Rightarrow> applyProbes (ps @ [p]) raws)"

definition applyMain :: "Config \<Rightarrow> uci_section \<Rightarrow> config_error + Config" where
  "applyMain cfg s =
     bind_err (wrap_err MainOption (boolOption s ''enabled'' (c_Enabled cfg))) (\<lambda>enabled.
     let cfg = cfg\<lparr>c_Enabled := enabled,
                   c_ListenAddr := stringOption s ''listen_addr'' (c_ListenAddr cfg),
                   c_StatusSocket := stringOption s ''status_socket'' (c_StatusSocket cfg)\<rparr> in
     bind_err (wrap_err MainOption (intOption s ''listen_port'' (c_ListenPort cfg))) (\<lambda>port.
     bind_err (wrap_err MainOption
       (intOption s ''attempt_timeout_ms'' (go_div (c_AttemptTimeout cfg) millisecond))) (\<lambda>ams.
     bind_err (wrap_err MainOption
       (intOption s ''request_timeout_ms'' (go_div (c_RequestTimeout cfg) millisecond))) (\<lambda>rms.
     bind_err (wrap_err MainOption
       (intOption s ''health_interval_s'' (go_div (c_HealthInterval cfg) second))) (\<lambda>seconds.
     bind_err (wrap_err MainOption (intOption s ''fail_threshold'' (c_FailThreshold cfg))) (\<lambda>failT.
     bind_err (wrap_err MainOption (intOption s ''recover_threshold'' (c_RecoverThreshold cfg))) (\<lambda>recT.
     bind_err (wrap_err MainOption (intOption s ''max_concurrent'' (c_MaxConcurrent cfg))) (\<lambda>maxC.
     bind_err (applyProbes (c_Probes cfg) (sec_lists s ''probe'')) (\<lambda>probes.
     Inr (cfg\<lparr>c_ListenPort := port,
              c_AttemptTimeout := wrap64 (ams * millisecond),
              c_RequestTimeout := wrap64 (rms * millisecond),
              c_HealthInterval := wrap64 (seconds * second),
              c_FailThreshold := failT,
              c_RecoverThreshold := recT,
              c_MaxConcurrent := maxC,
              c_Probes := probes\<rparr>))))))))))"

definition parseUpstream :: "uci_section \<Rightarrow> config_error + Upstream" where
  "parseUpstream s =
     (if sec_name s = [] then Inl (UpstreamRequiresName (sec_line s))
      else
        bind_err (wrap_err (UpstreamOption (sec_name s)) (boolOption s ''enabled'' True)) (\<lambda>enabled.
        bind_err (wrap_err (UpstreamOption (sec_name s)) (intOption s ''priority'' 0)) (\<lambda>prio.
        bind_err (wrap_err (UpstreamOption (sec_name s)) (intOption s ''port'' 53)) (\<lambda>port.
        Inr \<lparr>u_Name = sec_name s,
             u_Enabled = enabled,
             u_Priority = prio,
             u_Protocol = to_lower (stringOption s ''protocol'' ''udp''),
             u_Address = stringOption s ''address'' [],
             u_Port = port\<rparr>))))"

section \<open>The validator\<close>

text \<open>The loop over the upstreams, with the names and the priorities seen so far.\<close>

fun validate_upstreams :: "(string \<Rightarrow> bool) \<Rightarrow> (int \<Rightarrow> bool) \<Rightarrow> Upstream list \<Rightarrow> problem list" where
  "validate_upstreams names prios [] = []"
| "validate_upstreams names prios (u # us) =
     (if names (u_Name u) then [DuplicateName (u_Name u)] else []) @
     (if prios (u_Priority u) then [DuplicatePriority (u_Priority u)] else []) @
     (if u_Priority u < 0 then [NegativePriority (u_Name u)] else []) @
     (if u_Protocol u \<noteq> ''udp'' \<and> u_Protocol u \<noteq> ''tcp'' then [BadProtocol (u_Name u)] else []) @
     (if parse_ip (u_Address u) = None then [AddressNotIP (u_Name u)] else []) @
     (if u_Port u < 1 \<or> u_Port u > 65535 then [PortRange (u_Name u)] else []) @
     validate_upstreams (names(u_Name u := True)) (prios(u_Priority u := True)) us"

definition Validate :: "Config \<Rightarrow> problem list" where
  "Validate c =
     (if parse_ip (c_ListenAddr c) = None then [ListenAddrNotIP] else []) @
     (if c_ListenPort c < 1 \<or> c_ListenPort c > 65535 then [ListenPortRange] else []) @
     (if c_AttemptTimeout c \<le> 0 then [AttemptTimeoutNotPositive] else []) @
     (if c_RequestTimeout c < c_AttemptTimeout c then [RequestTimeoutTooSmall] else []) @
     (if c_HealthInterval c \<le> 0 then [HealthIntervalNotPositive] else []) @
     (if c_FailThreshold c < 1 \<or> c_RecoverThreshold c < 1 then [ThresholdsNotPositive] else []) @
     (if c_MaxConcurrent c < 1 then [MaxConcurrentNotPositive] else []) @
     (if c_StatusSocket c = [] then [StatusSocketEmpty] else []) @
     (if c_Probes c = [] then [NoProbe] else []) @
     (if c_Upstreams c = [] then [NoUpstream] else []) @
     validate_upstreams (\<lambda>_. False) (\<lambda>_. False) (c_Upstreams c)"

section \<open>The parser\<close>

text \<open>
  One directive. \<open>current\<close> of the source points at the last section appended, so it is nil
  exactly while there is no section.
\<close>

definition put_option :: "uci_section \<Rightarrow> string \<Rightarrow> string \<Rightarrow> uci_section" where
  "put_option s k v = s\<lparr>sec_options := (sec_options s)(k \<mapsto> v)\<rparr>"

definition put_list :: "uci_section \<Rightarrow> string \<Rightarrow> string \<Rightarrow> uci_section" where
  "put_list s k v = s\<lparr>sec_lists := (sec_lists s)(k := sec_lists s k @ [v])\<rparr>"

definition directive :: "nat \<Rightarrow> uci_section list \<Rightarrow> string list \<Rightarrow> config_error + uci_section list" where
  "directive lineNo secs flds =
     (let d = hd flds in
      if d = ''config'' then
        (if length flds < 2 \<or> length flds > 3 then Inl (LineError lineNo ConfigExpectsTypeAndName)
         else Inr (secs @ [\<lparr>sec_kind = flds ! 1,
                            sec_name = (if length flds = 3 then flds ! 2 else []),
                            sec_options = Map.empty, sec_lists = (\<lambda>_. []), sec_line = lineNo\<rparr>]))
      else if d = ''option'' \<or> d = ''list'' then
        (if secs = [] then Inl (LineError lineNo (OutsideSection d))
         else if length flds \<noteq> 3 then Inl (LineError lineNo (ExpectsKeyAndValue d))
         else if d = ''option''
         then Inr (butlast secs @ [put_option (last secs) (flds ! 1) (flds ! 2)])
         else Inr (butlast secs @ [put_list (last secs) (flds ! 1) (flds ! 2)]))
      else Inl (LineError lineNo (UnsupportedDirective d)))"

fun parse_lines :: "nat \<Rightarrow> uci_section list \<Rightarrow> string list \<Rightarrow> config_error + uci_section list" where
  "parse_lines lineNo secs [] = Inr secs"
| "parse_lines lineNo secs (text # rest) =
     (let line = trim_space (stripComment text) in
      if line = [] then parse_lines (Suc lineNo) secs rest
      else case splitUCI line of
          Inl e \<Rightarrow> Inl (LineError lineNo e)
        | Inr flds \<Rightarrow>
            (case directive lineNo secs flds of
               Inl e \<Rightarrow> Inl e
             | Inr secs' \<Rightarrow> parse_lines (Suc lineNo) secs' rest))"

fun apply_sections :: "bool \<Rightarrow> Config \<Rightarrow> uci_section list \<Rightarrow> config_error + Config" where
  "apply_sections haveMain cfg [] = (if haveMain then Inr cfg else Inl MissingMain)"
| "apply_sections haveMain cfg (s # ss) =
     (if sec_kind s = ''main'' then
        (if haveMain then Inl MultipleMain
         else case applyMain cfg s of Inl e \<Rightarrow> Inl e | Inr cfg' \<Rightarrow> apply_sections True cfg' ss)
      else if sec_kind s = ''upstream'' then
        (case parseUpstream s of
           Inl e \<Rightarrow> Inl e
         | Inr u \<Rightarrow>
             apply_sections haveMain
               (if u_Enabled u then cfg\<lparr>c_Upstreams := c_Upstreams cfg @ [u]\<rparr> else cfg) ss)
      else Inl (UnsupportedSection (sec_line s) (sec_kind s)))"

text \<open>\<open>sort.SliceStable\<close> by priority, then by name.\<close>

definition sort_upstreams :: "Upstream list \<Rightarrow> Upstream list" where
  "sort_upstreams us = sort_key (\<lambda>u. (u_Priority u, u_Name u)) us"

text \<open>
  \<open>Parse\<close> reads from an \<open>io.Reader\<close>: its bytes, and the error the reader fails with after them. A line
  that fills the scanner's buffer ends the scan before that.
\<close>

definition Parse :: "string \<Rightarrow> string option \<Rightarrow> config_error + Config" where
  "Parse text failed =
     (let (ls, tooLong) = scan_lines text in
      bind_err (parse_lines 1 [] ls) (\<lambda>secs.
      case (if tooLong then Some ''bufio.Scanner: token too long'' else failed) of
        Some e \<Rightarrow> Inl (ReadError e)
      | None \<Rightarrow>
        bind_err (apply_sections False Defaults secs) (\<lambda>cfg.
        let cfg = cfg\<lparr>c_Upstreams := sort_upstreams (c_Upstreams cfg)\<rparr> in
        case Validate cfg of [] \<Rightarrow> Inr cfg | p # ps \<Rightarrow> Inl (InvalidConfig (p # ps)))))"

text \<open>
  \<open>Load\<close> opens a file: the file system is a parameter that gives the error of opening a path, or
  its bytes and the error that reading fails with after them.
\<close>

type_synonym filesystem = "string \<Rightarrow> string + string \<times> string option"

definition Load :: "filesystem \<Rightarrow> string \<Rightarrow> config_error + Config" where
  "Load fs path =
     (case fs path of Inl e \<Rightarrow> Inl (OpenError path e) | Inr (text, failed) \<Rightarrow> Parse text failed)"

section \<open>The validator decides a readable specification\<close>

definition valid_upstream :: "Upstream \<Rightarrow> bool" where
  "valid_upstream u \<longleftrightarrow>
     0 \<le> u_Priority u \<and> u_Protocol u \<in> {''udp'', ''tcp''} \<and> parse_ip (u_Address u) \<noteq> None \<and>
     1 \<le> u_Port u \<and> u_Port u \<le> 65535"

definition valid_config :: "Config \<Rightarrow> bool" where
  "valid_config c \<longleftrightarrow>
     parse_ip (c_ListenAddr c) \<noteq> None \<and>
     1 \<le> c_ListenPort c \<and> c_ListenPort c \<le> 65535 \<and>
     0 < c_AttemptTimeout c \<and> c_AttemptTimeout c \<le> c_RequestTimeout c \<and>
     0 < c_HealthInterval c \<and> 1 \<le> c_FailThreshold c \<and> 1 \<le> c_RecoverThreshold c \<and>
     1 \<le> c_MaxConcurrent c \<and> c_StatusSocket c \<noteq> [] \<and> c_Probes c \<noteq> [] \<and>
     c_Upstreams c \<noteq> [] \<and> list_all valid_upstream (c_Upstreams c) \<and>
     distinct (map u_Name (c_Upstreams c)) \<and> distinct (map u_Priority (c_Upstreams c))"

lemma validate_upstreams_Nil:
  "validate_upstreams names prios us = [] \<longleftrightarrow>
     list_all valid_upstream us \<and>
     (\<forall>u \<in> set us. \<not> names (u_Name u) \<and> \<not> prios (u_Priority u)) \<and>
     distinct (map u_Name us) \<and> distinct (map u_Priority us)"
proof (induction us arbitrary: names prios)
  case Nil
  then show ?case by simp
next
  case (Cons u us)
  show ?case
    by (simp add: Cons.IH valid_upstream_def image_iff) (auto simp: eq_commute)
qed

text \<open>
  The validator reports no problem exactly for the configurations that satisfy the
  specification: it neither accepts an invalid one nor refuses a valid one.
\<close>

lemma Validate_Nil: "Validate c = [] \<longleftrightarrow> valid_config c"
  by (auto simp: Validate_def valid_config_def validate_upstreams_Nil)

section \<open>What Parse guarantees\<close>

lemma parseUpstream_Inr:
  assumes "parseUpstream s = Inr u"
  shows "u_Name u = sec_name s \<and> sec_name s \<noteq> []"
  using assms by (auto simp: parseUpstream_def split: if_splits)

lemma applyMain_upstreams: "applyMain cfg s = Inr cfg' \<Longrightarrow> c_Upstreams cfg' = c_Upstreams cfg"
  by (auto simp: applyMain_def Let_def)

lemma apply_sections_enabled:
  assumes "apply_sections m cfg ss = Inr cfg'" and "list_all u_Enabled (c_Upstreams cfg)"
  shows "list_all u_Enabled (c_Upstreams cfg')"
  using assms
proof (induction m cfg ss rule: apply_sections.induct)
  case (1 m cfg)
  then show ?case by (auto split: if_splits)
next
  case (2 m cfg s ss)
  then show ?case
    by (auto split: if_splits sum.splits dest: applyMain_upstreams)
qed

lemma sort_upstreams_set [simp]: "set (sort_upstreams us) = set us"
  by (simp add: sort_upstreams_def)

lemma sort_upstreams_sorted: "sorted (map u_Priority (sort_upstreams us))"
proof -
  have "sorted (map (\<lambda>u. (u_Priority u, u_Name u)) (sort_upstreams us))"
    unfolding sort_upstreams_def by (rule sorted_sort_key)
  then show ?thesis
    by (fastforce simp: sorted_iff_nth_mono less_eq_prod_def)
qed

lemma Parse_InrE:
  assumes "Parse text rf = Inr cfg"
  obtains secs cfg0 where "parse_lines 1 [] (fst (scan_lines text)) = Inr secs"
    and "\<not> snd (scan_lines text)" and "rf = None"
    and "apply_sections False Defaults secs = Inr cfg0"
    and "cfg = cfg0\<lparr>c_Upstreams := sort_upstreams (c_Upstreams cfg0)\<rparr>"
    and "Validate cfg = []"
  using assms by (auto simp: Parse_def Let_def split: prod.splits if_splits list.splits option.splits)

lemma Parse_upstreams:
  assumes "Parse text rf = Inr cfg"
  shows "sorted (map u_Priority (c_Upstreams cfg))" and "list_all u_Enabled (c_Upstreams cfg)"
    and "valid_config cfg"
proof -
  from assms obtain secs cfg0 where cfg0: "apply_sections False Defaults secs = Inr cfg0"
    and cfg: "cfg = cfg0\<lparr>c_Upstreams := sort_upstreams (c_Upstreams cfg0)\<rparr>"
    and val: "Validate cfg = []"
    by (rule Parse_InrE)
  from cfg show "sorted (map u_Priority (c_Upstreams cfg))"
    by (simp add: sort_upstreams_sorted)
  from apply_sections_enabled [OF cfg0] show "list_all u_Enabled (c_Upstreams cfg)"
    by (simp add: cfg Defaults_def list_all_iff)
  from val show "valid_config cfg" by (simp add: Validate_Nil)
qed

lemma Load_Inr_Parse:
  assumes "Load fs path = Inr cfg"
  obtains src where "Parse src None = Inr cfg"
proof -
  from assms obtain src rf where p: "Parse src rf = Inr cfg"
    by (auto simp: Load_def split: sum.splits)
  from p have "rf = None" by (rule Parse_InrE)
  with p that show ?thesis by simp
qed

lemma Load_valid_config: "Load fs path = Inr cfg \<Longrightarrow> valid_config cfg"
  by (erule Load_Inr_Parse) (rule Parse_upstreams(3))

text \<open>The numbers of an accepted configuration are machine integers.\<close>

definition machine_config :: "Config \<Rightarrow> bool" where
  "machine_config c \<longleftrightarrow> in_int64 (c_FailThreshold c) \<and> in_int64 (c_RecoverThreshold c) \<and>
     in_int64 (c_AttemptTimeout c) \<and> in_int64 (c_RequestTimeout c) \<and> in_int64 (c_HealthInterval c)"

lemma intOption_in_int64: "intOption s k d = Inr i \<Longrightarrow> in_int64 d \<Longrightarrow> in_int64 i"
  by (auto simp: intOption_def atoi_in_int64 split: option.splits)

lemma applyMain_machine:
  assumes "applyMain cfg s = Inr cfg'" and "machine_config cfg"
  shows "machine_config cfg'"
  using assms
  by (auto simp: applyMain_def Let_def machine_config_def wrap64_in_int64 intro: intOption_in_int64)

lemma apply_sections_machine:
  "apply_sections m cfg ss = Inr cfg' \<Longrightarrow> machine_config cfg \<Longrightarrow> machine_config cfg'"
proof (induction m cfg ss rule: apply_sections.induct)
  case (1 m cfg)
  then show ?case by (auto split: if_splits)
next
  case (2 m cfg s ss)
  then show ?case
    by (auto simp: machine_config_def split: if_splits sum.splits dest: applyMain_machine [unfolded machine_config_def])
qed

lemma Load_machine:
  assumes "Load fs path = Inr cfg"
  shows "machine_config cfg"
proof -
  from assms obtain src where p: "Parse src None = Inr cfg" by (rule Load_Inr_Parse)
  from p obtain secs cfg0 where cfg0: "apply_sections False Defaults secs = Inr cfg0"
    and cfg: "cfg = cfg0\<lparr>c_Upstreams := sort_upstreams (c_Upstreams cfg0)\<rparr>"
    by (rule Parse_InrE)
  have "machine_config Defaults"
    by (simp add: machine_config_def Defaults_def in_int64_def min_int64_def max_int64_def second_def millisecond_def)
  from apply_sections_machine [OF cfg0 this] show ?thesis by (simp add: cfg machine_config_def)
qed

text \<open>
  C10: a configuration that \<open>Load\<close> accepts satisfies the whole specification of a valid
  configuration (addresses, ports, timeouts, thresholds, unique names and priorities, at
  least one probe and one upstream), holds only enabled upstreams, and lists them in
  strictly increasing priority, whatever the file says.
\<close>

theorem Load_valid:
  assumes "Load fs path = Inr cfg"
  shows "valid_config cfg \<and> list_all u_Enabled (c_Upstreams cfg) \<and>
    (\<forall>i j. i < j \<and> j < length (c_Upstreams cfg) \<longrightarrow>
       u_Priority (c_Upstreams cfg ! i) < u_Priority (c_Upstreams cfg ! j))"
proof -
  from assms obtain src where p: "Parse src None = Inr cfg" by (rule Load_Inr_Parse)
  from Parse_upstreams(3) [OF p] have "distinct (map u_Priority (c_Upstreams cfg))"
    by (simp add: valid_config_def)
  with Parse_upstreams [OF p] show ?thesis
    by (auto intro: sorted_distinct_strict)
qed

section \<open>A sample file\<close>

text \<open>
  A small configuration in the format of the packaged file, for the witnesses of this and
  the later theories: two upstreams written in the wrong order.
\<close>

definition uci_quote :: "string \<Rightarrow> string" where
  "uci_quote v = CHR 0x27 # v @ [CHR 0x27]"

definition sample_lines :: "string list" where
  "sample_lines =
     [''config main '' @ uci_quote ''main'',
      CHR 0x09 # ''list probe '' @ uci_quote ''example.com:A'' @ ''  # a comment'',
      [],
      ''config upstream '' @ uci_quote ''backup'',
      CHR 0x09 # ''option priority '' @ uci_quote ''20'',
      CHR 0x09 # ''option address '' @ uci_quote ''192.0.2.2'',
      ''config upstream '' @ uci_quote ''primary'',
      CHR 0x09 # ''option priority '' @ uci_quote ''10'',
      CHR 0x09 # ''option address '' @ uci_quote ''192.0.2.1'']"

definition sample_text :: string where
  "sample_text = join [CHR 0x0A] sample_lines"

definition sample_fs :: filesystem where
  "sample_fs = (\<lambda>_. Inl ''no such file or directory'')(DefaultPath := Inr (sample_text, None))"

definition sample_upstream :: "string \<Rightarrow> int \<Rightarrow> string \<Rightarrow> Upstream" where
  "sample_upstream name prio addr =
     \<lparr>u_Name = name, u_Enabled = True, u_Priority = prio, u_Protocol = ''udp'',
      u_Address = addr, u_Port = 53\<rparr>"

definition sample_config :: Config where
  "sample_config =
     Defaults\<lparr>c_Probes := [\<lparr>p_Name = ''example.com.'', p_QType = 1\<rparr>],
              c_Upstreams := [sample_upstream ''primary'' 10 ''192.0.2.1'',
                              sample_upstream ''backup'' 20 ''192.0.2.2'']\<rparr>"

lemma sample_parses: "Parse sample_text None = Inr sample_config"
  by code_simp

lemma sample_loads: "Load sample_fs DefaultPath = Inr sample_config"
  by (simp add: Load_def sample_fs_def sample_parses)

lemma Load_valid_witness:
  "Load sample_fs DefaultPath = Inr sample_config \<and> valid_config sample_config"
  using sample_loads Load_valid [OF sample_loads] by blast

section \<open>Lines survive indentation, comments and quoting\<close>

text \<open>
  A line as \<open>uci export\<close> writes it: indentation, a bare keyword, quoted values, and possibly a
  comment. Values may hold anything but a single quote: blanks, \<open>#\<close>, backslashes.
\<close>

definition bare_word :: "string \<Rightarrow> bool" where
  "bare_word w \<longleftrightarrow> w \<noteq> [] \<and>
     list_all (\<lambda>c. \<not> is_space c \<and> c \<notin> {CHR 0x27, CHR 0x22, CHR 0x5C, CHR ''#''}) w"

definition uci_value :: "string \<Rightarrow> bool" where
  "uci_value v \<longleftrightarrow> v \<noteq> [] \<and> CHR 0x27 \<notin> set v"

definition uci_line :: "string \<Rightarrow> string list \<Rightarrow> string" where
  "uci_line kw args = kw @ concat (map (\<lambda>a. CHR '' '' # uci_quote a) args)"

definition uci_tail :: "string \<Rightarrow> string option \<Rightarrow> string" where
  "uci_tail ws cmt = ws @ (case cmt of None \<Rightarrow> [] | Some t \<Rightarrow> CHR ''#'' # t)"

lemma is_space_space [simp]: "is_space (CHR '' '')" "is_space (CHR 0x09)"
  by (simp_all add: is_space_def)

lemma is_space_not_special:
  "is_space c \<Longrightarrow> c \<noteq> CHR 0x27 \<and> c \<noteq> CHR 0x22 \<and> c \<noteq> CHR ''#'' \<and> c \<noteq> CHR 0x5C"
  by (auto simp: is_space_def)

lemma split_from_word:
  "list_all (\<lambda>c. \<not> is_space c \<and> c \<notin> {CHR 0x27, CHR 0x22, CHR 0x5C, CHR ''#''}) w \<Longrightarrow>
   split_from flds b None False (w @ rest) = split_from flds (b @ w) None False rest"
  by (induction w arbitrary: b) auto

lemma split_from_quoted:
  "CHR 0x27 \<notin> set v \<Longrightarrow>
   split_from flds b (Some (CHR 0x27)) False (v @ CHR 0x27 # rest) =
   split_from flds (b @ v) None False rest"
  by (induction v arbitrary: b) auto

lemma split_from_args:
  "b \<noteq> [] \<Longrightarrow> list_all uci_value args \<Longrightarrow>
   split_from flds b None False (concat (map (\<lambda>a. CHR '' '' # uci_quote a) args)) =
   Inr (flds @ b # args)"
proof (induction args arbitrary: flds b)
  case Nil
  then show ?case by (simp add: flush_def)
next
  case (Cons a args)
  then have a: "a \<noteq> []" "CHR 0x27 \<notin> set a" by (auto simp: uci_value_def)
  then have "split_from flds b None False (concat (map (\<lambda>a. CHR '' '' # uci_quote a) (a # args))) =
    split_from (flds @ [b]) a None False (concat (map (\<lambda>a. CHR '' '' # uci_quote a) args))"
    using Cons.prems(1) by (simp add: uci_quote_def flush_def split_from_quoted)
  with Cons a(1) show ?case by simp
qed

lemma splitUCI_line:
  assumes "bare_word kw" and "list_all uci_value args"
  shows "splitUCI (uci_line kw args) = Inr (kw # args)"
  using assms split_from_args [of kw args "[]"]
  by (simp add: splitUCI_def uci_line_def bare_word_def split_from_word)

lemma strip_from_plain:
  "list_all (\<lambda>c. c \<notin> {CHR 0x27, CHR 0x22, CHR ''#''}) w \<Longrightarrow>
   strip_from None (w @ rest) = w @ strip_from None rest"
  by (induction w) auto

lemma strip_from_quoted:
  "CHR 0x27 \<notin> set v \<Longrightarrow>
   strip_from (Some (CHR 0x27)) (v @ CHR 0x27 # rest) = v @ CHR 0x27 # strip_from None rest"
  by (induction v) auto

lemma strip_from_args:
  "list_all uci_value args \<Longrightarrow>
   strip_from None (concat (map (\<lambda>a. CHR '' '' # uci_quote a) args) @ rest) =
   concat (map (\<lambda>a. CHR '' '' # uci_quote a) args) @ strip_from None rest"
  by (induction args) (auto simp: uci_quote_def uci_value_def strip_from_quoted)

lemma stripComment_line:
  assumes "list_all is_space pre" and "bare_word kw" and "list_all uci_value args"
    and "list_all is_space ws"
  shows "stripComment (pre @ uci_line kw args @ uci_tail ws cmt) = pre @ uci_line kw args @ ws"
proof -
  have "list_all is_space w \<Longrightarrow> list_all (\<lambda>c. c \<notin> {CHR 0x27, CHR 0x22, CHR ''#''}) w" for w
    by (induction w) (auto dest: is_space_not_special)
  moreover have "list_all (\<lambda>c. c \<notin> {CHR 0x27, CHR 0x22, CHR ''#''}) kw"
    using assms(2) unfolding bare_word_def by (auto elim: list.pred_mono_strong)
  moreover have "strip_from None ((case cmt of None \<Rightarrow> [] | Some t \<Rightarrow> CHR ''#'' # t)) = []"
    by (cases cmt) auto
  ultimately show ?thesis
    using assms(1,3,4) by (simp add: stripComment_def uci_line_def uci_tail_def
        strip_from_plain strip_from_args)
qed

lemma dropWhile_space_append:
  "list_all is_space pre \<Longrightarrow> dropWhile is_space (pre @ rest) = dropWhile is_space rest"
  by (induction pre) auto

lemma trim_space_line:
  assumes "list_all is_space pre" and "list_all is_space ws"
    and "body \<noteq> []" and "\<not> is_space (hd body)" and "\<not> is_space (last body)"
  shows "trim_space (pre @ body @ ws) = body"
proof -
  have "dropWhile is_space (pre @ body @ ws) = body @ ws"
    using assms by (cases body) (simp_all add: dropWhile_space_append)
  moreover have "dropWhile is_space (rev (body @ ws)) = rev body"
    using assms dropWhile_space_append [of "rev ws" "rev body"]
    by (cases "rev body") (auto simp: list_all_iff hd_rev [symmetric])
  ultimately show ?thesis by (simp add: trim_space_def)
qed

lemma uci_line_ends:
  assumes "bare_word kw"
  shows "uci_line kw args \<noteq> []" and "\<not> is_space (hd (uci_line kw args))"
    and "\<not> is_space (last (uci_line kw args))"
proof -
  from assms obtain c w where "kw = c # w" by (cases kw) (auto simp: bare_word_def)
  with assms show "uci_line kw args \<noteq> []" and "\<not> is_space (hd (uci_line kw args))"
    by (simp_all add: uci_line_def bare_word_def)
  show "\<not> is_space (last (uci_line kw args))"
  proof (cases args rule: rev_cases)
    case Nil
    with assms show ?thesis
      by (auto simp: uci_line_def bare_word_def list_all_iff)
  next
    case (snoc as a)
    then show ?thesis by (simp add: uci_line_def uci_quote_def is_space_def)
  qed
qed

lemma read_uci_line:
  assumes "list_all is_space pre" and "bare_word kw" and "list_all uci_value args"
    and "list_all is_space ws"
  shows "splitUCI (trim_space (stripComment (pre @ uci_line kw args @ uci_tail ws cmt))) =
    Inr (kw # args)"
  using assms by (simp add: stripComment_line trim_space_line uci_line_ends splitUCI_line)

text \<open>
  A line written in the format of \<open>uci export\<close>, with any indentation, any trailing blanks
  and any comment, is read back as its keyword and exactly its values: blanks, hash signs,
  double quotes and backslashes inside single-quoted values are kept.
\<close>

lemma uci_line_roundtrip:
  assumes "list_all is_space pre" and "bare_word kw" and "list_all uci_value args"
    and "list_all is_space ws"
  shows "parse_lines n secs ((pre @ uci_line kw args @ uci_tail ws cmt) # rest) =
    bind_err (directive n secs (kw # args)) (\<lambda>secs'. parse_lines (Suc n) secs' rest)"
proof -
  have "trim_space (stripComment (pre @ uci_line kw args @ uci_tail ws cmt)) \<noteq> []"
    using assms by (simp add: stripComment_line trim_space_line uci_line_ends)
  with read_uci_line [OF assms] show ?thesis
    by (auto simp: Let_def bind_err_def split: sum.splits)
qed

lemma uci_line_roundtrip_witness:
  "parse_lines 1 [] [CHR 0x09 # uci_line ''config'' [''main'', ''a # b''] @ uci_tail ''  '' (Some ''note'')] =
   Inr [\<lparr>sec_kind = ''main'', sec_name = ''a # b'', sec_options = Map.empty,
         sec_lists = (\<lambda>_. []), sec_line = 1\<rparr>]"
  using uci_line_roundtrip [of "[CHR 0x09]" "''config''" "[''main'', ''a # b'']" "''  ''" 1 "[]" "Some ''note''" "[]"]
  by (simp add: bare_word_def uci_value_def is_space_def directive_def)

section \<open>Endpoints identify an upstream's address and port\<close>

text \<open>
  Two upstreams with the same endpoint string have the same address and the same port,
  for every port of Go's \<open>int\<close>, IPv6 addresses included; comparing endpoints (as reload does)
  compares the addressed server.
\<close>

lemma Endpoint_injective:
  assumes "in_int64 (u_Port u)" and "in_int64 (u_Port v)" and "Endpoint u = Endpoint v"
  shows "u_Address u = u_Address v \<and> u_Port u = u_Port v"
  using assms join_host_port_inj [of "u_Address u" "itoa (u_Port u)" "u_Address v" "itoa (u_Port v)"]
    itoa_inj by (auto simp: Endpoint_def itoa_no_colon)

lemma Endpoint_injective_witness:
  "u_Address (sample_upstream ''x'' 1 ''::1'') = u_Address (sample_upstream ''y'' 2 ''::1'')"
  using Endpoint_injective [of "sample_upstream ''x'' 1 ''::1''" "sample_upstream ''y'' 2 ''::1''"]
  by (simp add: sample_upstream_def Endpoint_def in_int64_def min_int64_def max_int64_def)

section \<open>Timeouts and the wrap-around of durations\<close>

lemma applyMain_durations:
  assumes "applyMain cfg s = Inr cfg'"
  shows "\<exists>a r h. intOption s ''attempt_timeout_ms'' (go_div (c_AttemptTimeout cfg) millisecond) = Inr a \<and>
    intOption s ''request_timeout_ms'' (go_div (c_RequestTimeout cfg) millisecond) = Inr r \<and>
    intOption s ''health_interval_s'' (go_div (c_HealthInterval cfg) second) = Inr h \<and>
    c_AttemptTimeout cfg' = wrap64 (a * millisecond) \<and>
    c_RequestTimeout cfg' = wrap64 (r * millisecond) \<and>
    c_HealthInterval cfg' = wrap64 (h * second)"
  using assms by (auto simp: applyMain_def Let_def)

text \<open>
  A timeout written in the file is the timeout in force, in nanoseconds, as long as it is
  at most 9223372036854 milliseconds (about 292 years): below that bound the multiplication
  does not leave the 64-bit range.
\<close>

lemma attempt_timeout_exact:
  assumes "applyMain cfg s = Inr cfg'" and "sec_options s ''attempt_timeout_ms'' = Some (itoa ms)"
    and "0 \<le> ms" and "ms \<le> 9223372036854"
  shows "c_AttemptTimeout cfg' = ms * millisecond"
proof -
  have "in_int64 ms" and "in_int64 (ms * millisecond)"
    using assms(3,4) by (simp_all add: in_int64_def min_int64_def max_int64_def millisecond_def)
  with assms(2) applyMain_durations [OF assms(1)] show ?thesis
    by (auto simp: intOption_def atoi_itoa)
qed

definition main_section :: "string \<Rightarrow> string \<Rightarrow> uci_section" where
  "main_section k v =
     \<lparr>sec_kind = ''main'', sec_name = ''main'', sec_options = [k \<mapsto> v],
      sec_lists = (\<lambda>_. []), sec_line = 1\<rparr>"

lemma attempt_timeout_exact_witness:
  "\<exists>cfg. applyMain Defaults (main_section ''attempt_timeout_ms'' (itoa 100)) = Inr cfg \<and>
     c_AttemptTimeout cfg = 100 * millisecond"
proof -
  have i: "atoi (itoa 100) = Some 100"
    by (rule atoi_itoa) (simp add: in_int64_def min_int64_def max_int64_def)
  obtain cfg where c: "applyMain Defaults (main_section ''attempt_timeout_ms'' (itoa 100)) = Inr cfg"
    by (simp add: applyMain_def main_section_def boolOption_def stringOption_def intOption_def i Let_def)
  with attempt_timeout_exact [OF c, of 100] show ?thesis
    by (simp add: main_section_def)
qed

lemma apply_sections_attempt:
  assumes "apply_sections m cfg ss = Inr cfg'"
  shows "(m \<longrightarrow> (\<forall>s \<in> set ss. sec_kind s \<noteq> ''main'') \<and> c_AttemptTimeout cfg' = c_AttemptTimeout cfg) \<and>
    (\<forall>s \<in> set ss. \<forall>raw ms. sec_kind s = ''main'' \<and> sec_options s ''attempt_timeout_ms'' = Some raw \<and> atoi raw = Some ms \<longrightarrow>
      c_AttemptTimeout cfg' = wrap64 (ms * millisecond))"
  using assms
proof (induction m cfg ss rule: apply_sections.induct)
  case (1 m cfg)
  then show ?case by (auto split: if_splits)
next
  case (2 m cfg s ss)
  show ?case
  proof (cases "sec_kind s = ''main''")
    case True
    with 2(3) obtain c where c: "\<not> m" "applyMain cfg s = Inr c" "apply_sections True c ss = Inr cfg'"
      by (auto split: if_splits sum.splits)
    have "c_AttemptTimeout c = wrap64 (ms * millisecond)"
      if "sec_options s ''attempt_timeout_ms'' = Some raw" "atoi raw = Some ms" for raw ms
    proof -
      from applyMain_durations [OF c(2)] obtain a where
        "intOption s ''attempt_timeout_ms'' (go_div (c_AttemptTimeout cfg) millisecond) = Inr a"
        "c_AttemptTimeout c = wrap64 (a * millisecond)" by blast
      with that show ?thesis by (simp add: intOption_def)
    qed
    with 2(1) [OF True c(1) c(2) c(3)] c(1) True show ?thesis by auto
  next
    case False
    with 2(3) obtain u where u: "sec_kind s = ''upstream''" "parseUpstream s = Inr u"
      "apply_sections m (if u_Enabled u then cfg\<lparr>c_Upstreams := c_Upstreams cfg @ [u]\<rparr> else cfg) ss = Inr cfg'"
      by (auto split: if_splits sum.splits)
    from 2(2) [OF False u(1) u(2) u(3)] False show ?thesis by auto
  qed
qed

text \<open>
  C39: the attempt timeout in force is the one in the file only up to about 292 years; past that the
  product wraps, and the validator cannot see it. For every file that is accepted and whose main
  section asks for attempts of \<open>ms\<close> milliseconds, the timeout in force is the product reduced to 64
  bits. It is positive, and it is the requested one exactly if \<open>ms\<close> is between 1 and
  9223372036854; a larger \<open>ms\<close> is accepted with a shorter timeout.
\<close>

theorem attempt_timeout_wraps:
  assumes "Parse src None = Inr cfg" and "parse_lines 1 [] (fst (scan_lines src)) = Inr secs"
    and "s \<in> set secs" and "sec_kind s = ''main''"
    and "sec_options s ''attempt_timeout_ms'' = Some raw" and "atoi raw = Some ms"
  shows "c_AttemptTimeout cfg = wrap64 (ms * millisecond) \<and> 0 < c_AttemptTimeout cfg \<and>
    (c_AttemptTimeout cfg = ms * millisecond \<longleftrightarrow> 0 < ms \<and> ms \<le> 9223372036854) \<and>
    (9223372036854 < ms \<longrightarrow> c_AttemptTimeout cfg < ms * millisecond)"
proof -
  from assms(1) obtain cfg0 where cfg0: "apply_sections False Defaults secs = Inr cfg0"
    and cfg: "cfg = cfg0\<lparr>c_Upstreams := sort_upstreams (c_Upstreams cfg0)\<rparr>"
    by (rule Parse_InrE) (use assms(2) in simp)
  have w: "c_AttemptTimeout cfg = wrap64 (ms * millisecond)"
    using apply_sections_attempt [OF cfg0] assms(3-6) by (auto simp: cfg)
  have pos: "0 < c_AttemptTimeout cfg" using Parse_upstreams(3) [OF assms(1)] by (simp add: valid_config_def)
  have "c_AttemptTimeout cfg \<le> max_int64" using wrap64_in_int64 [of "ms * millisecond"] by (simp add: w in_int64_def)
  moreover have max: "max_int64 = 9223372036854775807" by (simp add: max_int64_def)
  have "ms * millisecond \<le> max_int64 \<longleftrightarrow> ms \<le> 9223372036854"
    unfolding millisecond_def max by linarith
  moreover have "0 < ms \<and> ms \<le> 9223372036854 \<Longrightarrow> wrap64 (ms * millisecond) = ms * millisecond"
    by (simp add: in_int64_def min_int64_def max_int64_def millisecond_def)
  moreover have "0 < ms * millisecond \<longleftrightarrow> 0 < ms" by (simp add: millisecond_def)
  ultimately show ?thesis using w pos by auto
qed

text \<open>A file that asks for 584 years and gets under half a millisecond.\<close>

definition wrap_text :: string where
  "wrap_text = join [CHR 0x0A]
     (hd sample_lines # (''option attempt_timeout_ms '' @ uci_quote ''18446744073710'') # tl sample_lines)"

lemma attempt_timeout_wraps_witness:
  "\<exists>cfg. Parse wrap_text None = Inr cfg \<and> c_AttemptTimeout cfg = 448384 \<and>
     c_AttemptTimeout cfg < 18446744073710 * millisecond"
proof -
  have "\<not> isl (Parse wrap_text None)" by code_simp
  then obtain cfg where cfg: "Parse wrap_text None = Inr cfg" by (auto simp: isl_def elim: sum.exhaust_sel) (metis sum.exhaust)
  have "case parse_lines 1 [] (fst (scan_lines wrap_text)) of Inl e \<Rightarrow> False
    | Inr secs \<Rightarrow> secs \<noteq> [] \<and> sec_kind (hd secs) = ''main'' \<and>
        sec_options (hd secs) ''attempt_timeout_ms'' = Some ''18446744073710''" by code_simp
  then obtain secs where secs: "parse_lines 1 [] (fst (scan_lines wrap_text)) = Inr secs" "hd secs \<in> set secs"
    "sec_kind (hd secs) = ''main''" "sec_options (hd secs) ''attempt_timeout_ms'' = Some ''18446744073710''"
    by (auto split: sum.splits)
  have a: "atoi ''18446744073710'' = Some 18446744073710" by code_simp
  have "wrap64 (18446744073710 * millisecond) = 448384" by code_simp
  with attempt_timeout_wraps [OF cfg secs a] cfg show ?thesis by simp
qed

section \<open>A comment behind an escaped quote\<close>

lemma strip_from_open: "CHR 0x27 \<notin> set t \<Longrightarrow> strip_from (Some (CHR 0x27)) t = t"
  by (induction t) auto

lemma split_from_unquoted:
  "list_all (\<lambda>c. c \<notin> {CHR 0x27, CHR 0x22, CHR 0x5C}) t \<Longrightarrow> flds \<noteq> [] \<Longrightarrow>
   \<exists>gs. split_from flds b None False t = Inr (flds @ gs) \<and> (b \<noteq> [] \<longrightarrow> gs \<noteq> [])"
proof (induction t arbitrary: flds b)
  case Nil
  then show ?case by (auto simp: flush_def)
next
  case (Cons c t)
  show ?case
  proof (cases "c = CHR '' '' \<or> c = CHR 0x09")
    case True
    have "flush flds b \<noteq> []" using Cons.prems(2) by (simp add: flush_def)
    with Cons.IH [of "flush flds b" "[]"] Cons.prems(1) obtain gs where
      "split_from (flush flds b) [] None False t = Inr (flush flds b @ gs)" by auto
    with True show ?thesis by (cases "b = []") (auto simp: flush_def)
  next
    case False
    with Cons.IH [of flds "b @ [c]"] Cons.prems show ?thesis by auto
  qed
qed

lemma split_trailing_blanks:
  assumes "\<not> is_space c"
  shows "\<exists>y ws. t = y @ ws \<and> list_all is_space ws \<and> \<not> is_space (last (c # y))"
proof (induction t rule: rev_induct)
  case Nil
  with assms show ?case by simp
next
  case (snoc x t)
  then obtain y ws where "t = y @ ws" "list_all is_space ws" "\<not> is_space (last (c # y))" by blast
  then show ?case
  proof (cases "is_space x")
    case True
    with \<open>t = y @ ws\<close> \<open>list_all is_space ws\<close> \<open>\<not> is_space (last (c # y))\<close> show ?thesis
      by (intro exI [of _ y] exI [of _ "ws @ [x]"]) simp
  next
    case False
    then show ?thesis by (intro exI [of _ "t @ [x]"] exI [of _ "[]"]) simp
  qed
qed

definition option_line :: "string \<Rightarrow> string \<Rightarrow> string" where
  "option_line k v = ''option '' @ k @ '' '' @ v"

lemma bare_word_chars:
  assumes "bare_word w"
  shows "list_all (\<lambda>c. \<not> is_space c \<and> c \<notin> {CHR 0x27, CHR 0x22, CHR 0x5C, CHR ''#''}) w"
    and "list_all (\<lambda>c. c \<notin> {CHR 0x27, CHR 0x22, CHR ''#''}) w" and "CHR 0x27 \<notin> set w"
    and "w \<noteq> []" and "\<not> is_space (last w)"
  using assms by (auto simp: bare_word_def list_all_iff)

lemma splitUCI_option_line:
  assumes "bare_word k" and "bare_word v1"
  shows "splitUCI (option_line k (v1 @ rest)) = split_from [''option'', k] v1 None False rest"
  using bare_word_chars [OF assms(1)] bare_word_chars [OF assms(2)]
  by (simp add: splitUCI_def option_line_def flush_def split_from_word)

lemma stripComment_option_line:
  assumes "bare_word k" and "list_all (\<lambda>c. c \<notin> {CHR 0x27, CHR 0x22, CHR ''#''}) v"
  shows "stripComment (option_line k (v @ rest)) = option_line k v @ strip_from None rest"
proof -
  have "list_all (\<lambda>c. c \<notin> {CHR 0x27, CHR 0x22, CHR ''#''}) (option_line k v)"
    using bare_word_chars(2) [OF assms(1)] assms(2) by (simp add: option_line_def)
  from strip_from_plain [OF this, of rest] show ?thesis by (simp add: stripComment_def option_line_def)
qed

lemma trim_space_option_line:
  assumes "v \<noteq> []" and "\<not> is_space (last v)" and "list_all is_space ws"
  shows "trim_space (option_line k v @ ws) = option_line k v"
  using trim_space_line [of "[]" ws "option_line k v"] assms by (simp add: option_line_def is_space_def)

lemma read_option_line:
  assumes "trim_space (stripComment line) \<noteq> []" and "splitUCI (trim_space (stripComment line)) = Inr flds"
  shows "parse_lines n secs (line # rest) =
    bind_err (directive n secs flds) (\<lambda>secs'. parse_lines (Suc n) secs' rest)"
  using assms by (auto simp: Let_def bind_err_def split: sum.splits)

lemma directive_option:
  "secs \<noteq> [] \<Longrightarrow> directive n secs [''option'', k, v] = Inr (butlast secs @ [put_option (last secs) k v])"
  "secs \<noteq> [] \<Longrightarrow> gs \<noteq> [] \<Longrightarrow> directive n secs (''option'' # k # v # gs) = Inl (LineError n (ExpectsKeyAndValue ''option''))"
  by (simp_all add: directive_def)

text \<open>An escaped quote in the value: \<open>splitUCI\<close> takes it as a character, \<open>stripComment\<close> opens a quote there.\<close>

lemma escaped_option_line:
  assumes "bare_word k" and "bare_word v1" and "CHR 0x27 \<notin> set rest"
  shows "stripComment (option_line k (v1 @ [CHR 0x5C, CHR 0x27] @ rest)) = option_line k (v1 @ [CHR 0x5C, CHR 0x27] @ rest)"
    and "splitUCI (option_line k (v1 @ [CHR 0x5C, CHR 0x27] @ rest)) =
      split_from [''option'', k] (v1 @ [CHR 0x27]) None False rest"
  using stripComment_option_line [OF assms(1), of "v1 @ [CHR 0x5C]" "CHR 0x27 # rest"] bare_word_chars(2) [OF assms(2)]
    strip_from_open [OF assms(3)] splitUCI_option_line [OF assms(1,2), of "[CHR 0x5C, CHR 0x27] @ rest"]
  by (simp_all add: option_line_def)

text \<open>
  C40: \<open>stripComment\<close> and \<open>splitUCI\<close> disagree on a backslash. For all words \<open>k\<close>, \<open>v1\<close>, \<open>v2\<close> without
  blanks, quotes, backslashes and hash signs, and any comment text without quotes and backslashes:
  the line \<open>option k v1\'v2\<close> is read as the option \<open>k\<close> with the value \<open>v1'v2\<close>; a comment behind an
  unquoted value without the escape is ignored; but the same comment behind \<open>v1\'v2\<close> is taken for
  further fields, and the whole file is refused.
\<close>

theorem escaped_quote_keeps_comment:
  assumes "bare_word k" and "bare_word v1" and "bare_word v2" and "secs \<noteq> []"
    and "list_all (\<lambda>c. c \<notin> {CHR 0x27, CHR 0x22, CHR 0x5C}) cmt"
  shows "parse_lines n secs (option_line k (v1 @ [CHR 0x5C, CHR 0x27] @ v2) # rest) =
      parse_lines (Suc n) (butlast secs @ [put_option (last secs) k (v1 @ [CHR 0x27] @ v2)]) rest \<and>
    parse_lines n secs (option_line k (v1 @ '' #'' @ cmt) # rest) =
      parse_lines (Suc n) (butlast secs @ [put_option (last secs) k v1]) rest \<and>
    parse_lines n secs (option_line k (v1 @ [CHR 0x5C, CHR 0x27] @ v2 @ '' #'' @ cmt) # rest) =
      Inl (LineError n (ExpectsKeyAndValue ''option''))"
proof (intro conjI)
  have ne: "option_line k v \<noteq> []" for v by (simp add: option_line_def)
  note v1 = bare_word_chars [OF assms(2)] and v2 = bare_word_chars [OF assms(3)]
  let ?esc = "[CHR 0x5C, CHR 0x27]"
  show "parse_lines n secs (option_line k (v1 @ ?esc @ v2) # rest) =
      parse_lines (Suc n) (butlast secs @ [put_option (last secs) k (v1 @ [CHR 0x27] @ v2)]) rest"
  proof -
    let ?l = "option_line k (v1 @ ?esc @ v2)"
    have t: "trim_space (stripComment ?l) = ?l"
      using escaped_option_line(1) [OF assms(1,2) v2(3)] trim_space_option_line [of "v1 @ ?esc @ v2" "[]" k] v2 by simp
    have "splitUCI ?l = Inr [''option'', k, v1 @ [CHR 0x27] @ v2]"
      using escaped_option_line(2) [OF assms(1,2) v2(3)] split_from_word [OF v2(1), where rest = "[]"] by (simp add: flush_def)
    with read_option_line [of ?l _ n secs rest] t ne show ?thesis by (simp add: directive_option(1) [OF assms(4)])
  qed
  show "parse_lines n secs (option_line k (v1 @ '' #'' @ cmt) # rest) =
      parse_lines (Suc n) (butlast secs @ [put_option (last secs) k v1]) rest"
  proof -
    let ?l = "option_line k (v1 @ '' #'' @ cmt)"
    have "trim_space (stripComment ?l) = option_line k v1"
      using stripComment_option_line [OF assms(1) v1(2), of "'' #'' @ cmt"] trim_space_option_line [OF v1(4,5), of "'' ''" k] by simp
    moreover have "splitUCI (option_line k v1) = Inr [''option'', k, v1]"
      using splitUCI_option_line [OF assms(1,2), of "[]"] v1(4) by (simp add: flush_def)
    ultimately show ?thesis using read_option_line [of ?l _ n secs rest] ne by (simp add: directive_option(1) [OF assms(4)])
  qed
  show "parse_lines n secs (option_line k (v1 @ ?esc @ v2 @ '' #'' @ cmt) # rest) =
      Inl (LineError n (ExpectsKeyAndValue ''option''))"
  proof -
    let ?l = "option_line k (v1 @ ?esc @ v2 @ '' #'' @ cmt)"
    have "\<not> is_space (CHR ''#'')" by (simp add: is_space_def)
    from split_trailing_blanks [OF this] obtain y ws where
      y: "cmt = y @ ws" "list_all is_space ws" "\<not> is_space (last (CHR ''#'' # y))" by blast
    let ?k = "option_line k (v1 @ ?esc @ v2 @ '' #'' @ y)"
    have q: "CHR 0x27 \<notin> set (v2 @ '' #'' @ y)" "CHR 0x27 \<notin> set (v2 @ '' #'' @ cmt)"
      using v2(3) assms(5) y(1) by (auto simp: list_all_iff)
    have t: "trim_space (stripComment ?l) = ?k"
      using escaped_option_line(1) [OF assms(1,2) q(2)] trim_space_option_line [OF _ _ y(2), of "v1 @ ?esc @ v2 @ '' #'' @ y" k] y(1,3)
      by (simp add: option_line_def)
    have "list_all (\<lambda>c. c \<notin> {CHR 0x27, CHR 0x22, CHR 0x5C}) y" using assms(5) y(1) by simp
    from split_from_unquoted [OF this, of "[''option'', k, v1 @ [CHR 0x27] @ v2]" "''#''"]
    obtain gs where gs: "split_from [''option'', k, v1 @ [CHR 0x27] @ v2] ''#'' None False y =
        Inr ([''option'', k, v1 @ [CHR 0x27] @ v2] @ gs)" "gs \<noteq> []" by auto
    have "splitUCI ?k = Inr (''option'' # k # (v1 @ [CHR 0x27] @ v2) # gs)"
      using escaped_option_line(2) [OF assms(1,2) q(1)] split_from_word [OF v2(1), of "[''option'', k]"] gs(1)
      by (simp add: flush_def)
    with read_option_line [of ?l _ n secs rest] ne t show ?thesis
      by (simp add: bind_err_def directive_option(2) [OF assms(4) gs(2)])
  qed
qed

lemma escaped_quote_keeps_comment_witness:
  "parse_lines 2 [main_section ''x'' ''y''] [''option a b'' @ [CHR 0x5C, CHR 0x27] @ ''c # d e''] =
     Inl (LineError 2 (ExpectsKeyAndValue ''option''))"
  using escaped_quote_keeps_comment [of "''a''" "''b''" "''c''" "[main_section ''x'' ''y'']" "'' d e''" 2 "[]"]
  by (simp add: bare_word_def is_space_def option_line_def)

end
