(* ===== verification/Failover.thy ===== *)
theory Failover
  imports Config
begin

text \<open>
  \<open>internal/failover/state.go\<close>: the health state machine of the upstreams and the manager that
  owns it. The manager keeps its entries behind pointers, reached both through the sorted
  slice \<open>entries\<close> and the map \<open>byName\<close>, so the model has an explicit store: \<open>m_heap\<close> holds the
  entries in allocation order, \<open>m_entries\<close> and \<open>m_byName\<close> hold positions in it. Each mutex of the
  source makes one of the updates below atomic; log output is collected in \<open>m_log\<close>.
\<close>

section \<open>The data\<close>

datatype State = Unknown | Healthy | Suspect | Down | Recovering

fun state_text :: "State \<Rightarrow> string" where
  "state_text Unknown = ''unknown''"
| "state_text Healthy = ''healthy''"
| "state_text Suspect = ''suspect''"
| "state_text Down = ''down''"
| "state_text Recovering = ''recovering''"

text \<open>
  In the source a state is a string, so a document read from the status socket can hold any text
  there, while the manager only ever uses the five constants: the record is polymorphic in it. It
  is polymorphic in the time stamps too, which carry a zone once they have been read from a text.
\<close>

record ('st, 'tm) snapshot =
  s_Name :: string
  s_Priority :: int
  s_Protocol :: string
  s_Endpoint :: string
  s_State :: 'st
  s_ConsecutiveFailures :: int
  s_ConsecutiveSuccess :: int
  s_LastSuccess :: 'tm
  s_LastFailure :: 'tm
  s_LastError :: string
  s_LastLatency :: duration

type_synonym Snapshot = "(State, time) snapshot"

record entry =
  e_config :: Upstream
  e_snap :: Snapshot
  e_attempts :: chan

type_synonym ptr = nat

datatype log_event =
    LogFailureDetected string string State int string
  | LogUnavailable string string State int string
  | LogRecoveryDetected string string State int
  | LogRecovered string string State int
  | LogActiveChanged string string
  | LogEmergencyEnabled
  | LogEmergencyDisabled

record Manager =
  m_failThreshold :: int
  m_recoverThreshold :: int
  m_heap :: "entry list"
  m_entries :: "ptr list"
  m_byName :: "string \<rightharpoonup> ptr"
  m_logger :: bool
  m_lastActive :: string
  m_emergencyActive :: bool
  m_log :: "log_event list"

definition cfg_at :: "Manager \<Rightarrow> ptr \<Rightarrow> Upstream" where
  "cfg_at m p = e_config (m_heap m ! p)"

definition snap_at :: "Manager \<Rightarrow> ptr \<Rightarrow> Snapshot" where
  "snap_at m p = e_snap (m_heap m ! p)"

definition attempts_at :: "Manager \<Rightarrow> ptr \<Rightarrow> chan" where
  "attempts_at m p = e_attempts (m_heap m ! p)"

definition set_snap :: "Manager \<Rightarrow> ptr \<Rightarrow> Snapshot \<Rightarrow> Manager" where
  "set_snap m p s = m\<lparr>m_heap := (m_heap m)[p := (m_heap m ! p)\<lparr>e_snap := s\<rparr>]\<rparr>"

definition set_attempts :: "Manager \<Rightarrow> ptr \<Rightarrow> chan \<Rightarrow> Manager" where
  "set_attempts m p c = m\<lparr>m_heap := (m_heap m)[p := (m_heap m ! p)\<lparr>e_attempts := c\<rparr>]\<rparr>"

section \<open>Construction\<close>

definition max_attempts :: nat where
  "max_attempts = 16"

definition new_entry :: "Upstream \<Rightarrow> entry" where
  "new_entry u =
     \<lparr>e_config = u,
      e_snap =
        \<lparr>s_Name = u_Name u, s_Priority = u_Priority u, s_Protocol = u_Protocol u,
         s_Endpoint = Endpoint u, s_State = Unknown, s_ConsecutiveFailures = 0,
         s_ConsecutiveSuccess = 0, s_LastSuccess = 0, s_LastFailure = 0, s_LastError = [],
         s_LastLatency = 0\<rparr>,
      e_attempts = make_chan max_attempts\<rparr>"

text \<open>The loop of \<open>NewManager\<close>: allocate, append the pointer, index it by name.\<close>

fun add_entries :: "Manager \<Rightarrow> Upstream list \<Rightarrow> Manager" where
  "add_entries m [] = m"
| "add_entries m (u # us) =
     (let p = length (m_heap m) in
      add_entries (m\<lparr>m_heap := m_heap m @ [new_entry u],
                     m_entries := m_entries m @ [p],
                     m_byName := (m_byName m)(u_Name u \<mapsto> p)\<rparr>) us)"

definition NewManager :: "Upstream list \<Rightarrow> int \<Rightarrow> int \<Rightarrow> bool \<Rightarrow> Manager" where
  "NewManager upstreams failThreshold recoverThreshold logger =
     (let m = add_entries
            \<lparr>m_failThreshold = failThreshold, m_recoverThreshold = recoverThreshold,
             m_heap = [], m_entries = [], m_byName = Map.empty, m_logger = logger,
             m_lastActive = [], m_emergencyActive = False, m_log = []\<rparr> upstreams;
          m = m\<lparr>m_entries := sort_key (\<lambda>p. u_Priority (cfg_at m p)) (m_entries m)\<rparr>
      in case m_entries m of
           [] \<Rightarrow> m
         | p # _ \<Rightarrow> m\<lparr>m_lastActive := u_Name (cfg_at m p)\<rparr>)"

section \<open>Selection\<close>

definition eligible :: "State \<Rightarrow> bool" where
  "eligible st \<longleftrightarrow> st \<noteq> Down \<and> st \<noteq> Recovering"

text \<open>
  \<open>Candidates\<close> locks one entry at a time, so the states it sees may have been read at different
  moments: \<open>seen p\<close> is what it read for entry \<open>p\<close>. \<open>Candidates\<close> itself is the reading with nothing in
  between.
\<close>

definition candidates_seen :: "(ptr \<Rightarrow> State) \<Rightarrow> Manager \<Rightarrow> Upstream list \<times> bool" where
  "candidates_seen seen m =
     (let result = map (cfg_at m) (filter (\<lambda>p. eligible (seen p)) (m_entries m)) in
      if result \<noteq> [] then (result, False) else (map (cfg_at m) (m_entries m), True))"

definition Candidates :: "Manager \<Rightarrow> Upstream list \<times> bool" where
  "Candidates m = candidates_seen (\<lambda>p. s_State (snap_at m p)) m"

text \<open>\<open>Active\<close> is the name of the first candidate, whatever was read of the entries meanwhile.\<close>

definition active_seen :: "(ptr \<Rightarrow> State) \<Rightarrow> Manager \<Rightarrow> string" where
  "active_seen seen m = (case fst (candidates_seen seen m) of [] \<Rightarrow> [] | u # _ \<Rightarrow> u_Name u)"

definition Active :: "Manager \<Rightarrow> string" where
  "Active m = active_seen (\<lambda>p. s_State (snap_at m p)) m"

definition StateOf :: "Manager \<Rightarrow> string \<Rightarrow> State" where
  "StateOf m name = (case m_byName m name of None \<Rightarrow> Unknown | Some p \<Rightarrow> s_State (snap_at m p))"

text \<open>\<open>Snapshots\<close> also locks one entry at a time: \<open>seen p\<close> is the copy it took of entry \<open>p\<close>.\<close>

definition snapshots_seen :: "(ptr \<Rightarrow> Snapshot) \<Rightarrow> Manager \<Rightarrow> Snapshot list" where
  "snapshots_seen seen m = map seen (m_entries m)"

definition Snapshots :: "Manager \<Rightarrow> Snapshot list" where
  "Snapshots m = snapshots_seen (snap_at m) m"

lemma Active_eq: "Active m = (case fst (Candidates m) of [] \<Rightarrow> [] | u # _ \<Rightarrow> u_Name u)"
  by (simp add: Active_def active_seen_def Candidates_def)

lemma Snapshots_eq: "Snapshots m = map (snap_at m) (m_entries m)"
  by (simp add: Snapshots_def snapshots_seen_def)

section \<open>Logging\<close>

text \<open>What \<open>logActiveChange\<close> does, holding its mutex, with the active upstream it has computed.\<close>

definition announce :: "string \<Rightarrow> Manager \<Rightarrow> Manager" where
  "announce active m =
     (if active = [] \<or> active = m_lastActive m then m
      else m\<lparr>m_lastActive := active, m_log := m_log m @ [LogActiveChanged (m_lastActive m) active]\<rparr>)"

definition logActiveChange :: "Manager \<Rightarrow> Manager" where
  "logActiveChange m = announce (Active m) m"

definition transition_log :: "Snapshot \<Rightarrow> State \<Rightarrow> State \<Rightarrow> log_event list" where
  "transition_log s oldState newState =
     (case newState of
        Suspect \<Rightarrow> [LogFailureDetected (s_Name s) (s_Endpoint s) newState
                      (s_ConsecutiveFailures s) (s_LastError s)]
      | Down \<Rightarrow> [LogUnavailable (s_Name s) (s_Endpoint s) newState
                      (s_ConsecutiveFailures s) (s_LastError s)]
      | Recovering \<Rightarrow> [LogRecoveryDetected (s_Name s) (s_Endpoint s) newState (s_ConsecutiveSuccess s)]
      | Healthy \<Rightarrow>
          if oldState = Recovering \<or> oldState = Down
          then [LogRecovered (s_Name s) (s_Endpoint s) newState (s_ConsecutiveSuccess s)] else []
      | Unknown \<Rightarrow> [])"

definition logTransition :: "ptr \<Rightarrow> State \<Rightarrow> State \<Rightarrow> Manager \<Rightarrow> Manager" where
  "logTransition p oldState newState m =
     (if \<not> m_logger m \<or> oldState = newState then m
      else logActiveChange
             (m\<lparr>m_log := m_log m @ transition_log (snap_at m p) oldState newState\<rparr>))"

definition RecordSelectionMode :: "bool \<Rightarrow> Manager \<Rightarrow> Manager" where
  "RecordSelectionMode emergency m =
     (if \<not> m_logger m then m
      else if emergency = m_emergencyActive m then m
      else m\<lparr>m_emergencyActive := emergency,
             m_log := m_log m @ [if emergency then LogEmergencyEnabled else LogEmergencyDisabled]\<rparr>)"

section \<open>Recording evidence\<close>

text \<open>
  What \<open>RecordSuccess\<close> does to the snapshot under the entry's lock, and whether it goes on to log
  the transition. The counters are Go \<open>int\<close>s and wrap.
\<close>

definition success_update :: "int \<Rightarrow> bool \<Rightarrow> duration \<Rightarrow> time \<Rightarrow> Snapshot \<Rightarrow> Snapshot \<times> bool" where
  "success_update recoverThreshold probe latency now s0 =
     (let s = s0\<lparr>s_LastSuccess := now, s_LastLatency := latency, s_LastError := []\<rparr> in
      if s_State s = Down \<or> s_State s = Recovering then
        (if \<not> probe then (s, False)
         else
           let s = s\<lparr>s_ConsecutiveFailures := 0,
                     s_ConsecutiveSuccess := wrap64 (s_ConsecutiveSuccess s + 1)\<rparr> in
           (s\<lparr>s_State := (if s_ConsecutiveSuccess s \<ge> recoverThreshold then Healthy else Recovering)\<rparr>, True))
      else
        (s\<lparr>s_ConsecutiveFailures := 0,
           s_ConsecutiveSuccess := wrap64 (s_ConsecutiveSuccess s + 1),
           s_State := Healthy\<rparr>, True))"

text \<open>
  The two parts of recording evidence: the update under the entry's lock, which says which transition
  there is to log if any, and the logging after the lock is released. Done by one goroutine with
  nothing in between they are \<open>RecordSuccess\<close> and \<open>RecordFailure\<close>; the theory \<open>Logging\<close> interleaves them.
\<close>

definition success_locked ::
  "string \<Rightarrow> bool \<Rightarrow> duration \<Rightarrow> time \<Rightarrow> Manager \<Rightarrow> Manager \<times> (ptr \<times> State \<times> State) option" where
  "success_locked name probe latency now m =
     (case m_byName m name of
        None \<Rightarrow> (m, None)
      | Some p \<Rightarrow>
          let oldState = s_State (snap_at m p);
              (s, changed) = success_update (m_recoverThreshold m) probe latency now (snap_at m p)
          in (set_snap m p s, if changed then Some (p, oldState, s_State s) else None))"

definition log_after :: "Manager \<times> (ptr \<times> State \<times> State) option \<Rightarrow> Manager" where
  "log_after r =
     (case r of (m, None) \<Rightarrow> m | (m, Some (p, oldState, newState)) \<Rightarrow> logTransition p oldState newState m)"

definition RecordSuccess :: "string \<Rightarrow> bool \<Rightarrow> duration \<Rightarrow> time \<Rightarrow> Manager \<Rightarrow> Manager" where
  "RecordSuccess name probe latency now m = log_after (success_locked name probe latency now m)"

definition failure_update :: "int \<Rightarrow> string \<Rightarrow> time \<Rightarrow> Snapshot \<Rightarrow> Snapshot" where
  "failure_update failThreshold message now s0 =
     (let s = s0\<lparr>s_LastFailure := now, s_LastError := message, s_ConsecutiveSuccess := 0,
                 s_ConsecutiveFailures := wrap64 (s_ConsecutiveFailures s0 + 1)\<rparr> in
      if s_State s = Down \<or> s_State s = Recovering then s\<lparr>s_State := Down\<rparr>
      else if s_ConsecutiveFailures s \<ge> failThreshold then s\<lparr>s_State := Down\<rparr>
      else s\<lparr>s_State := Suspect\<rparr>)"

definition failure_locked ::
  "string \<Rightarrow> string \<Rightarrow> time \<Rightarrow> Manager \<Rightarrow> Manager \<times> (ptr \<times> State \<times> State) option" where
  "failure_locked name message now m =
     (case m_byName m name of
        None \<Rightarrow> (m, None)
      | Some p \<Rightarrow>
          let oldState = s_State (snap_at m p);
              s = failure_update (m_failThreshold m) message now (snap_at m p)
          in (set_snap m p s, Some (p, oldState, s_State s)))"

definition RecordFailure :: "string \<Rightarrow> string \<Rightarrow> time \<Rightarrow> Manager \<Rightarrow> Manager" where
  "RecordFailure name message now m = log_after (failure_locked name message now m)"

lemma RecordSuccess_eq:
  "RecordSuccess name probe latency now m =
     (case m_byName m name of
        None \<Rightarrow> m
      | Some p \<Rightarrow>
          let oldState = s_State (snap_at m p);
              (s, changed) = success_update (m_recoverThreshold m) probe latency now (snap_at m p);
              m' = set_snap m p s
          in if changed then logTransition p oldState (s_State s) m' else m')"
  by (simp add: RecordSuccess_def success_locked_def log_after_def Let_def split: option.split prod.split)

lemma RecordFailure_eq:
  "RecordFailure name message now m =
     (case m_byName m name of
        None \<Rightarrow> m
      | Some p \<Rightarrow>
          let oldState = s_State (snap_at m p);
              s = failure_update (m_failThreshold m) message now (snap_at m p)
          in logTransition p oldState (s_State s) (set_snap m p s))"
  by (simp add: RecordFailure_def failure_locked_def log_after_def Let_def split: option.split)

section \<open>Attempt slots\<close>

text \<open>
  A successful \<open>BeginAttempt\<close> returns a closure that receives from the entry's channel: the
  closure is the entry's pointer here, and calling it is \<open>release_attempt\<close>, which blocks
  (\<^const>\<open>None\<close>) on an empty channel.
\<close>

definition BeginAttempt :: "string \<Rightarrow> Manager \<Rightarrow> (Manager \<times> ptr) option" where
  "BeginAttempt name m =
     (case m_byName m name of
        None \<Rightarrow> None
      | Some p \<Rightarrow>
          (case chan_send (attempts_at m p) of
             None \<Rightarrow> None
           | Some c \<Rightarrow> Some (set_attempts m p c, p)))"

definition release_attempt :: "ptr \<Rightarrow> Manager \<Rightarrow> Manager option" where
  "release_attempt p m =
     (case chan_recv (attempts_at m p) of None \<Rightarrow> None | Some c \<Rightarrow> Some (set_attempts m p c))"

datatype ctx_error = DeadlineExceeded | Canceled

datatype begin_result =
    BeginOk Manager ptr
  | BeginUnknown
  | BeginCtx ctx_error
  | BeginBlocked

text \<open>
  \<open>BeginAttemptContext\<close> selects between a send on the channel and the end of the context
  (\<open>done\<close> is its error once it has ended). With both ready Go picks one at random
  (\<open>pickSlot\<close>); with neither the caller waits.
\<close>

definition BeginAttemptContext ::
  "ctx_error option \<Rightarrow> bool \<Rightarrow> string \<Rightarrow> Manager \<Rightarrow> begin_result" where
  "BeginAttemptContext done pickSlot name m =
     (case m_byName m name of
        None \<Rightarrow> BeginUnknown
      | Some p \<Rightarrow>
          (case (chan_send (attempts_at m p), done) of
             (Some c, None) \<Rightarrow> BeginOk (set_attempts m p c) p
           | (Some c, Some e) \<Rightarrow> if pickSlot then BeginOk (set_attempts m p c) p else BeginCtx e
           | (None, Some e) \<Rightarrow> BeginCtx e
           | (None, None) \<Rightarrow> BeginBlocked))"

section \<open>Carrying state over a reload\<close>

definition adopt :: "(string \<rightharpoonup> Snapshot) \<Rightarrow> ptr \<Rightarrow> Manager \<Rightarrow> Manager" where
  "adopt byName p m =
     (case byName (u_Name (cfg_at m p)) of
        None \<Rightarrow> m
      | Some s \<Rightarrow>
          if s_Endpoint s \<noteq> s_Endpoint (snap_at m p) \<or> s_Protocol s \<noteq> s_Protocol (snap_at m p) then m
          else set_snap m p (s\<lparr>s_Priority := s_Priority (snap_at m p)\<rparr>))"

definition index_snapshots :: "Snapshot list \<Rightarrow> (string \<rightharpoonup> Snapshot)" where
  "index_snapshots previous = fold (\<lambda>s f. f(s_Name s \<mapsto> s)) previous Map.empty"

definition NewManagerFromSnapshots ::
  "Upstream list \<Rightarrow> int \<Rightarrow> int \<Rightarrow> bool \<Rightarrow> Snapshot list \<Rightarrow> Manager" where
  "NewManagerFromSnapshots upstreams failThreshold recoverThreshold logger previous =
     (let m0 = NewManager upstreams failThreshold recoverThreshold logger;
          m = fold (adopt (index_snapshots previous)) (m_entries m0) m0
      in m\<lparr>m_lastActive := Active m\<rparr>)"

section \<open>Frames: what the operations read and write\<close>

lemma set_snap_simps [simp, frame_simps]:
  "m_failThreshold (set_snap m p s) = m_failThreshold m"
  "m_recoverThreshold (set_snap m p s) = m_recoverThreshold m"
  "m_entries (set_snap m p s) = m_entries m"
  "m_byName (set_snap m p s) = m_byName m"
  "m_logger (set_snap m p s) = m_logger m"
  "length (m_heap (set_snap m p s)) = length (m_heap m)"
  by (simp_all add: set_snap_def)

lemma set_attempts_simps [simp, frame_simps]:
  "m_failThreshold (set_attempts m p c) = m_failThreshold m"
  "m_recoverThreshold (set_attempts m p c) = m_recoverThreshold m"
  "m_entries (set_attempts m p c) = m_entries m"
  "m_byName (set_attempts m p c) = m_byName m"
  "m_logger (set_attempts m p c) = m_logger m"
  "length (m_heap (set_attempts m p c)) = length (m_heap m)"
  by (simp_all add: set_attempts_def)

lemma cfg_at_set [simp, frame_simps]:
  "cfg_at (set_snap m p s) q = cfg_at m q" "cfg_at (set_attempts m p c) q = cfg_at m q"
  by (cases "p < length (m_heap m)"; cases "p = q";
      simp add: cfg_at_def set_snap_def set_attempts_def list_update_beyond)+

lemma snap_at_set [simp, frame_simps]:
  "p < length (m_heap m) \<Longrightarrow> snap_at (set_snap m p s) q = (if q = p then s else snap_at m q)"
  "snap_at (set_attempts m p c) q = snap_at m q"
  by (cases "p < length (m_heap m)"; cases "p = q";
      simp add: snap_at_def set_snap_def set_attempts_def list_update_beyond)+

lemma attempts_at_set [simp, frame_simps]:
  "attempts_at (set_snap m p s) q = attempts_at m q"
  "p < length (m_heap m) \<Longrightarrow> attempts_at (set_attempts m p c) q = (if q = p then c else attempts_at m q)"
  by (cases "p < length (m_heap m)"; cases "p = q";
      simp add: attempts_at_def set_snap_def set_attempts_def list_update_beyond)+

lemma logActiveChange_frame [simp]:
  "m_heap (logActiveChange m) = m_heap m" "m_entries (logActiveChange m) = m_entries m"
  "m_byName (logActiveChange m) = m_byName m" "m_logger (logActiveChange m) = m_logger m"
  "m_failThreshold (logActiveChange m) = m_failThreshold m"
  "m_recoverThreshold (logActiveChange m) = m_recoverThreshold m"
  by (simp_all add: logActiveChange_def announce_def Let_def)

lemma logTransition_frame [simp]:
  "m_heap (logTransition p a b m) = m_heap m" "m_entries (logTransition p a b m) = m_entries m"
  "m_byName (logTransition p a b m) = m_byName m" "m_logger (logTransition p a b m) = m_logger m"
  "m_failThreshold (logTransition p a b m) = m_failThreshold m"
  "m_recoverThreshold (logTransition p a b m) = m_recoverThreshold m"
  by (simp_all add: logTransition_def)

lemma RecordSelectionMode_frame [simp]:
  "m_heap (RecordSelectionMode e m) = m_heap m" "m_entries (RecordSelectionMode e m) = m_entries m"
  "m_byName (RecordSelectionMode e m) = m_byName m" "m_logger (RecordSelectionMode e m) = m_logger m"
  "m_failThreshold (RecordSelectionMode e m) = m_failThreshold m"
  "m_recoverThreshold (RecordSelectionMode e m) = m_recoverThreshold m"
  by (simp_all add: RecordSelectionMode_def)

text \<open>The heap alone decides what is read at a pointer.\<close>

lemma at_cong:
  assumes "m_heap m = m_heap m'"
  shows "cfg_at m p = cfg_at m' p" "snap_at m p = snap_at m' p" "attempts_at m p = attempts_at m' p"
  using assms by (simp_all add: cfg_at_def snap_at_def attempts_at_def)

lemmas log_at [simp] =
  at_cong [OF logActiveChange_frame(1)] at_cong [OF logTransition_frame(1)]
  at_cong [OF RecordSelectionMode_frame(1)]

lemma RecordSuccess_frame [simp]:
  "m_entries (RecordSuccess n pr l t m) = m_entries m" "m_byName (RecordSuccess n pr l t m) = m_byName m"
  "m_logger (RecordSuccess n pr l t m) = m_logger m"
  "m_failThreshold (RecordSuccess n pr l t m) = m_failThreshold m"
  "m_recoverThreshold (RecordSuccess n pr l t m) = m_recoverThreshold m"
  "length (m_heap (RecordSuccess n pr l t m)) = length (m_heap m)"
  "cfg_at (RecordSuccess n pr l t m) q = cfg_at m q"
  "attempts_at (RecordSuccess n pr l t m) q = attempts_at m q"
  by (simp_all add: RecordSuccess_eq Let_def split: option.split prod.split)

lemma RecordFailure_frame [simp]:
  "m_entries (RecordFailure n msg t m) = m_entries m" "m_byName (RecordFailure n msg t m) = m_byName m"
  "m_logger (RecordFailure n msg t m) = m_logger m"
  "m_failThreshold (RecordFailure n msg t m) = m_failThreshold m"
  "m_recoverThreshold (RecordFailure n msg t m) = m_recoverThreshold m"
  "length (m_heap (RecordFailure n msg t m)) = length (m_heap m)"
  "cfg_at (RecordFailure n msg t m) q = cfg_at m q"
  "attempts_at (RecordFailure n msg t m) q = attempts_at m q"
  by (simp_all add: RecordFailure_eq Let_def split: option.split)

text \<open>What recording does to the snapshot behind a pointer: only the named entry changes.\<close>

lemma RecordSuccess_snap:
  assumes "m_byName m n = Some p" and "p < length (m_heap m)"
  shows "snap_at (RecordSuccess n pr l t m) q =
    (if q = p then fst (success_update (m_recoverThreshold m) pr l t (snap_at m p)) else snap_at m q)"
  using assms by (simp add: RecordSuccess_eq Let_def split: prod.split)

lemma RecordFailure_snap:
  assumes "m_byName m n = Some p" and "p < length (m_heap m)"
  shows "snap_at (RecordFailure n msg t m) q =
    (if q = p then failure_update (m_failThreshold m) msg t (snap_at m p) else snap_at m q)"
  using assms by (simp add: RecordFailure_eq Let_def)

lemma Record_unknown:
  assumes "m_byName m n = None"
  shows "RecordSuccess n pr l t m = m" and "RecordFailure n msg t m = m"
  using assms by (simp_all add: RecordSuccess_eq RecordFailure_eq)

section \<open>The counters and the state agree\<close>

text \<open>
  What every snapshot satisfies, for a bound \<open>B\<close> on the failures of a suspect upstream and a bound \<open>C\<close>
  on the successes of a recovering one: unknown upstreams have seen nothing, healthy ones
  have no failure pending, and so on. \<open>B\<close> and \<open>C\<close> are the thresholds until a reload changes them.
\<close>

definition snap_ok :: "int \<Rightarrow> int \<Rightarrow> Snapshot \<Rightarrow> bool" where
  "snap_ok B C s \<longleftrightarrow>
     (case s_State s of
        Unknown \<Rightarrow> s_ConsecutiveFailures s = 0 \<and> s_ConsecutiveSuccess s = 0
      | Healthy \<Rightarrow> s_ConsecutiveFailures s = 0
      | Suspect \<Rightarrow> 1 \<le> s_ConsecutiveFailures s \<and> s_ConsecutiveFailures s < B \<and> s_ConsecutiveSuccess s = 0
      | Down \<Rightarrow> s_ConsecutiveSuccess s = 0
      | Recovering \<Rightarrow> s_ConsecutiveFailures s = 0 \<and> 1 \<le> s_ConsecutiveSuccess s \<and> s_ConsecutiveSuccess s < C)"

lemma snap_ok_mono: "snap_ok B C s \<Longrightarrow> B \<le> B' \<Longrightarrow> C \<le> C' \<Longrightarrow> snap_ok B' C' s"
  by (auto simp: snap_ok_def split: State.splits)

lemma wrap64_incr [simp]: "0 \<le> x \<Longrightarrow> x < max_int64 \<Longrightarrow> wrap64 (x + 1) = x + 1"
  by (rule wrap64_id) (simp add: in_int64_def min_int64_def)

lemma wrap64_one [simp]: "wrap64 1 = 1"
  by (rule wrap64_id) (simp add: in_int64_def min_int64_def max_int64_def)

lemma snap_ok_failure:
  assumes "snap_ok B C s" and "ft \<le> B" and "B \<le> max_int64" and "C \<le> max_int64"
  shows "snap_ok B C (failure_update ft msg t s)"
  using assms by (cases "s_State s") (auto simp: snap_ok_def failure_update_def Let_def)

lemma snap_ok_success:
  assumes "snap_ok B C s" and "rt \<le> C" and "B \<le> max_int64" and "C \<le> max_int64"
  shows "snap_ok B C (fst (success_update rt pr l t s))"
  using assms by (cases "s_State s") (auto simp: snap_ok_def success_update_def Let_def)

lemma update_identity:
  "s_Name (failure_update ft msg t s) = s_Name s" "s_Priority (failure_update ft msg t s) = s_Priority s"
  "s_Protocol (failure_update ft msg t s) = s_Protocol s" "s_Endpoint (failure_update ft msg t s) = s_Endpoint s"
  "s_Name (fst (success_update rt pr l t s)) = s_Name s"
  "s_Priority (fst (success_update rt pr l t s)) = s_Priority s"
  "s_Protocol (fst (success_update rt pr l t s)) = s_Protocol s"
  "s_Endpoint (fst (success_update rt pr l t s)) = s_Endpoint s"
  by (simp_all add: failure_update_def success_update_def Let_def)

section \<open>Well-formed managers\<close>

definition snap_of :: "Upstream \<Rightarrow> Snapshot \<Rightarrow> bool" where
  "snap_of u s \<longleftrightarrow> s_Name s = u_Name u \<and> s_Priority s = u_Priority u \<and>
     s_Protocol s = u_Protocol u \<and> s_Endpoint s = Endpoint u"

definition entry_ok :: "int \<Rightarrow> int \<Rightarrow> Manager \<Rightarrow> ptr \<Rightarrow> bool" where
  "entry_ok B C m p \<longleftrightarrow> snap_of (cfg_at m p) (snap_at m p) \<and> snap_ok B C (snap_at m p) \<and>
     ch_cap (attempts_at m p) = max_attempts \<and> ch_len (attempts_at m p) \<le> max_attempts"

text \<open>
  The slice \<open>entries\<close> lists every allocated entry once, in priority order, and \<open>byName\<close> finds each
  entry under its own name and nothing else.
\<close>

definition mgr_shape :: "Manager \<Rightarrow> bool" where
  "mgr_shape m \<longleftrightarrow>
     distinct (m_entries m) \<and> set (m_entries m) = {..<length (m_heap m)} \<and>
     sorted (map (\<lambda>p. u_Priority (cfg_at m p)) (m_entries m)) \<and>
     (\<forall>n p. m_byName m n = Some p \<longleftrightarrow> p < length (m_heap m) \<and> u_Name (cfg_at m p) = n)"

definition mgr_inv :: "int \<Rightarrow> int \<Rightarrow> Manager \<Rightarrow> bool" where
  "mgr_inv B C m \<longleftrightarrow> mgr_shape m \<and> (\<forall>p < length (m_heap m). entry_ok B C m p) \<and>
     m_failThreshold m \<le> B \<and> B \<le> max_int64 \<and> m_recoverThreshold m \<le> C \<and> C \<le> max_int64"

lemma mgr_shape_byName:
  "mgr_shape m \<Longrightarrow> m_byName m n = Some p \<Longrightarrow> p < length (m_heap m) \<and> u_Name (cfg_at m p) = n"
  by (simp add: mgr_shape_def)

lemma mgr_inv_byName:
  "mgr_inv B C m \<Longrightarrow> m_byName m n = Some p \<Longrightarrow> p < length (m_heap m) \<and> u_Name (cfg_at m p) = n"
  by (simp add: mgr_inv_def mgr_shape_byName)

lemma mgr_inv_entry: "mgr_inv B C m \<Longrightarrow> p < length (m_heap m) \<Longrightarrow> entry_ok B C m p"
  by (simp add: mgr_inv_def)

text \<open>An operation that keeps the skeleton and leaves every entry well-formed keeps the invariant.\<close>

lemma mgr_inv_step:
  assumes "mgr_inv B C m"
    and "m_entries m' = m_entries m" "m_byName m' = m_byName m"
    and "length (m_heap m') = length (m_heap m)" "\<And>p. cfg_at m' p = cfg_at m p"
    and "m_failThreshold m' = m_failThreshold m" "m_recoverThreshold m' = m_recoverThreshold m"
    and "\<And>p. p < length (m_heap m) \<Longrightarrow> entry_ok B C m p \<Longrightarrow> entry_ok B C m' p"
  shows "mgr_inv B C m'"
  using assms by (simp add: mgr_inv_def mgr_shape_def)

lemma RecordSuccess_inv [wf_intros]:
  assumes "mgr_inv B C m"
  shows "mgr_inv B C (RecordSuccess n pr l t m)"
proof (cases "m_byName m n")
  case None
  with assms show ?thesis by (simp add: Record_unknown)
next
  case (Some p)
  with assms have p: "p < length (m_heap m)" by (simp add: mgr_inv_byName)
  have b: "m_recoverThreshold m \<le> C" "B \<le> max_int64" "C \<le> max_int64"
    using assms by (simp_all add: mgr_inv_def)
  show ?thesis
    by (rule mgr_inv_step [OF assms])
      (auto simp: entry_ok_def snap_of_def RecordSuccess_snap [OF Some p] update_identity
        intro: snap_ok_success b)
qed

lemma RecordFailure_inv [wf_intros]:
  assumes "mgr_inv B C m"
  shows "mgr_inv B C (RecordFailure n msg t m)"
proof (cases "m_byName m n")
  case None
  with assms show ?thesis by (simp add: Record_unknown)
next
  case (Some p)
  with assms have p: "p < length (m_heap m)" by (simp add: mgr_inv_byName)
  have b: "m_failThreshold m \<le> B" "B \<le> max_int64" "C \<le> max_int64"
    using assms by (simp_all add: mgr_inv_def)
  show ?thesis
    by (rule mgr_inv_step [OF assms])
      (auto simp: entry_ok_def snap_of_def RecordFailure_snap [OF Some p] update_identity
        intro: snap_ok_failure b)
qed

lemma RecordSelectionMode_inv [wf_intros]: "mgr_inv B C m \<Longrightarrow> mgr_inv B C (RecordSelectionMode e m)"
  by (erule mgr_inv_step) (simp_all add: entry_ok_def)

lemma set_attempts_inv [wf_intros]:
  assumes "mgr_inv B C m" and "p < length (m_heap m)" and "ch_cap c = max_attempts" and "ch_len c \<le> max_attempts"
  shows "mgr_inv B C (set_attempts m p c)"
  using assms by (intro mgr_inv_step [OF assms(1)]) (auto simp: entry_ok_def)

lemma mgr_inv_chan:
  "mgr_inv B C m \<Longrightarrow> p < length (m_heap m) \<Longrightarrow>
   ch_cap (attempts_at m p) = max_attempts \<and> ch_len (attempts_at m p) \<le> max_attempts"
  by (drule (1) mgr_inv_entry) (simp add: entry_ok_def)

lemma BeginAttempt_inv [wf_intros]:
  assumes "mgr_inv B C m" and "BeginAttempt n m = Some (m', p)"
  shows "mgr_inv B C m'"
proof -
  from assms(2) obtain c where "m_byName m n = Some p" "chan_send (attempts_at m p) = Some c"
    "m' = set_attempts m p c"
    by (auto simp: BeginAttempt_def split: option.splits)
  with assms(1) mgr_inv_byName [OF assms(1)] mgr_inv_chan [OF assms(1), of p] show ?thesis
    by (auto simp: chan_send_SomeD intro!: set_attempts_inv)
qed

lemma BeginAttemptContext_inv [wf_intros]:
  assumes "mgr_inv B C m" and "BeginAttemptContext dn pick n m = BeginOk m' p"
  shows "mgr_inv B C m'"
proof -
  from assms(2) obtain c where "m_byName m n = Some p" "chan_send (attempts_at m p) = Some c"
    "m' = set_attempts m p c"
    by (auto simp: BeginAttemptContext_def split: option.splits if_splits)
  with assms(1) mgr_inv_byName [OF assms(1)] mgr_inv_chan [OF assms(1), of p] show ?thesis
    by (auto simp: chan_send_SomeD intro!: set_attempts_inv)
qed

lemma release_attempt_inv [wf_intros]:
  assumes "mgr_inv B C m" and "release_attempt p m = Some m'"
  shows "mgr_inv B C m'"
proof (cases "p < length (m_heap m)")
  case True
  with assms mgr_inv_chan [OF assms(1) True] show ?thesis
    by (auto simp: release_attempt_def chan_recv_SomeD split: option.splits intro!: set_attempts_inv)
next
  case False
  with assms show ?thesis
    by (auto simp: release_attempt_def set_attempts_def list_update_beyond split: option.splits)
qed

section \<open>New managers are well-formed\<close>

lemma add_entries_frame [simp]:
  "m_failThreshold (add_entries m us) = m_failThreshold m"
  "m_recoverThreshold (add_entries m us) = m_recoverThreshold m"
  "m_logger (add_entries m us) = m_logger m"
  "m_log (add_entries m us) = m_log m"
  "m_lastActive (add_entries m us) = m_lastActive m"
  "m_emergencyActive (add_entries m us) = m_emergencyActive m"
  "m_heap (add_entries m us) = m_heap m @ map new_entry us"
  "m_entries (add_entries m us) = m_entries m @ [length (m_heap m) ..< length (m_heap m) + length us]"
  by (induction us arbitrary: m) (simp_all add: Let_def upt_rec)

lemma add_entries_byName:
  assumes "distinct (map (\<lambda>e. u_Name (e_config e)) (m_heap m) @ map u_Name us)"
    and "\<forall>n p. m_byName m n = Some p \<longleftrightarrow> p < length (m_heap m) \<and> u_Name (cfg_at m p) = n"
  shows "m_byName (add_entries m us) n = Some p \<longleftrightarrow>
    p < length (m_heap m) + length us \<and> u_Name (cfg_at (add_entries m us) p) = n"
  using assms
proof (induction us arbitrary: m)
  case Nil
  then show ?case by simp
next
  case (Cons u us)
  let ?m = "m\<lparr>m_heap := m_heap m @ [new_entry u], m_entries := m_entries m @ [length (m_heap m)],
    m_byName := (m_byName m)(u_Name u \<mapsto> length (m_heap m))\<rparr>"
  have "\<forall>n p. m_byName ?m n = Some p \<longleftrightarrow> p < length (m_heap ?m) \<and> u_Name (cfg_at ?m p) = n"
    using Cons.prems
    by (auto simp: cfg_at_def nth_append new_entry_def less_Suc_eq image_iff) (metis nth_mem)
  moreover have "distinct (map (\<lambda>e. u_Name (e_config e)) (m_heap ?m) @ map u_Name us)"
    using Cons.prems(1) by (auto simp: new_entry_def)
  ultimately have "m_byName (add_entries ?m us) n = Some p \<longleftrightarrow>
    p < length (m_heap ?m) + length us \<and> u_Name (cfg_at (add_entries ?m us) p) = n"
    by (rule Cons.IH [rotated])
  then show ?case by (simp add: Let_def)
qed

lemma cfg_at_update [simp]:
  "cfg_at (m\<lparr>m_entries := es\<rparr>) p = cfg_at m p" "cfg_at (m\<lparr>m_lastActive := a\<rparr>) p = cfg_at m p"
  "snap_at (m\<lparr>m_entries := es\<rparr>) p = snap_at m p" "snap_at (m\<lparr>m_lastActive := a\<rparr>) p = snap_at m p"
  "attempts_at (m\<lparr>m_lastActive := a\<rparr>) p = attempts_at m p"
  by (simp_all add: cfg_at_def snap_at_def attempts_at_def)

lemma NewManager_frame [simp]:
  "m_heap (NewManager us ft rt lg) = map new_entry us"
  "m_failThreshold (NewManager us ft rt lg) = ft" "m_recoverThreshold (NewManager us ft rt lg) = rt"
  "m_logger (NewManager us ft rt lg) = lg"
  by (simp_all add: NewManager_def Let_def split: list.split)

lemma NewManager_at [simp]:
  assumes "p < length us"
  shows "cfg_at (NewManager us ft rt lg) p = us ! p"
    and "snap_at (NewManager us ft rt lg) p = e_snap (new_entry (us ! p))"
    and "attempts_at (NewManager us ft rt lg) p = make_chan max_attempts"
  using assms by (simp_all add: cfg_at_def snap_at_def attempts_at_def new_entry_def)

lemma NewManager_entries:
  "m_entries (NewManager us ft rt lg) = sort_key (\<lambda>p. u_Priority (us ! p)) [0..<length us]"
proof -
  have "sort_key (\<lambda>p. u_Priority (e_config (map new_entry us ! p))) [0..<length us] =
    sort_key (\<lambda>p. u_Priority (us ! p)) [0..<length us]"
    by (rule sort_key_cong) (simp add: new_entry_def)
  then show ?thesis
    by (simp add: NewManager_def Let_def cfg_at_def split: list.split)
qed

lemma NewManager_byName:
  assumes "distinct (map u_Name us)"
  shows "m_byName (NewManager us ft rt lg) n = Some p \<longleftrightarrow> p < length us \<and> u_Name (us ! p) = n"
proof -
  let ?m = "\<lparr>m_failThreshold = ft, m_recoverThreshold = rt, m_heap = [], m_entries = [],
    m_byName = Map.empty, m_logger = lg, m_lastActive = [], m_emergencyActive = False, m_log = []\<rparr>"
  have "m_byName (NewManager us ft rt lg) = m_byName (add_entries ?m us)"
    by (simp add: NewManager_def Let_def split: list.split)
  with add_entries_byName [of ?m us n p] assms show ?thesis
    by (auto simp: cfg_at_def new_entry_def)
qed

lemma NewManager_shape:
  assumes "distinct (map u_Name us)"
  shows "mgr_shape (NewManager us ft rt lg)"
proof -
  have "sorted (map (\<lambda>p. u_Priority (us ! p)) (sort_key (\<lambda>p. u_Priority (us ! p)) [0..<length us]))"
    by (rule sorted_sort_key)
  moreover have "map (\<lambda>p. u_Priority (cfg_at (NewManager us ft rt lg) p))
      (sort_key (\<lambda>p. u_Priority (us ! p)) [0..<length us]) =
    map (\<lambda>p. u_Priority (us ! p)) (sort_key (\<lambda>p. u_Priority (us ! p)) [0..<length us])"
    by simp
  ultimately have "sorted (map (\<lambda>p. u_Priority (cfg_at (NewManager us ft rt lg) p))
      (m_entries (NewManager us ft rt lg)))"
    by (simp only: NewManager_entries)
  moreover have "distinct (m_entries (NewManager us ft rt lg))"
    and "set (m_entries (NewManager us ft rt lg)) = {..<length us}"
    by (auto simp: NewManager_entries)
  ultimately show ?thesis
    by (simp add: mgr_shape_def NewManager_byName [OF assms] cong: conj_cong)
qed

lemma snap_ok_new [simp]: "snap_ok B C (e_snap (new_entry u))"
  by (simp add: snap_ok_def new_entry_def)

lemma snap_of_new [simp]: "snap_of u (e_snap (new_entry u))"
  by (simp add: snap_of_def new_entry_def)

lemma NewManager_inv [wf_intros]:
  assumes "distinct (map u_Name us)" and "ft \<le> max_int64" and "rt \<le> max_int64"
  shows "mgr_inv ft rt (NewManager us ft rt lg)"
  using assms NewManager_shape [OF assms(1), of ft rt lg] by (simp add: mgr_inv_def entry_ok_def)

section \<open>Managers built from the previous snapshots\<close>

lemma adopt_frame [simp]:
  "m_entries (adopt f p m) = m_entries m" "m_byName (adopt f p m) = m_byName m"
  "m_logger (adopt f p m) = m_logger m" "length (m_heap (adopt f p m)) = length (m_heap m)"
  "m_failThreshold (adopt f p m) = m_failThreshold m"
  "m_recoverThreshold (adopt f p m) = m_recoverThreshold m"
  "cfg_at (adopt f p m) q = cfg_at m q" "attempts_at (adopt f p m) q = attempts_at m q"
  by (simp_all add: adopt_def split: option.split)

text \<open>What an entry's snapshot becomes: the previous one of the same name, endpoint and protocol.\<close>

definition carried :: "(string \<rightharpoonup> Snapshot) \<Rightarrow> Upstream \<Rightarrow> Snapshot \<Rightarrow> Snapshot" where
  "carried f u fresh =
     (case f (u_Name u) of
        None \<Rightarrow> fresh
      | Some s \<Rightarrow>
          if s_Endpoint s = s_Endpoint fresh \<and> s_Protocol s = s_Protocol fresh
          then s\<lparr>s_Priority := s_Priority fresh\<rparr> else fresh)"

lemma snap_at_adopt:
  "p < length (m_heap m) \<Longrightarrow>
   snap_at (adopt f p m) q = (if q = p then carried f (cfg_at m p) (snap_at m p) else snap_at m q)"
  by (auto simp: adopt_def carried_def split: option.split)

lemma fold_adopt:
  assumes "distinct ps" and "set ps \<subseteq> {..<length (m_heap m)}"
  shows "snap_at (fold (adopt f) ps m) q =
      (if q \<in> set ps then carried f (cfg_at m q) (snap_at m q) else snap_at m q)"
    and "m_entries (fold (adopt f) ps m) = m_entries m"
    and "m_byName (fold (adopt f) ps m) = m_byName m"
    and "length (m_heap (fold (adopt f) ps m)) = length (m_heap m)"
    and "m_failThreshold (fold (adopt f) ps m) = m_failThreshold m"
    and "m_recoverThreshold (fold (adopt f) ps m) = m_recoverThreshold m"
    and "m_logger (fold (adopt f) ps m) = m_logger m"
    and "cfg_at (fold (adopt f) ps m) q = cfg_at m q"
    and "attempts_at (fold (adopt f) ps m) q = attempts_at m q"
  using assms by (induction ps arbitrary: m) (auto simp: snap_at_adopt)

lemma index_snapshots_snoc:
  "index_snapshots [] = Map.empty"
  "index_snapshots (prev @ [s]) = (index_snapshots prev)(s_Name s \<mapsto> s)"
  by (simp_all add: index_snapshots_def)

lemma index_snapshots_Some:
  "index_snapshots prev n = Some s \<Longrightarrow> s \<in> set prev \<and> s_Name s = n"
  by (induction prev rule: rev_induct) (auto simp: index_snapshots_snoc split: if_splits)

lemma index_snapshots_distinct:
  "distinct (map s_Name prev) \<Longrightarrow> s \<in> set prev \<Longrightarrow> index_snapshots prev (s_Name s) = Some s"
  by (induction prev rule: rev_induct) (auto simp: index_snapshots_snoc, metis image_eqI)

lemma NewManager_entries_set [simp]: "set (m_entries (NewManager us ft rt lg)) = {..<length us}"
  by (auto simp: NewManager_entries)

lemma NewManager_ptrs:
  "distinct (m_entries (NewManager us ft rt lg))"
  "set (m_entries (NewManager us ft rt lg)) \<subseteq> {..<length (m_heap (NewManager us ft rt lg))}"
  by (auto simp: NewManager_entries)

lemmas fold_adopt_new = fold_adopt [OF NewManager_ptrs]

lemma reloaded_frame [simp]:
  "m_entries (NewManagerFromSnapshots us ft rt lg prev) = m_entries (NewManager us ft rt lg)"
  "m_failThreshold (NewManagerFromSnapshots us ft rt lg prev) = ft"
  "m_recoverThreshold (NewManagerFromSnapshots us ft rt lg prev) = rt"
  "m_logger (NewManagerFromSnapshots us ft rt lg prev) = lg"
  "m_byName (NewManagerFromSnapshots us ft rt lg prev) = m_byName (NewManager us ft rt lg)"
  "length (m_heap (NewManagerFromSnapshots us ft rt lg prev)) = length us"
  by (simp_all add: NewManagerFromSnapshots_def Let_def fold_adopt_new)

lemma reloaded_at:
  assumes "p < length us"
  shows "cfg_at (NewManagerFromSnapshots us ft rt lg prev) p = us ! p"
    and "snap_at (NewManagerFromSnapshots us ft rt lg prev) p =
      carried (index_snapshots prev) (us ! p) (e_snap (new_entry (us ! p)))"
    and "attempts_at (NewManagerFromSnapshots us ft rt lg prev) p = make_chan max_attempts"
  using assms by (simp_all add: NewManagerFromSnapshots_def Let_def fold_adopt_new)

lemma carried_ok:
  assumes "\<And>s. f (u_Name u) = Some s \<Longrightarrow> s_Name s = u_Name u \<and> snap_ok B C s"
  shows "snap_ok B C (carried f u (e_snap (new_entry u))) \<and>
    snap_of u (carried f u (e_snap (new_entry u)))"
  using assms
  by (auto simp: carried_def snap_of_def new_entry_def snap_ok_def split: option.split State.splits)

lemma reloaded_inv [wf_intros]:
  assumes "distinct (map u_Name us)" and "ft \<le> max_int64" and "rt \<le> max_int64"
    and "\<forall>s \<in> set prev. snap_ok max_int64 max_int64 s"
  shows "mgr_inv max_int64 max_int64 (NewManagerFromSnapshots us ft rt lg prev)"
proof -
  let ?r = "NewManagerFromSnapshots us ft rt lg prev" and ?base = "NewManager us ft rt lg"
  have sh: "mgr_shape ?base" using assms(1) by (rule NewManager_shape)
  have map_eq: "map (\<lambda>p. u_Priority (cfg_at ?r p)) (m_entries ?base) =
    map (\<lambda>p. u_Priority (cfg_at ?base p)) (m_entries ?base)"
    by (auto simp: NewManager_entries reloaded_at(1))
  have "mgr_shape ?r"
    unfolding mgr_shape_def
  proof (intro conjI allI)
    show "sorted (map (\<lambda>p. u_Priority (cfg_at ?r p)) (m_entries ?r))"
      using sh unfolding mgr_shape_def by (simp only: reloaded_frame map_eq)
    show "(m_byName ?r n = Some p) = (p < length (m_heap ?r) \<and> u_Name (cfg_at ?r p) = n)" for n p
      by (auto simp: NewManager_byName [OF assms(1)] reloaded_at(1))
  qed (use sh in \<open>simp_all add: mgr_shape_def\<close>)
  moreover have "entry_ok max_int64 max_int64 ?r p" if "p < length us" for p
  proof -
    have "snap_ok max_int64 max_int64 (snap_at ?r p) \<and> snap_of (us ! p) (snap_at ?r p)"
      using carried_ok [of "index_snapshots prev" "us ! p" max_int64 max_int64] assms(4)
      by (auto simp: reloaded_at [OF that] dest: index_snapshots_Some)
    then show ?thesis by (simp add: entry_ok_def reloaded_at [OF that])
  qed
  ultimately show ?thesis using assms(2,3) by (simp add: mgr_inv_def)
qed

section \<open>Selection: strict priority\<close>

lemma candidates_seen_cases:
  "candidates_seen seen m =
     (if \<exists>p \<in> set (m_entries m). eligible (seen p)
      then (map (cfg_at m) (filter (\<lambda>p. eligible (seen p)) (m_entries m)), False)
      else (map (cfg_at m) (m_entries m), True))"
  by (auto simp: candidates_seen_def Let_def filter_empty_conv)

lemma sorted_map_filter_entries:
  "mgr_shape m \<Longrightarrow> sorted (map u_Priority (map (cfg_at m) (filter P (m_entries m))))"
  using sorted_filter_map [of "\<lambda>p. u_Priority (cfg_at m p)" "m_entries m" P]
  by (simp add: mgr_shape_def comp_def)

lemma candidates_seen_sorted:
  assumes "mgr_shape m"
  shows "sorted (map u_Priority (fst (candidates_seen seen m)))"
  using sorted_map_filter_entries [OF assms, of "\<lambda>p. eligible (seen p)"]
    sorted_map_filter_entries [OF assms, of "\<lambda>_. True"]
  by (simp add: candidates_seen_cases)

lemma candidates_seen_subset:
  "set (fst (candidates_seen seen m)) \<subseteq> cfg_at m ` set (m_entries m)"
  by (auto simp: candidates_seen_cases)

lemma candidates_seen_nonempty: "m_entries m \<noteq> [] \<Longrightarrow> fst (candidates_seen seen m) \<noteq> []"
  by (auto simp: candidates_seen_cases filter_empty_conv)

lemma StateOf_cfg:
  assumes "mgr_shape m" and "p \<in> set (m_entries m)"
  shows "m_byName m (u_Name (cfg_at m p)) = Some p" and "StateOf m (u_Name (cfg_at m p)) = s_State (snap_at m p)"
proof -
  show "m_byName m (u_Name (cfg_at m p)) = Some p"
    using assms by (simp add: mgr_shape_def)
  then show "StateOf m (u_Name (cfg_at m p)) = s_State (snap_at m p)"
    by (simp add: StateOf_def)
qed

text \<open>
  C1: strict priority. The upstreams offered for a request are sorted by priority; unless the
  emergency path is taken they are exactly the upstreams that are neither down nor
  recovering; the emergency path is taken exactly when there is no such upstream, and then
  every upstream is offered; and something is offered whenever an upstream is configured.
\<close>

theorem Candidates_strict_priority:
  assumes "mgr_inv B C m" and "Candidates m = (cs, emergency)"
  shows "sorted (map u_Priority cs) \<and>
    (emergency \<longleftrightarrow> (\<forall>p \<in> set (m_entries m). \<not> eligible (StateOf m (u_Name (cfg_at m p))))) \<and>
    set cs = {u \<in> cfg_at m ` set (m_entries m). emergency \<or> eligible (StateOf m (u_Name u))} \<and>
    (m_entries m \<noteq> [] \<longrightarrow> cs \<noteq> [])"
proof -
  have sh: "mgr_shape m" using assms(1) by (simp add: mgr_inv_def)
  note st = StateOf_cfg(2) [OF sh]
  from assms(2) have c: "candidates_seen (\<lambda>p. s_State (snap_at m p)) m = (cs, emergency)"
    by (simp add: Candidates_def)
  have "sorted (map u_Priority cs)" and "m_entries m \<noteq> [] \<longrightarrow> cs \<noteq> []"
    using candidates_seen_sorted [OF sh, of "\<lambda>p. s_State (snap_at m p)"]
      candidates_seen_nonempty [of m "\<lambda>p. s_State (snap_at m p)"] by (auto simp: c)
  moreover have "emergency \<longleftrightarrow> (\<forall>p \<in> set (m_entries m). \<not> eligible (StateOf m (u_Name (cfg_at m p))))"
    using c by (auto simp: candidates_seen_cases st split: if_splits)
  moreover have "set cs = {u \<in> cfg_at m ` set (m_entries m). emergency \<or> eligible (StateOf m (u_Name u))}"
    using c by (auto simp: candidates_seen_cases st split: if_splits)
  ultimately show ?thesis by blast
qed

lemma Active_cong:
  assumes "m_entries m = m_entries m'" and "\<And>p. cfg_at m p = cfg_at m' p"
    and "\<And>p. eligible (s_State (snap_at m p)) = eligible (s_State (snap_at m' p))"
  shows "Active m = Active m'"
  using assms by (simp add: Active_eq Candidates_def candidates_seen_def cong: map_cong)

text \<open>
  The active upstream is the best one. When some upstream is neither down nor recovering,
  the reported active upstream is such an upstream, and none of them has a smaller priority
  number.
\<close>

lemma Active_is_best:
  assumes "mgr_inv B C m" and "p \<in> set (m_entries m)" and "eligible (StateOf m (u_Name (cfg_at m p)))"
  shows "\<exists>q \<in> set (m_entries m). Active m = u_Name (cfg_at m q) \<and> eligible (StateOf m (Active m)) \<and>
    u_Priority (cfg_at m q) \<le> u_Priority (cfg_at m p)"
proof -
  have sh: "mgr_shape m" using assms(1) by (simp add: mgr_inv_def)
  note st = StateOf_cfg(2) [OF sh]
  let ?f = "filter (\<lambda>p. eligible (s_State (snap_at m p))) (m_entries m)"
  have p: "p \<in> set ?f" using assms(2,3) st by simp
  then obtain q qs where f: "?f = q # qs" by (cases ?f) auto
  then have "q \<in> set ?f" by simp
  then have q: "q \<in> set (m_entries m)" "eligible (s_State (snap_at m q))" by simp_all
  have act: "Active m = u_Name (cfg_at m q)"
    using p by (simp add: Active_eq Candidates_def candidates_seen_def Let_def f)
  have "sorted (map u_Priority (map (cfg_at m) ?f))"
    by (rule sorted_map_filter_entries [OF sh])
  with p have "u_Priority (cfg_at m q) \<le> u_Priority (cfg_at m p)"
    unfolding f by auto
  with act q st show ?thesis by auto
qed

section \<open>The manager as a machine\<close>

text \<open>
  Everything the rest of the program does to a manager is one of these events; requests and
  probes of different goroutines interleave them in any order. A release receives from the
  channel of the entry whose pointer the closure holds.
\<close>

datatype mgr_event =
    EvSuccess string bool duration time
  | EvFailure string string time
  | EvSelection bool
  | EvBegin string
  | EvRelease ptr

fun mgr_step :: "mgr_event \<Rightarrow> Manager \<Rightarrow> Manager" where
  "mgr_step (EvSuccess n pr l t) m = RecordSuccess n pr l t m"
| "mgr_step (EvFailure n msg t) m = RecordFailure n msg t m"
| "mgr_step (EvSelection e) m = RecordSelectionMode e m"
| "mgr_step (EvBegin n) m = (case BeginAttempt n m of None \<Rightarrow> m | Some (m', _) \<Rightarrow> m')"
| "mgr_step (EvRelease p) m = (case release_attempt p m of None \<Rightarrow> m | Some m' \<Rightarrow> m')"

definition mgr_run :: "mgr_event list \<Rightarrow> Manager \<Rightarrow> Manager" where
  "mgr_run evs m = fold mgr_step evs m"

lemma mgr_step_inv: "mgr_inv B C m \<Longrightarrow> mgr_inv B C (mgr_step ev m)"
  by (cases ev) (auto intro: wf_intros split: option.split)

interpretation mgr: guarded_machine mgr_step "mgr_inv B C" for B C
  by unfold_locales (rule mgr_step_inv)

lemma mgr_run_inv [wf_intros]: "mgr_inv B C m \<Longrightarrow> mgr_inv B C (mgr_run evs m)"
  unfolding mgr_run_def by (rule mgr.run_inv)

lemma mgr_step_frame [simp]:
  "m_entries (mgr_step ev m) = m_entries m" "m_byName (mgr_step ev m) = m_byName m"
  "m_logger (mgr_step ev m) = m_logger m" "length (m_heap (mgr_step ev m)) = length (m_heap m)"
  "m_failThreshold (mgr_step ev m) = m_failThreshold m"
  "m_recoverThreshold (mgr_step ev m) = m_recoverThreshold m"
  "cfg_at (mgr_step ev m) q = cfg_at m q"
  by (cases ev; simp add: BeginAttempt_def release_attempt_def split: option.split)+

lemma mgr_run_frame [simp]:
  "m_entries (mgr_run evs m) = m_entries m" "m_byName (mgr_run evs m) = m_byName m"
  "m_logger (mgr_run evs m) = m_logger m" "length (m_heap (mgr_run evs m)) = length (m_heap m)"
  "m_failThreshold (mgr_run evs m) = m_failThreshold m"
  "m_recoverThreshold (mgr_run evs m) = m_recoverThreshold m"
  "cfg_at (mgr_run evs m) q = cfg_at m q"
  by (induction evs arbitrary: m; simp add: mgr_run_def)+

lemma mgr_run_simps [simp]:
  "mgr_run [] m = m" "mgr_run (ev # evs) m = mgr_run evs (mgr_step ev m)"
  by (simp_all add: mgr_run_def)

lemma mgr_run_append: "mgr_run (a @ b) m = mgr_run b (mgr_run a m)"
  by (simp add: mgr_run_def)

section \<open>Interface: attempt slots\<close>

definition ptrs_ok :: "Manager \<Rightarrow> bool" where
  "ptrs_ok m \<longleftrightarrow> (\<forall>n p. m_byName m n = Some p \<longrightarrow> p < length (m_heap m))"

definition slots_used :: "string \<Rightarrow> Manager \<Rightarrow> nat" where
  "slots_used n m = (case m_byName m n of None \<Rightarrow> 0 | Some p \<Rightarrow> ch_len (attempts_at m p))"

definition slots_limit :: "string \<Rightarrow> Manager \<Rightarrow> nat" where
  "slots_limit n m = (case m_byName m n of None \<Rightarrow> 0 | Some p \<Rightarrow> ch_cap (attempts_at m p))"

definition begin_slot :: "string \<Rightarrow> Manager \<Rightarrow> Manager option" where
  "begin_slot n m = map_option fst (BeginAttempt n m)"

definition end_slot :: "string \<Rightarrow> Manager \<Rightarrow> Manager option" where
  "end_slot n m = (case m_byName m n of None \<Rightarrow> None | Some p \<Rightarrow> release_attempt p m)"

lemma mgr_inv_ptrs_ok: "mgr_inv B C m \<Longrightarrow> ptrs_ok m"
  by (simp add: ptrs_ok_def mgr_inv_byName)

lemma ptrs_ok_lt: "ptrs_ok m \<Longrightarrow> m_byName m n = Some p \<Longrightarrow> p < length (m_heap m)"
  by (simp add: ptrs_ok_def)

interpretation slots: bounded_channel ptrs_ok "slots_used n" "slots_limit n" "begin_slot n" "end_slot n" for n
proof (unfold_locales, goal_cases)
  case (1 m)
  then show ?case
    by (auto simp: begin_slot_def BeginAttempt_def slots_used_def slots_limit_def chan_simps
        split: option.splits)
next
  case (2 m t)
  then obtain p c where p: "m_byName m n = Some p" and c: "chan_send (attempts_at m p) = Some c"
    and t: "t = set_attempts m p c"
    by (auto simp: begin_slot_def BeginAttempt_def split: option.splits)
  have "p < length (m_heap m)" using 2(1) p by (rule ptrs_ok_lt)
  then show ?case
    using 2(1) p c by (auto simp: t ptrs_ok_def slots_used_def slots_limit_def chan_simps)
next
  case (3 m)
  then show ?case
    by (auto simp: end_slot_def release_attempt_def slots_used_def chan_simps split: option.splits)
next
  case (4 m t)
  then obtain p c where p: "m_byName m n = Some p" and c: "chan_recv (attempts_at m p) = Some c"
    and t: "t = set_attempts m p c"
    by (auto simp: end_slot_def release_attempt_def split: option.splits)
  have "p < length (m_heap m)" using 4(1) p by (rule ptrs_ok_lt)
  then show ?case
    using 4(1) p c by (auto simp: t ptrs_ok_def slots_used_def slots_limit_def chan_simps)
qed

text \<open>
  At most sixteen attempts run against one upstream at a time. After any interleaving of
  recordings, acquisitions and releases of all goroutines, no more than sixteen slots of an
  upstream are taken.
\<close>

lemma attempts_bounded:
  assumes "mgr_inv B C m"
  shows "slots_used n (mgr_run evs m) \<le> 16"
proof -
  have inv: "mgr_inv B C (mgr_run evs m)" using assms by (rule mgr_run_inv)
  show ?thesis
  proof (cases "m_byName (mgr_run evs m) n")
    case (Some p)
    with mgr_inv_chan [OF inv, of p] mgr_inv_byName [OF inv Some] show ?thesis
      by (simp add: slots_used_def max_attempts_def)
  qed (simp add: slots_used_def)
qed

text \<open>
  A slot is refused exactly when sixteen are taken, and a released slot can be taken again:
  after a release, \<open>BeginAttempt\<close> of the same upstream succeeds.
\<close>

lemma BeginAttempt_iff_free:
  assumes "mgr_inv B C m" and "m_byName m n = Some p"
  shows "(BeginAttempt n m = None \<longleftrightarrow> slots_used n m = 16) \<and>
    (\<forall>m'. release_attempt p m = Some m' \<longrightarrow> BeginAttempt n m' \<noteq> None)"
proof -
  have ok: "ptrs_ok m" using assms(1) by (rule mgr_inv_ptrs_ok)
  have p: "p < length (m_heap m)" using assms by (simp add: mgr_inv_byName)
  have lim: "slots_limit n m = 16" "slots_used n m \<le> slots_limit n m"
    using mgr_inv_chan [OF assms(1) p] assms(2)
    by (simp_all add: slots_limit_def slots_used_def max_attempts_def)
  have "BeginAttempt n m = None \<longleftrightarrow> begin_slot n m = None" by (simp add: begin_slot_def)
  with slots.acquire_None [OF ok, of n] lim have "BeginAttempt n m = None \<longleftrightarrow> slots_used n m = 16"
    by auto
  moreover have "BeginAttempt n m' \<noteq> None" if "release_attempt p m = Some m'" for m'
  proof -
    have "end_slot n m = Some m'" using that assms(2) by (simp add: end_slot_def)
    from slots.release_acquire [OF ok lim(2) this] show ?thesis
      by (auto simp: begin_slot_def)
  qed
  ultimately show ?thesis by blast
qed

section \<open>The contract of one upstream's health\<close>

text \<open>
  Evidence about one upstream, as the manager records it: a failure, or a success that came
  from a probe (\<open>HOk True\<close>) or from ordinary traffic (\<open>HOk False\<close>).
\<close>

datatype health_event = HFail string time | HOk bool duration time

fun snap_step :: "int \<Rightarrow> int \<Rightarrow> health_event \<Rightarrow> Snapshot \<Rightarrow> Snapshot" where
  "snap_step ft rt (HFail msg t) s = failure_update ft msg t s"
| "snap_step ft rt (HOk probe l t) s = fst (success_update rt probe l t s)"

text \<open>
  The abstract specification: an upstream is in service with a number of consecutive
  failures, or out of service with a number of recovery successes. \<open>ft\<close> consecutive failures
  take it out; \<open>rt\<close> probe successes without a failure in between bring it back; ordinary
  traffic never helps an upstream that is out of service.
\<close>

datatype health = InService int | OutOfService int

fun health_spec :: "int \<Rightarrow> int \<Rightarrow> health_event \<Rightarrow> health \<Rightarrow> health" where
  "health_spec ft rt (HFail msg t) (InService f) = (if f + 1 \<ge> ft then OutOfService 0 else InService (f + 1))"
| "health_spec ft rt (HFail msg t) (OutOfService c) = OutOfService 0"
| "health_spec ft rt (HOk probe l t) (InService f) = InService 0"
| "health_spec ft rt (HOk probe l t) (OutOfService c) =
     (if \<not> probe then OutOfService c else if c + 1 \<ge> rt then InService 0 else OutOfService (c + 1))"

definition abs_health :: "Snapshot \<Rightarrow> health" where
  "abs_health s =
     (if eligible (s_State s) then InService (s_ConsecutiveFailures s)
      else OutOfService (s_ConsecutiveSuccess s))"

lemma abs_health_step:
  assumes "snap_ok B C s" and "B \<le> max_int64" and "C \<le> max_int64"
  shows "abs_health (snap_step ft rt ev s) = health_spec ft rt ev (abs_health s)"
proof (cases ev)
  case (HFail msg t)
  with assms show ?thesis
    by (cases "s_State s")
      (auto simp: snap_ok_def abs_health_def eligible_def failure_update_def Let_def)
next
  case (HOk probe l t)
  with assms show ?thesis
    by (cases "s_State s")
      (auto simp: snap_ok_def abs_health_def eligible_def success_update_def Let_def)
qed

lemma snap_ok_step:
  assumes "snap_ok B C s" and "ft \<le> B" and "B \<le> max_int64" and "rt \<le> C" and "C \<le> max_int64"
  shows "snap_ok B C (snap_step ft rt ev s)"
  using assms by (cases ev) (auto intro: snap_ok_failure snap_ok_success)

lemma abs_health_run:
  assumes "snap_ok B C s" and "ft \<le> B" and "B \<le> max_int64" and "rt \<le> C" and "C \<le> max_int64"
  shows "abs_health (fold (snap_step ft rt) evs s) = fold (health_spec ft rt) evs (abs_health s)"
  using assms by (induction evs arbitrary: s) (auto simp: abs_health_step snap_ok_step)

section \<open>The manager keeps one history per upstream\<close>

fun history :: "string \<Rightarrow> mgr_event list \<Rightarrow> health_event list" where
  "history n [] = []"
| "history n (EvSuccess n' pr l t # evs) = (if n' = n then HOk pr l t # history n evs else history n evs)"
| "history n (EvFailure n' msg t # evs) = (if n' = n then HFail msg t # history n evs else history n evs)"
| "history n (_ # evs) = history n evs"

lemma mgr_step_snap:
  assumes "mgr_inv B C m" and "m_byName m n = Some p"
  shows "snap_at (mgr_step ev m) p =
    fold (snap_step (m_failThreshold m) (m_recoverThreshold m)) (history n [ev]) (snap_at m p)"
proof -
  have p: "p < length (m_heap m)" and n: "u_Name (cfg_at m p) = n"
    using assms by (simp_all add: mgr_inv_byName)
  have other: "snap_at (RecordSuccess n' pr l t m) p = snap_at m p"
    "snap_at (RecordFailure n' msg t m) p = snap_at m p" if "n' \<noteq> n" for n' pr l t msg
    using that n mgr_inv_byName [OF assms(1), of n']
    by (cases "m_byName m n'"; auto simp: Record_unknown RecordSuccess_snap RecordFailure_snap)+
  show ?thesis
    by (cases ev)
      (auto simp: RecordSuccess_snap [OF assms(2) p] RecordFailure_snap [OF assms(2) p] other
        BeginAttempt_def release_attempt_def split: option.split)
qed

lemma history_append: "history n (a @ b) = history n a @ history n b"
  by (induction n a rule: history.induct) auto

lemma mgr_run_snap:
  assumes "mgr_inv B C m" and "m_byName m n = Some p"
  shows "snap_at (mgr_run evs m) p =
    fold (snap_step (m_failThreshold m) (m_recoverThreshold m)) (history n evs) (snap_at m p)"
  using assms
proof (induction evs arbitrary: m)
  case Nil
  then show ?case by simp
next
  case (Cons ev evs)
  have "snap_at (mgr_run (ev # evs) m) p =
    fold (snap_step (m_failThreshold m) (m_recoverThreshold m)) (history n evs) (snap_at (mgr_step ev m) p)"
    using Cons.IH [of "mgr_step ev m"] Cons.prems by (simp add: mgr_step_inv)
  also have "\<dots> = fold (snap_step (m_failThreshold m) (m_recoverThreshold m)) (history n ([ev] @ evs)) (snap_at m p)"
    by (simp only: mgr_step_snap [OF Cons.prems] history_append fold_append comp_apply)
  finally show ?case by simp
qed

text \<open>
  C2: the manager implements the health contract. Whatever the goroutines do to the manager
  in whatever order, the state of each upstream is what the abstract specification computes
  from that upstream's own evidence, in the order it was recorded: events of other upstreams,
  slot traffic and selection notes have no influence, and the 64-bit counters never wrap
  into a wrong decision.
\<close>

theorem manager_refines_health_spec:
  assumes "mgr_inv B C m" and "m_byName m n = Some p"
  shows "abs_health (snap_at (mgr_run evs m) p) =
    fold (health_spec (m_failThreshold m) (m_recoverThreshold m)) (history n evs) (abs_health (snap_at m p))"
proof -
  have "p < length (m_heap m)" using assms by (simp add: mgr_inv_byName)
  then have ok: "snap_ok B C (snap_at m p)"
    using mgr_inv_entry [OF assms(1)] by (simp add: entry_ok_def)
  have b: "m_failThreshold m \<le> B" "B \<le> max_int64" "m_recoverThreshold m \<le> C" "C \<le> max_int64"
    using assms(1) by (simp_all add: mgr_inv_def)
  show ?thesis
    unfolding mgr_run_snap [OF assms] by (rule abs_health_run [OF ok b])
qed

section \<open>Hysteresis, from the contract\<close>

fun is_fail :: "health_event \<Rightarrow> bool" where
  "is_fail (HFail _ _) = True"
| "is_fail (HOk _ _ _) = False"

fun is_probe_ok :: "health_event \<Rightarrow> bool" where
  "is_probe_ok (HOk probe _ _) = probe"
| "is_probe_ok (HFail _ _) = False"

lemma spec_fail: "is_fail e \<Longrightarrow> health_spec ft rt e (InService f) =
    (if f + 1 \<ge> ft then OutOfService 0 else InService (f + 1))"
  "is_fail e \<Longrightarrow> health_spec ft rt e (OutOfService c) = OutOfService 0"
  by (cases e; simp)+

lemma spec_not_fail: "\<not> is_fail e \<Longrightarrow> health_spec ft rt e (InService f) = InService 0"
  "\<not> is_fail e \<Longrightarrow> health_spec ft rt e (OutOfService c) =
    (if \<not> is_probe_ok e then OutOfService c else if c + 1 \<ge> rt then InService 0 else OutOfService (c + 1))"
  by (cases e; simp)+

text \<open>In service with \<open>f\<close> failures: the last \<open>f\<close> pieces of evidence are failures, and fewer than \<open>ft\<close>.\<close>

lemma in_service_suffix:
  assumes "fold (health_spec ft rt) evs (InService 0) = InService f" and "1 \<le> ft"
  shows "0 \<le> f \<and> f < ft \<and> (\<exists>pre suf. evs = pre @ suf \<and> int (length suf) = f \<and> list_all is_fail suf)"
  using assms
proof (induction evs arbitrary: f rule: rev_induct)
  case Nil
  then show ?case by simp
next
  case (snoc e evs)
  let ?h = "fold (health_spec ft rt) evs (InService 0)"
  have s: "health_spec ft rt e ?h = InService f" using snoc.prems(1) by simp
  show ?case
  proof (cases "is_fail e")
    case True
    with s obtain g where g: "?h = InService g" and f: "f = g + 1" and "f < ft"
      by (cases ?h) (auto simp: spec_fail split: if_splits)
    from snoc.IH [OF g snoc.prems(2)] obtain pre suf where "0 \<le> g" "evs = pre @ suf"
      "int (length suf) = g" "list_all is_fail suf" by blast
    with True f \<open>f < ft\<close> show ?thesis
      by (intro conjI exI [of _ pre] exI [of _ "suf @ [e]"]) auto
  next
    case False
    with s have "f = 0" by (cases ?h) (auto simp: spec_not_fail split: if_splits)
    with snoc.prems(2) show ?thesis
      by (intro conjI exI [of _ "evs @ [e]"] exI [of _ "[]"]) auto
  qed
qed

lemma in_service_after:
  assumes "fold (health_spec ft rt) evs (InService 0) = OutOfService c" and "1 \<le> ft"
  shows "\<exists>pre run post. evs = pre @ run @ post \<and> int (length run) = ft \<and> list_all is_fail run"
  using assms
proof (induction evs arbitrary: c rule: rev_induct)
  case Nil
  then show ?case by simp
next
  case (snoc e evs)
  let ?h = "fold (health_spec ft rt) evs (InService 0)"
  have s: "health_spec ft rt e ?h = OutOfService c" using snoc.prems(1) by simp
  show ?case
  proof (cases ?h)
    case (InService f)
    with s have e: "is_fail e" "f + 1 \<ge> ft"
      by (cases "is_fail e"; auto simp: spec_fail spec_not_fail split: if_splits)+
    from in_service_suffix [OF InService snoc.prems(2)] obtain pre suf where
      "f < ft" "evs = pre @ suf" "int (length suf) = f" "list_all is_fail suf" by blast
    with e show ?thesis
      by (intro exI [of _ pre] exI [of _ "suf @ [e]"] exI [of _ "[]"]) auto
  next
    case (OutOfService d)
    from snoc.IH [OF this snoc.prems(2)] obtain pre run post where
      "evs = pre @ run @ post" "int (length run) = ft" "list_all is_fail run" by blast
    then show ?thesis
      by (intro exI [of _ pre] exI [of _ run] exI [of _ "post @ [e]"]) simp
  qed
qed

lemma spec_run_of_failures:
  assumes "list_all is_fail evs" and "ft \<le> int (length evs) + f" and "evs \<noteq> []"
  shows "fold (health_spec ft rt) evs (InService f) = OutOfService 0"
  using assms
proof (induction evs arbitrary: f)
  case (Cons e evs)
  have out: "list_all is_fail es \<Longrightarrow> fold (health_spec ft rt) es (OutOfService 0) = OutOfService 0" for es
    by (induction es) (auto simp: spec_fail)
  show ?case
  proof (cases "f + 1 \<ge> ft")
    case True
    with Cons.prems show ?thesis by (simp add: spec_fail out)
  next
    case False
    with Cons.prems have "evs \<noteq> []" by auto
    with False Cons show ?thesis by (simp add: spec_fail)
  qed
qed simp

text \<open>
  Out of service: since the last failure fewer than \<open>rt\<close> probe successes arrived, and the
  count is exactly their number.
\<close>

definition probe_oks :: "health_event list \<Rightarrow> int" where
  "probe_oks evs = int (length (filter is_probe_ok evs))"

lemma probe_oks_simps [simp]:
  "probe_oks [] = 0" "probe_oks (a @ b) = probe_oks a + probe_oks b"
  "probe_oks (e # evs) = (if is_probe_ok e then 1 else 0) + probe_oks evs"
  by (simp_all add: probe_oks_def)

lemma out_of_service_no_fail:
  assumes "list_all (\<lambda>e. \<not> is_fail e) evs" and "c + probe_oks evs < rt"
  shows "fold (health_spec ft rt) evs (OutOfService c) = OutOfService (c + probe_oks evs)"
  using assms
proof (induction evs arbitrary: c)
  case (Cons e evs)
  have "0 \<le> probe_oks evs" by (simp add: probe_oks_def)
  with Cons show ?case by (auto simp: spec_not_fail algebra_simps split: if_splits)
qed simp

lemma out_of_service_recovers:
  assumes "list_all (\<lambda>e. \<not> is_fail e) evs" and "c < rt" and "rt \<le> c + probe_oks evs"
  shows "fold (health_spec ft rt) evs (OutOfService c) = InService 0"
  using assms
proof (induction evs arbitrary: c)
  case (Cons e evs)
  have up: "list_all (\<lambda>e. \<not> is_fail e) es \<Longrightarrow> fold (health_spec ft rt) es (InService 0) = InService 0" for es
    by (induction es) (auto simp: spec_not_fail)
  from Cons show ?case
    by (cases "is_probe_ok e"; cases "c + 1 \<ge> rt") (auto simp: spec_not_fail up)
qed simp

lemma snap_ok_at:
  assumes "mgr_inv B C m" and "m_byName m n = Some p"
  shows "snap_ok B C (snap_at m p)"
  using assms mgr_inv_entry [OF assms(1), of p] mgr_inv_byName [OF assms] by (simp add: entry_ok_def)

lemma abs_health_state:
  assumes "snap_ok B C s"
  shows "abs_health s = OutOfService 0 \<longleftrightarrow> s_State s = Down"
    and "eligible (s_State s) \<longleftrightarrow> (\<exists>f. abs_health s = InService f)"
    and "abs_health s = InService f \<Longrightarrow> 0 \<le> f"
  using assms by (cases "s_State s"; auto simp: abs_health_def eligible_def snap_ok_def)+

lemma StateOf_run:
  "m_byName m n = Some p \<Longrightarrow> StateOf (mgr_run evs m) n = s_State (snap_at (mgr_run evs m) p)"
  by (simp add: StateOf_def)

text \<open>
  C4: failing over needs a full run of failures. From a fresh manager, an upstream is out of
  service (down or recovering) only if its evidence contains at least \<open>fail_threshold\<close>
  consecutive failures; a lost packet here and there, or any number of failures with
  successes in between, never takes it out.
\<close>

theorem failover_needs_consecutive_failures:
  assumes "distinct (map u_Name us)" and "1 \<le> ft" and "ft \<le> max_int64" and "rt \<le> max_int64"
    and "u \<in> set us"
    and "\<not> eligible (StateOf (mgr_run evs (NewManager us ft rt lg)) (u_Name u))"
  shows "\<exists>pre run post. history (u_Name u) evs = pre @ run @ post \<and>
    int (length run) = ft \<and> list_all is_fail run"
proof -
  let ?m = "NewManager us ft rt lg"
  have inv: "mgr_inv ft rt ?m" using assms(1,3,4) by (rule NewManager_inv)
  from assms(5) obtain p where p: "p < length us" "us ! p = u" by (auto simp: in_set_conv_nth)
  then have n: "m_byName ?m (u_Name u) = Some p" by (simp add: NewManager_byName assms(1))
  have fresh: "abs_health (snap_at ?m p) = InService 0"
    using p by (simp add: abs_health_def new_entry_def eligible_def)
  have "abs_health (snap_at (mgr_run evs ?m) p) = fold (health_spec ft rt) (history (u_Name u) evs) (InService 0)"
    using manager_refines_health_spec [OF inv n, of evs] by (simp add: fresh)
  moreover have "\<exists>c. abs_health (snap_at (mgr_run evs ?m) p) = OutOfService c"
    using assms(6) by (auto simp: StateOf_run [OF n] abs_health_def)
  ultimately show ?thesis using in_service_after assms(2) by metis
qed

text \<open>
  A confirmed failure is acted on. Whatever happened before, once the evidence on an
  upstream ends with \<open>fail_threshold\<close> failures in a row, the upstream is down.
\<close>

lemma consecutive_failures_take_down:
  assumes "mgr_inv B C m" and "m_byName m n = Some p"
    and "history n evs = before @ run" and "list_all is_fail run" and "run \<noteq> []"
    and "m_failThreshold m \<le> int (length run)"
  shows "StateOf (mgr_run evs m) n = Down"
proof -
  let ?h = "fold (health_spec (m_failThreshold m) (m_recoverThreshold m)) before (abs_health (snap_at m p))"
  have eq: "abs_health (snap_at (mgr_run evs m) p) =
    fold (health_spec (m_failThreshold m) (m_recoverThreshold m)) run ?h"
    using manager_refines_health_spec [OF assms(1,2), of evs] assms(3) by simp
  have b: "m_failThreshold m \<le> B" "B \<le> max_int64" "m_recoverThreshold m \<le> C" "C \<le> max_int64"
    using assms(1) by (simp_all add: mgr_inv_def)
  have ok: "snap_ok B C (snap_at m p)" using assms(1,2) by (rule snap_ok_at)
  have run: "snap_ok B C (fold (snap_step (m_failThreshold m) (m_recoverThreshold m)) before (snap_at m p))"
    using ok b by (induction before rule: rev_induct) (auto intro: snap_ok_step)
  have h: "?h = abs_health (fold (snap_step (m_failThreshold m) (m_recoverThreshold m)) before (snap_at m p))"
    by (rule abs_health_run [OF ok b, symmetric])
  have "fold (health_spec (m_failThreshold m) (m_recoverThreshold m)) run ?h = OutOfService 0"
  proof (cases ?h)
    case (InService f)
    with abs_health_state(3) [OF run] h have "0 \<le> f" by simp
    with InService assms(4-6) spec_run_of_failures [of run "m_failThreshold m" f] show ?thesis by simp
  next
    case (OutOfService c)
    from assms(5) obtain e es where r: "run = e # es" by (cases run) auto
    have "list_all is_fail xs \<Longrightarrow> fold (health_spec ft rt) xs (OutOfService 0) = OutOfService 0" for xs ft rt
      by (induction xs) (auto simp: spec_fail)
    with OutOfService assms(4) r show ?thesis by (simp add: spec_fail)
  qed
  moreover have "snap_ok B C (snap_at (mgr_run evs m) p)"
    using snap_ok_at [OF mgr_run_inv [OF assms(1)]] assms(2) by simp
  ultimately show ?thesis
    using abs_health_state(1) eq by (simp add: StateOf_run [OF assms(2)])
qed

text \<open>
  C3: failing back needs confirmed recovery, exactly. An upstream that is down and sees no
  further failure returns to service as soon as, and not before, \<open>recover_threshold\<close> probes have
  succeeded; successes of ordinary traffic do not count, however many there are.
\<close>

theorem recovery_needs_probe_successes:
  assumes "mgr_inv B C m" and "m_byName m n = Some p" and "StateOf m n = Down"
    and "1 \<le> m_recoverThreshold m" and "list_all (\<lambda>e. \<not> is_fail e) (history n evs)"
  shows "eligible (StateOf (mgr_run evs m) n) \<longleftrightarrow> m_recoverThreshold m \<le> probe_oks (history n evs)"
proof -
  have "abs_health (snap_at m p) = OutOfService 0"
    using assms(2,3) abs_health_state(1) [OF snap_ok_at [OF assms(1,2)]] by (simp add: StateOf_def)
  then have eq: "abs_health (snap_at (mgr_run evs m) p) =
    fold (health_spec (m_failThreshold m) (m_recoverThreshold m)) (history n evs) (OutOfService 0)"
    using manager_refines_health_spec [OF assms(1,2), of evs] by simp
  have "eligible (StateOf (mgr_run evs m) n) \<longleftrightarrow>
    (\<exists>f. abs_health (snap_at (mgr_run evs m) p) = InService f)"
    using abs_health_state(2) [OF snap_ok_at [OF mgr_run_inv [OF assms(1)]]] assms(2)
    by (simp add: StateOf_run [OF assms(2)])
  then show ?thesis
    using out_of_service_no_fail [OF assms(5), of 0 "m_recoverThreshold m" "m_failThreshold m"]
      out_of_service_recovers [OF assms(5), of 0 "m_recoverThreshold m" "m_failThreshold m"] assms(4)
    by (cases "m_recoverThreshold m \<le> probe_oks (history n evs)") (simp_all add: eq)
qed

section \<open>The announced upstream\<close>

lemma Active_log [simp]: "Active (m\<lparr>m_log := l\<rparr>) = Active m" "Active (m\<lparr>m_lastActive := a\<rparr>) = Active m"
  "Active (m\<lparr>m_lastActive := a, m_log := l\<rparr>) = Active m"
  "Active (m\<lparr>m_emergencyActive := e\<rparr>) = Active m"
  by (rule Active_cong; simp add: cfg_at_def snap_at_def)+

lemma Active_nonempty_entries:
  assumes "Active m = []" and "\<forall>p \<in> set (m_entries m). u_Name (cfg_at m p) \<noteq> []"
  shows "m_entries m = []"
proof (rule ccontr)
  assume "m_entries m \<noteq> []"
  then obtain u us where c: "fst (Candidates m) = u # us"
    using candidates_seen_nonempty by (metis Candidates_def neq_Nil_conv)
  then have "u \<in> cfg_at m ` set (m_entries m)"
    using candidates_seen_subset [of "\<lambda>p. s_State (snap_at m p)" m] by (auto simp: Candidates_def)
  with c assms show False by (auto simp: Active_eq)
qed

lemma Active_no_entries: "m_entries m = [] \<Longrightarrow> Active m = []"
  by (simp add: Active_eq Candidates_def candidates_seen_def)

lemma set_snap_log [simp]: "m_lastActive (set_snap m p s) = m_lastActive m"
  "m_lastActive (set_attempts m p c) = m_lastActive m"
  by (simp_all add: set_snap_def set_attempts_def)

lemma Active_set_snap:
  assumes "p < length (m_heap m)" and "eligible (s_State s) = eligible (s_State (snap_at m p))"
  shows "Active (set_snap m p s) = Active m"
  by (rule Active_cong) (use assms in auto)

lemma Active_set_attempts [simp]: "Active (set_attempts m p c) = Active m"
  by (rule Active_cong) simp_all

lemma success_update_unchanged:
  "\<not> snd (success_update rt pr l t s) \<Longrightarrow> s_State (fst (success_update rt pr l t s)) = s_State s"
  by (auto simp: success_update_def Let_def split: if_splits)

lemma NewManager_announced: "m_lastActive (NewManager us ft rt lg) = Active (NewManager us ft rt lg)"
proof -
  let ?m = "NewManager us ft rt lg"
  have el: "eligible (s_State (snap_at ?m p))" if "p \<in> set (m_entries ?m)" for p
    using that by (simp add: new_entry_def eligible_def)
  then have "filter (\<lambda>p. eligible (s_State (snap_at ?m p))) (m_entries ?m) = m_entries ?m"
    by (simp add: filter_id_conv)
  then have "Active ?m = (case m_entries ?m of [] \<Rightarrow> [] | p # _ \<Rightarrow> u_Name (cfg_at ?m p))"
    by (auto simp: Active_eq Candidates_def candidates_seen_def Let_def split: list.split)
  also have "\<dots> = m_lastActive ?m"
    by (auto simp: NewManager_def Let_def split: list.split)
  finally show ?thesis by (rule sym)
qed

section \<open>Reload keeps what is still valid\<close>

text \<open>
  C23: reload keeps the health of every upstream that is still the same server. If the new
  configuration has an upstream whose name, endpoint and protocol are those of a previous
  snapshot, its state, counters, timestamps and last error are carried over and its priority
  is the new one; an upstream that is new, or whose address or protocol changed, starts
  unknown. No attempt slot of the new manager is taken.
\<close>

theorem reload_keeps_compatible_state:
  assumes "distinct (map u_Name us)" and "distinct (map s_Name prev)" and "u \<in> set us"
  shows "\<exists>p. m_byName (NewManagerFromSnapshots us ft rt lg prev) (u_Name u) = Some p \<and>
    slots_used (u_Name u) (NewManagerFromSnapshots us ft rt lg prev) = 0 \<and>
    (\<forall>s \<in> set prev. s_Name s = u_Name u \<and> s_Endpoint s = Endpoint u \<and> s_Protocol s = u_Protocol u \<longrightarrow>
       snap_at (NewManagerFromSnapshots us ft rt lg prev) p = s\<lparr>s_Priority := u_Priority u\<rparr>) \<and>
    ((\<forall>s \<in> set prev. s_Name s = u_Name u \<longrightarrow> s_Endpoint s \<noteq> Endpoint u \<or> s_Protocol s \<noteq> u_Protocol u) \<longrightarrow>
       snap_at (NewManagerFromSnapshots us ft rt lg prev) p = e_snap (new_entry u))"
proof -
  let ?r = "NewManagerFromSnapshots us ft rt lg prev"
  from assms(3) obtain p where p: "p < length us" "us ! p = u" by (auto simp: in_set_conv_nth)
  have n: "m_byName ?r (u_Name u) = Some p" using p by (simp add: NewManager_byName assms(1))
  have fresh: "s_Endpoint (e_snap (new_entry u)) = Endpoint u" "s_Protocol (e_snap (new_entry u)) = u_Protocol u"
    "s_Priority (e_snap (new_entry u)) = u_Priority u" by (simp_all add: new_entry_def)
  have snap: "snap_at ?r p = carried (index_snapshots prev) u (e_snap (new_entry u))"
    using reloaded_at(2) [OF p(1)] p(2) by simp
  have "snap_at ?r p = s\<lparr>s_Priority := u_Priority u\<rparr>"
    if "s \<in> set prev" "s_Name s = u_Name u" "s_Endpoint s = Endpoint u" "s_Protocol s = u_Protocol u" for s
    using index_snapshots_distinct [OF assms(2) that(1)] that by (simp add: snap carried_def fresh)
  moreover have "snap_at ?r p = e_snap (new_entry u)"
    if "\<forall>s \<in> set prev. s_Name s = u_Name u \<longrightarrow> s_Endpoint s \<noteq> Endpoint u \<or> s_Protocol s \<noteq> u_Protocol u"
    using that by (auto simp: snap carried_def fresh split: option.split dest!: index_snapshots_Some)
  moreover have "slots_used (u_Name u) ?r = 0"
    using n reloaded_at(3) [OF p(1)] by (simp add: slots_used_def)
  ultimately show ?thesis using n by blast
qed

section \<open>Witnesses\<close>

definition sample_manager :: Manager where
  "sample_manager = NewManager (c_Upstreams sample_config) 3 3 True"

lemma sample_upstreams:
  "c_Upstreams sample_config =
     [sample_upstream ''primary'' 10 ''192.0.2.1'', sample_upstream ''backup'' 20 ''192.0.2.2'']"
  by (simp add: sample_config_def)

lemma sample_names: "distinct (map u_Name (c_Upstreams sample_config))"
  by (simp add: sample_upstreams sample_upstream_def)

lemma three_le_max [simp]: "3 \<le> max_int64"
  by (simp add: max_int64_def)

lemma sample_manager_inv: "mgr_inv 3 3 sample_manager"
  unfolding sample_manager_def by (rule NewManager_inv [OF sample_names]) simp_all

lemma sample_byName: "m_byName sample_manager ''primary'' = Some 0"
  by (simp add: sample_manager_def NewManager_byName [OF sample_names])
    (simp add: sample_upstreams sample_upstream_def)

definition sample_down :: Manager where
  "sample_down = mgr_run (replicate 3 (EvFailure ''primary'' ''timeout'' 5)) sample_manager"

lemma sample_down_inv: "mgr_inv 3 3 sample_down"
  unfolding sample_down_def by (rule mgr_run_inv [OF sample_manager_inv])

lemma sample_down_byName: "m_byName sample_down ''primary'' = Some 0"
  by (simp add: sample_down_def sample_byName)

lemma Candidates_strict_priority_witness:
  "map u_Name (fst (Candidates sample_down)) = [''backup''] \<and>
   sorted (map u_Priority (fst (Candidates sample_down)))"
proof
  show "map u_Name (fst (Candidates sample_down)) = [''backup'']" by code_simp
  show "sorted (map u_Priority (fst (Candidates sample_down)))"
    using Candidates_strict_priority [OF sample_down_inv, of "fst (Candidates sample_down)" "snd (Candidates sample_down)"]
    by simp
qed

lemma Active_is_best_witness: "\<exists>q. Active sample_manager = u_Name (cfg_at sample_manager q)"
proof -
  have "0 \<in> set (m_entries sample_manager)"
    by (simp add: sample_manager_def sample_upstreams)
  moreover have "eligible (StateOf sample_manager (u_Name (cfg_at sample_manager 0)))" by code_simp
  ultimately show ?thesis using Active_is_best [OF sample_manager_inv, of 0] by blast
qed

lemma attempts_bounded_witness:
  "slots_used ''primary'' (mgr_run (replicate 20 (EvBegin ''primary'')) sample_manager) \<le> 16"
  by (rule attempts_bounded [OF sample_manager_inv])

lemma BeginAttempt_iff_free_witness: "BeginAttempt ''primary'' sample_manager \<noteq> None"
proof -
  have "slots_used ''primary'' sample_manager = 0" by code_simp
  with BeginAttempt_iff_free [OF sample_manager_inv sample_byName] show ?thesis by simp
qed

lemma manager_refines_health_spec_witness:
  "abs_health (snap_at (mgr_run (replicate 2 (EvFailure ''primary'' ''timeout'' 5)) sample_manager) 0) = InService 2"
proof -
  have "fold (health_spec 3 3) (history ''primary'' (replicate 2 (EvFailure ''primary'' ''timeout'' 5)))
    (abs_health (snap_at sample_manager 0)) = InService 2" by code_simp
  moreover have "m_failThreshold sample_manager = 3" "m_recoverThreshold sample_manager = 3"
    by (simp_all add: sample_manager_def)
  ultimately show ?thesis
    using manager_refines_health_spec [OF sample_manager_inv sample_byName,
        of "replicate 2 (EvFailure ''primary'' ''timeout'' 5)"] by simp
qed

lemma consecutive_failures_take_down_witness: "StateOf sample_down ''primary'' = Down"
  unfolding sample_down_def
  by (rule consecutive_failures_take_down [OF sample_manager_inv sample_byName,
        where before = "[]" and run = "replicate 3 (HFail ''timeout'' 5)"])
    (simp_all add: numeral_3_eq_3 sample_manager_def)

lemma failover_needs_consecutive_failures_witness:
  "\<exists>pre run post. history ''primary'' (replicate 3 (EvFailure ''primary'' ''timeout'' 5)) = pre @ run @ post \<and>
     int (length run) = 3 \<and> list_all is_fail run"
proof -
  have "\<not> eligible (StateOf sample_down ''primary'')" by code_simp
  with failover_needs_consecutive_failures [OF sample_names, of 3 3 "sample_upstream ''primary'' 10 ''192.0.2.1''"
      "replicate 3 (EvFailure ''primary'' ''timeout'' 5)" True]
  show ?thesis
    by (simp add: sample_down_def sample_manager_def sample_upstreams)
      (simp add: sample_upstream_def)
qed

lemma recovery_needs_probe_successes_witness:
  "\<not> eligible (StateOf (mgr_run (replicate 5 (EvSuccess ''primary'' False 1 6)) sample_down) ''primary'') \<and>
   eligible (StateOf (mgr_run (replicate 3 (EvSuccess ''primary'' True 1 6)) sample_down) ''primary'')"
proof -
  have d: "StateOf sample_down ''primary'' = Down" by code_simp
  have t: "m_recoverThreshold sample_down = 3" by (simp add: sample_down_def sample_manager_def)
  have "probe_oks (history ''primary'' (replicate 5 (EvSuccess ''primary'' False 1 6))) = 0"
    "list_all (\<lambda>e. \<not> is_fail e) (history ''primary'' (replicate 5 (EvSuccess ''primary'' False 1 6)))"
    "probe_oks (history ''primary'' (replicate 3 (EvSuccess ''primary'' True 1 6))) = 3"
    "list_all (\<lambda>e. \<not> is_fail e) (history ''primary'' (replicate 3 (EvSuccess ''primary'' True 1 6)))"
    by code_simp+
  with d t recovery_needs_probe_successes [OF sample_down_inv sample_down_byName] show ?thesis by simp
qed

lemma reload_keeps_compatible_state_witness:
  "StateOf (NewManagerFromSnapshots (c_Upstreams sample_config) 5 5 True (Snapshots sample_down)) ''primary'' = Down"
proof -
  let ?u = "sample_upstream ''primary'' 10 ''192.0.2.1''" and ?s = "snap_at sample_down 0"
  have d: "distinct (map s_Name (Snapshots sample_down))" by code_simp
  have u: "?u \<in> set (c_Upstreams sample_config)" "u_Name ?u = ''primary''"
    by (simp_all add: sample_upstreams sample_upstream_def)
  have "?s \<in> set (Snapshots sample_down)"
    by (simp add: Snapshots_eq sample_down_def sample_manager_def sample_upstreams)
  moreover have "s_Name ?s = u_Name ?u" "s_Endpoint ?s = Endpoint ?u" "s_Protocol ?s = u_Protocol ?u"
    "s_State ?s = Down" by code_simp+
  ultimately show ?thesis
    using reload_keeps_compatible_state [OF sample_names d u(1), of 5 5 True]
    by (auto simp: StateOf_def u(2))
qed

end
