(* ===== verification/Exchange.thy ===== *)
theory Exchange
  imports Failover
begin

text \<open>
  \<open>internal/upstream/exchange.go\<close>: one query to one upstream, with the retry over TCP and the
  validation of the reply. The DNS library \<open>github.com/miekg/dns\<close> is not part of the repository;
  what the code uses of it is a record of parameters (\<open>dns_lib\<close>) and the behaviour of its client
  on the network is a function argument (\<open>client\<close>). The interface \<open>upstream.Exchanger\<close> of the source
  is the locale \<open>exchanger\<close>.
\<close>

section \<open>Messages and the DNS library\<close>

text \<open>The fields of \<open>dns.Msg\<close> that the program reads; \<open>d_Rest\<close> is everything else of a message.\<close>

record question =
  q_Name :: string
  q_Qtype :: int
  q_Qclass :: int

record dns_msg =
  d_Id :: int
  d_Response :: bool
  d_Truncated :: bool
  d_Rcode :: int
  d_Question :: "question list"
  d_Rest :: string

record dns_lib =
  l_Fqdn :: "string \<Rightarrow> string"
  l_Copy :: "dns_msg \<Rightarrow> dns_msg"
  l_SetQuestion :: "int \<Rightarrow> string \<Rightarrow> int \<Rightarrow> dns_msg"
  l_SetRcode :: "dns_msg \<Rightarrow> int \<Rightarrow> dns_msg"
  l_RcodeToString :: "int \<Rightarrow> string"
  l_FormatError :: int
  l_ServerFailure :: int
  l_Refused :: int

text \<open>
  \<open>Client.ExchangeContext\<close>: given the time the context leaves, the network, the endpoint and the
  query, a reply (or nil), a round-trip time and an error (or nil).
\<close>

type_synonym client = "duration \<Rightarrow> string \<Rightarrow> string \<Rightarrow> dns_msg \<Rightarrow> dns_msg option \<times> duration \<times> string option"

datatype xresult = XResult "dns_msg option" duration "string option" | XPanic

section \<open>Validation of a reply\<close>

definition equalName :: "dns_lib \<Rightarrow> string \<Rightarrow> string \<Rightarrow> bool" where
  "equalName L a b = equal_fold (l_Fqdn L a) (l_Fqdn L b)"

fun questions_match :: "dns_lib \<Rightarrow> question list \<Rightarrow> question list \<Rightarrow> bool" where
  "questions_match L (want # ws) (got # gs) =
     (if \<not> equalName L (q_Name want) (q_Name got) \<or> q_Qtype want \<noteq> q_Qtype got \<or> q_Qclass want \<noteq> q_Qclass got
      then False else questions_match L ws gs)"
| "questions_match L _ _ = True"

definition ValidateResponse :: "dns_lib \<Rightarrow> dns_msg \<Rightarrow> dns_msg option \<Rightarrow> string option" where
  "ValidateResponse L request response =
     (case response of
        None \<Rightarrow> Some ''nil DNS response''
      | Some r \<Rightarrow>
          if \<not> d_Response r then Some ''DNS packet is not a response''
          else if d_Id r \<noteq> d_Id request then
            Some (''transaction ID mismatch: got '' @ itoa (d_Id r) @ '', want '' @ itoa (d_Id request))
          else if length (d_Question r) \<noteq> length (d_Question request) then Some ''question count mismatch''
          else if \<not> questions_match L (d_Question request) (d_Question r) then Some ''question mismatch''
          else None)"

section \<open>The exchange\<close>

definition exchange ::
  "dns_lib \<Rightarrow> client \<Rightarrow> duration \<Rightarrow> string \<Rightarrow> string \<Rightarrow> dns_msg \<Rightarrow>
   dns_msg option \<times> duration \<times> string option" where
  "exchange L client ctx network endpoint request =
     (case client ctx network endpoint (l_Copy L request) of
        (response, rtt, None) \<Rightarrow> (response, rtt, None)
      | (response, rtt, Some e) \<Rightarrow>
          (None, rtt, Some (network @ '' exchange with '' @ endpoint @ '': '' @ e)))"

definition validated :: "dns_lib \<Rightarrow> dns_msg \<Rightarrow> dns_msg option \<Rightarrow> duration \<Rightarrow> xresult" where
  "validated L request response rtt =
     (case ValidateResponse L request response of
        Some e \<Rightarrow> XResult None rtt (Some e)
      | None \<Rightarrow> XResult response rtt None)"

text \<open>
  \<open>DNSExchanger.Exchange\<close>. Reading \<open>Truncated\<close> of a nil reply that came with a nil error would
  panic; the library documents that it does not return such a pair.
\<close>

definition Exchange :: "dns_lib \<Rightarrow> client \<Rightarrow> duration \<Rightarrow> Upstream \<Rightarrow> dns_msg \<Rightarrow> xresult" where
  "Exchange L client ctx u request =
     (case exchange L client ctx (u_Protocol u) (Endpoint u) request of
        (_, rtt, Some e) \<Rightarrow> XResult None rtt (Some e)
      | (response, rtt, None) \<Rightarrow>
          if u_Protocol u = ''udp'' then
            (case response of
               None \<Rightarrow> XPanic
             | Some r \<Rightarrow>
                 if d_Truncated r then
                   (case exchange L client ctx ''tcp'' (Endpoint u) request of
                      (_, rtt', Some e) \<Rightarrow>
                        XResult None rtt' (Some (''TCP retry after truncated UDP response: '' @ e))
                    | (response', rtt', None) \<Rightarrow> validated L request response' rtt')
                 else validated L request response rtt)
          else validated L request response rtt)"

section \<open>What a valid reply is\<close>

definition same_question :: "dns_lib \<Rightarrow> question \<Rightarrow> question \<Rightarrow> bool" where
  "same_question L want got \<longleftrightarrow>
     equalName L (q_Name want) (q_Name got) \<and> q_Qtype want = q_Qtype got \<and> q_Qclass want = q_Qclass got"

definition valid_reply :: "dns_lib \<Rightarrow> dns_msg \<Rightarrow> dns_msg \<Rightarrow> bool" where
  "valid_reply L request r \<longleftrightarrow>
     d_Response r \<and> d_Id r = d_Id request \<and>
     list_all2 (same_question L) (d_Question request) (d_Question r)"

lemma questions_match_list_all2:
  "length ws = length gs \<Longrightarrow> questions_match L ws gs \<longleftrightarrow> list_all2 (same_question L) ws gs"
  by (induction ws gs rule: list_induct2) (auto simp: same_question_def)

lemma ValidateResponse_None:
  "ValidateResponse L request response = None \<longleftrightarrow> (\<exists>r. response = Some r \<and> valid_reply L request r)"
  by (cases response)
    (auto simp: ValidateResponse_def valid_reply_def questions_match_list_all2 list_all2_lengthD
      dest: list_all2_lengthD)

text \<open>
  A reply is accepted exactly when it is a response, carries the transaction identifier of
  the query, and repeats the query's questions one by one (names up to case, types and
  classes exactly).
\<close>

lemma ValidateResponse_iff:
  "ValidateResponse L request (Some r) = None \<longleftrightarrow> valid_reply L request r"
  by (simp add: ValidateResponse_None)

section \<open>Interface: upstream.Exchanger\<close>

text \<open>
  What the resolver and the probe scheduler rely on: an exchange that reports no error hands
  back a message that is valid for the query, and one that reports an error hands back none.
  \<open>net\<close> is whatever the exchanger depends on beside its arguments.
\<close>

locale exchanger =
  fixes xchg :: "'net \<Rightarrow> duration \<Rightarrow> Upstream \<Rightarrow> dns_msg \<Rightarrow> xresult"
    and good :: "dns_msg \<Rightarrow> dns_msg \<Rightarrow> bool"
  assumes ok_good: "xchg net t u request = XResult response rtt None \<Longrightarrow>
      \<exists>r. response = Some r \<and> good request r"
    and error_nil: "xchg net t u request = XResult response rtt (Some e) \<Longrightarrow> response = None"
begin

lemma response_good: "xchg net t u request = XResult (Some r) rtt err \<Longrightarrow> err = None \<and> good request r"
  using ok_good [of net t u request "Some r" rtt] error_nil [of net t u request "Some r" rtt]
  by (cases err) auto

end

lemma validated_cases:
  assumes "validated L request response rtt = XResult response' rtt' err"
  shows "err = None \<and> (\<exists>r. response' = Some r \<and> response = Some r \<and> valid_reply L request r) \<or>
    err \<noteq> None \<and> response' = None"
  using assms ValidateResponse_None [of L request response]
  by (cases "ValidateResponse L request response") (auto simp: validated_def)

lemma Exchange_cases:
  assumes "Exchange L client ctx u request = XResult response rtt err"
  shows "err = None \<and> (\<exists>r. response = Some r \<and> valid_reply L request r) \<or> err \<noteq> None \<and> response = None"
  using assms validated_cases
  by (fastforce simp: Exchange_def split: prod.splits option.splits if_splits)

interpretation dnsx: exchanger "Exchange L" "valid_reply L" for L
  by unfold_locales (auto dest!: Exchange_cases)

text \<open>
  What the DNS library documents of its client: without an error there is a reply.
\<close>

definition client_ok :: "client \<Rightarrow> bool" where
  "client_ok client \<longleftrightarrow> (\<forall>ctx network endpoint q rtt. client ctx network endpoint q \<noteq> (None, rtt, None))"

lemma Exchange_no_panic:
  assumes "client_ok client"
  shows "Exchange L client t u q \<noteq> XPanic"
proof -
  have "client t (u_Protocol u) (Endpoint u) (l_Copy L q) \<noteq> (None, rtt, None)" for rtt
    using assms by (simp add: client_ok_def)
  then show ?thesis
    by (auto simp: Exchange_def exchange_def validated_def split: prod.splits option.splits)
qed

section \<open>Usable replies\<close>

text \<open>
  The two response codes that the resolver and the prober treat as a failure of the upstream to
  answer, and when the outcome of an exchange is an answer.
\<close>

definition transient :: "dns_lib \<Rightarrow> int \<Rightarrow> bool" where
  "transient L rcode \<longleftrightarrow> rcode = l_ServerFailure L \<or> rcode = l_Refused L"

definition answers :: "dns_lib \<Rightarrow> xresult \<Rightarrow> bool" where
  "answers L x \<longleftrightarrow> (case x of XResult (Some r) lat None \<Rightarrow> \<not> transient L (d_Rcode r) | _ \<Rightarrow> False)"

section \<open>Correctness of the exchange\<close>

text \<open>
  C29: what the exchanger returns is safe to hand to a client: with no error there is a reply and
  it is valid for the query; with an error there is no reply.
\<close>

theorem Exchange_validated:
  assumes "Exchange L client ctx u request = XResult response rtt err"
  shows "(err = None \<longleftrightarrow> response \<noteq> None) \<and> (\<forall>r. response = Some r \<longrightarrow> valid_reply L request r)"
  using Exchange_cases [OF assms] by auto

text \<open>
  A truncated reply is never taken from UDP. If a UDP upstream's exchange yields a message
  with the truncation bit, then it came from a second exchange over TCP with the same
  endpoint, made because the UDP reply was truncated.
\<close>

lemma truncated_reply_from_tcp:
  assumes "Exchange L client ctx u request = XResult (Some r) rtt err"
    and "u_Protocol u = ''udp''" and "d_Truncated r"
  shows "\<exists>r0. client ctx ''udp'' (Endpoint u) (l_Copy L request) = (Some r0, fst (snd (client ctx ''udp'' (Endpoint u) (l_Copy L request))), None) \<and>
    d_Truncated r0 \<and> client ctx ''tcp'' (Endpoint u) (l_Copy L request) = (Some r, rtt, None)"
  using assms
  by (auto simp: Exchange_def exchange_def validated_def split: prod.splits option.splits if_splits)

section \<open>Witnesses\<close>

text \<open>
  A concrete library in which names are compared as written and error codes are those of
  RFC 1035, and a client that answers every query.
\<close>

definition sample_lib :: dns_lib where
  "sample_lib =
     \<lparr>l_Fqdn = (\<lambda>s. if has_suffix s ''.'' then s else s @ ''.''),
      l_Copy = (\<lambda>m. m),
      l_SetQuestion = (\<lambda>i n t. \<lparr>d_Id = i, d_Response = False, d_Truncated = False, d_Rcode = 0,
        d_Question = [\<lparr>q_Name = n, q_Qtype = t, q_Qclass = 1\<rparr>], d_Rest = []\<rparr>),
      l_SetRcode = (\<lambda>m rc. m\<lparr>d_Response := True, d_Rcode := rc\<rparr>),
      l_RcodeToString = itoa,
      l_FormatError = 1, l_ServerFailure = 2, l_Refused = 5\<rparr>"

definition sample_query :: dns_msg where
  "sample_query = l_SetQuestion sample_lib 7 ''example.com.'' 1"

definition answering :: "bool \<Rightarrow> int \<Rightarrow> client" where
  "answering truncated rcode ctx network endpoint query =
     (Some (query\<lparr>d_Response := True, d_Rcode := rcode, d_Truncated := truncated\<rparr>), 3, None)"

definition failing :: client where
  "failing ctx network endpoint query = (None, 3, Some ''timeout'')"

lemma Exchange_validated_witness:
  "\<exists>r. Exchange sample_lib (answering False 0) 9 (sample_upstream ''primary'' 10 ''192.0.2.1'') sample_query =
     XResult (Some r) 3 None \<and> valid_reply sample_lib sample_query r"
proof -
  obtain r where r: "Exchange sample_lib (answering False 0) 9 (sample_upstream ''primary'' 10 ''192.0.2.1'') sample_query =
    XResult (Some r) 3 None"
    by (simp add: Exchange_def exchange_def validated_def ValidateResponse_def answering_def
        sample_lib_def sample_query_def sample_upstream_def equalName_def equal_fold_def)
  from Exchange_validated [OF r] r show ?thesis by blast
qed

lemma truncated_reply_from_tcp_witness:
  "\<exists>r rtt. Exchange sample_lib (answering True 0) 9 (sample_upstream ''primary'' 10 ''192.0.2.1'') sample_query =
     XResult (Some r) rtt None \<and>
   answering True 0 9 ''tcp'' (Endpoint (sample_upstream ''primary'' 10 ''192.0.2.1'')) sample_query = (Some r, rtt, None)"
proof -
  obtain r where r: "Exchange sample_lib (answering True 0) 9 (sample_upstream ''primary'' 10 ''192.0.2.1'') sample_query =
    XResult (Some r) 3 None" and t: "d_Truncated r"
    by (simp add: Exchange_def exchange_def validated_def ValidateResponse_def answering_def
        sample_lib_def sample_query_def sample_upstream_def equalName_def equal_fold_def)
  have "u_Protocol (sample_upstream ''primary'' 10 ''192.0.2.1'') = ''udp''"
    by (simp add: sample_upstream_def)
  from truncated_reply_from_tcp [OF r this t] r show ?thesis
    by (auto simp: sample_lib_def)
qed

end
