(* ===== verification/Runtimecfg.thy ===== *)
theory Runtimecfg
  imports Exchange
begin

text \<open>
  \<open>internal/runtimecfg/store.go\<close>: the runtime snapshot (configuration, manager, limit of concurrent
  requests) and the store that swaps it atomically. A snapshot is reached through a pointer,
  and requests in flight keep the pointer they loaded, so the store keeps all snapshots ever
  published (\<open>st_heap\<close>) and the position of the current one.
\<close>

section \<open>The data\<close>

record Runtime =
  r_Config :: Config
  r_Manager :: Manager
  r_Limit :: chan

text \<open>The status document shows the reload status with its times in a zone, so the time is a parameter.\<close>

record 'tm reload_status =
  rs_Count :: nat
  rs_LastAt :: 'tm
  rs_LastError :: string

type_synonym ReloadStatus = "time reload_status"

record Store =
  st_heap :: "Runtime list"
  st_current :: nat
  st_count :: nat
  st_lastAt :: time
  st_lastErr :: string

section \<open>The operations\<close>

text \<open>\<open>make(chan struct{}, n)\<close> panics on a negative size; validated configurations have none.\<close>

definition newSnapshot :: "Config \<Rightarrow> Manager \<Rightarrow> Runtime" where
  "newSnapshot cfg manager =
     \<lparr>r_Config = cfg, r_Manager = manager, r_Limit = make_chan (nat (c_MaxConcurrent cfg))\<rparr>"

definition NewStore :: "Config \<Rightarrow> Manager \<Rightarrow> Store" where
  "NewStore cfg manager =
     \<lparr>st_heap = [newSnapshot cfg manager], st_current = 0, st_count = 0, st_lastAt = 0, st_lastErr = []\<rparr>"

definition LoadRuntime :: "Store \<Rightarrow> Runtime" where
  "LoadRuntime s = st_heap s ! st_current s"

text \<open>The reload counter is an atomic \<open>uint64\<close>.\<close>

definition Update :: "Config \<Rightarrow> Manager \<Rightarrow> time \<Rightarrow> Store \<Rightarrow> Store" where
  "Update cfg manager now s =
     s\<lparr>st_heap := st_heap s @ [newSnapshot cfg manager],
       st_current := length (st_heap s),
       st_count := (st_count s + 1) mod 2 ^ 64,
       st_lastAt := now,
       st_lastErr := []\<rparr>"

definition RecordReloadError :: "string \<Rightarrow> time \<Rightarrow> Store \<Rightarrow> Store" where
  "RecordReloadError err now s = s\<lparr>st_lastAt := now, st_lastErr := err\<rparr>"

definition ReloadStatusOf :: "Store \<Rightarrow> ReloadStatus" where
  "ReloadStatusOf s = \<lparr>rs_Count = st_count s, rs_LastAt = st_lastAt s, rs_LastError = st_lastErr s\<rparr>"

datatype reload_problem = ListenChanged string int string int | StatusSocketChanged

definition ValidateReload :: "Config \<Rightarrow> Config \<Rightarrow> reload_problem list" where
  "ValidateReload current next =
     (if c_ListenAddr current \<noteq> c_ListenAddr next \<or> c_ListenPort current \<noteq> c_ListenPort next
      then [ListenChanged (c_ListenAddr current) (c_ListenPort current) (c_ListenAddr next) (c_ListenPort next)]
      else []) @
     (if c_StatusSocket current \<noteq> c_StatusSocket next then [StatusSocketChanged] else [])"

text \<open>The text of the error; \<open>errors.Join\<close> puts each on its own line.\<close>

fun reload_problem_text :: "reload_problem \<Rightarrow> string" where
  "reload_problem_text (ListenChanged a p a' p') =
     ''listen address change from '' @ a @ '':'' @ itoa p @ '' to '' @ a' @ '':'' @ itoa p' @ '' requires restart''"
| "reload_problem_text StatusSocketChanged = ''status_socket change requires restart''"

section \<open>Publishing is atomic\<close>

definition store_ok :: "Store \<Rightarrow> bool" where
  "store_ok s \<longleftrightarrow> st_current s < length (st_heap s)"

lemma NewStore_ok [simp]: "store_ok (NewStore cfg m)"
  by (simp add: store_ok_def NewStore_def)

lemma LoadRuntime_NewStore [simp]: "LoadRuntime (NewStore cfg m) = newSnapshot cfg m"
  by (simp add: LoadRuntime_def NewStore_def)

lemma Update_ok [simp]: "store_ok (Update cfg m t s)"
  by (simp add: store_ok_def Update_def)

lemma LoadRuntime_Update [simp]: "LoadRuntime (Update cfg m t s) = newSnapshot cfg m"
  by (simp add: LoadRuntime_def Update_def)

lemma RecordReloadError_frame [simp]:
  "st_heap (RecordReloadError e t s) = st_heap s" "st_current (RecordReloadError e t s) = st_current s"
  "LoadRuntime (RecordReloadError e t s) = LoadRuntime s" "store_ok (RecordReloadError e t s) = store_ok s"
  by (simp_all add: RecordReloadError_def LoadRuntime_def store_ok_def)

lemma newSnapshot_simps [simp]:
  "r_Config (newSnapshot cfg m) = cfg" "r_Manager (newSnapshot cfg m) = m"
  "ch_len (r_Limit (newSnapshot cfg m)) = 0" "ch_cap (r_Limit (newSnapshot cfg m)) = nat (c_MaxConcurrent cfg)"
  by (simp_all add: newSnapshot_def)

text \<open>
  A reload publishes configuration, manager and limit together and disturbs nobody: after
  \<open>Update\<close>, a load returns exactly the new configuration with the new manager and an empty limit
  of the new size, every snapshot a request may still hold is unchanged, and the status
  counts one more reload and shows no error.
\<close>

lemma Update_atomic:
  assumes "Suc (st_count s) < 2 ^ 64"
  shows "r_Config (LoadRuntime (Update cfg m t s)) = cfg \<and> r_Manager (LoadRuntime (Update cfg m t s)) = m \<and>
    ch_len (r_Limit (LoadRuntime (Update cfg m t s))) = 0 \<and>
    (\<forall>i < length (st_heap s). st_heap (Update cfg m t s) ! i = st_heap s ! i) \<and>
    ReloadStatusOf (Update cfg m t s) = \<lparr>rs_Count = Suc (st_count s), rs_LastAt = t, rs_LastError = []\<rparr>"
proof -
  have "(st_count s + 1) mod 2 ^ 64 = Suc (st_count s)" using assms by simp
  then show ?thesis by (simp add: ReloadStatusOf_def Update_def nth_append LoadRuntime_def)
qed

text \<open>Reload validation refuses exactly the changes that need a restart.\<close>

lemma ValidateReload_iff:
  "ValidateReload current next = [] \<longleftrightarrow>
   c_ListenAddr next = c_ListenAddr current \<and> c_ListenPort next = c_ListenPort current \<and>
   c_StatusSocket next = c_StatusSocket current"
  by (auto simp: ValidateReload_def)

lemma Update_atomic_witness:
  "r_Config (LoadRuntime (Update sample_config sample_manager 9 (NewStore sample_config sample_manager))) = sample_config"
  using Update_atomic [of "NewStore sample_config sample_manager" sample_config sample_manager 9]
  by (simp add: NewStore_def)

section \<open>Interface: the limit of concurrent requests\<close>

definition enter :: "Runtime \<Rightarrow> Runtime option" where
  "enter rt = (case chan_send (r_Limit rt) of None \<Rightarrow> None | Some c \<Rightarrow> Some (rt\<lparr>r_Limit := c\<rparr>))"

definition leave :: "Runtime \<Rightarrow> Runtime option" where
  "leave rt = (case chan_recv (r_Limit rt) of None \<Rightarrow> None | Some c \<Rightarrow> Some (rt\<lparr>r_Limit := c\<rparr>))"

interpretation limit: bounded_channel "\<lambda>_. True" "\<lambda>rt. ch_len (r_Limit rt)" "\<lambda>rt. ch_cap (r_Limit rt)" enter leave
  by unfold_locales (auto simp: enter_def leave_def chan_simps split: option.splits)

end
