(* ===== verification/GoTime.thy ===== *)
theory GoTime
  imports GoText
begin

text \<open>
  The part of Go's package \<open>time\<close> that the status document goes through: an instant is written as
  RFC 3339 text with nanoseconds (\<open>Time.MarshalJSON\<close>) and read back (\<open>Time.UnmarshalJSON\<close>). An instant
  is its count of nanoseconds since the zero time, January 1 of year 1 in UTC. A \<open>Time\<close> is an instant
  with the offset of its location there, in seconds east of UTC: writing uses that offset, and
  reading keeps the one of the text.
\<close>

type_synonym stamp = "time \<times> int"

section \<open>The calendar\<close>

definition is_leap :: "int \<Rightarrow> bool" where
  "is_leap y \<longleftrightarrow> y mod 4 = 0 \<and> (y mod 100 \<noteq> 0 \<or> y mod 400 = 0)"

definition month_lengths :: "int \<Rightarrow> int list" where
  "month_lengths y = [31, if is_leap y then 29 else 28, 31, 30, 31, 30, 31, 31, 30, 31, 30, 31]"

text \<open>Days from January 1 of year 1 to January 1 of year \<open>y\<close>.\<close>

definition days_before_year :: "int \<Rightarrow> int" where
  "days_before_year y = 365 * (y - 1) + (y - 1) div 4 - (y - 1) div 100 + (y - 1) div 400"

text \<open>The number of whole months in \<open>d\<close> days, and the days that are left.\<close>

fun split_months :: "int list \<Rightarrow> int \<Rightarrow> nat \<times> int" where
  "split_months [] d = (0, d)"
| "split_months (n # ns) d =
     (if d < n then (0, d) else let (m, r) = split_months ns (d - n) in (Suc m, r))"

text \<open>
  The year and the day of the year of a day: cycles of 400, 100, 4 years and 1 year; the last
  century of a cycle and the last year of four are a day longer.
\<close>

definition year_day :: "int \<Rightarrow> int \<times> int" where
  "year_day d =
     (let r = d mod 146097; b = min 3 (r div 36524); r1 = r - 36524 * b;
          r2 = r1 mod 1461; e = min 3 (r2 div 365)
      in (400 * (d div 146097) + 100 * b + 4 * (r1 div 1461) + e + 1, r2 - 365 * e))"

definition civil_date :: "int \<Rightarrow> int \<times> int \<times> int" where
  "civil_date d =
     (let (y, yday) = year_day d; (m, r) = split_months (month_lengths y) yday
      in (y, int m + 1, r + 1))"

definition date_days :: "int \<Rightarrow> int \<Rightarrow> int \<Rightarrow> int" where
  "date_days y m d = days_before_year y + sum_list (take (nat (m - 1)) (month_lengths y)) + (d - 1)"

section \<open>Writing\<close>

fun digits :: "nat \<Rightarrow> int \<Rightarrow> string" where
  "digits 0 x = []"
| "digits (Suc n) x = digits n (x div 10) @ [digit_char (x mod 10)]"

definition trim_zeros :: "string \<Rightarrow> string" where
  "trim_zeros s = rev (dropWhile (\<lambda>c. c = CHR ''0'') (rev s))"

definition fraction_text :: "int \<Rightarrow> string" where
  "fraction_text ns = (if ns = 0 then [] else CHR ''.'' # trim_zeros (digits 9 ns))"

definition zone_text :: "int \<Rightarrow> string" where
  "zone_text off =
     (if off = 0 then ''Z''
      else let z = go_div off 60 in
        (if z < 0 then CHR ''-'' else CHR ''+'') # digits 2 (\<bar>z\<bar> div 60) @ '':'' @ digits 2 (\<bar>z\<bar> mod 60))"

text \<open>
  \<open>Time.MarshalJSON\<close> without the quotes: \<^const>\<open>None\<close> is its error for a year outside of 0 to
  9999 or a zone of a day or more.
\<close>

definition format_rfc3339 :: "int \<Rightarrow> time \<Rightarrow> string option" where
  "format_rfc3339 off t =
     (let l = t + off * second; secs = l div second; tod = secs mod 86400;
          (y, m, d) = civil_date (secs div 86400)
      in if y < 0 \<or> 9999 < y \<or> 24 \<le> \<bar>go_div off 60\<bar> div 60 then None
         else Some (digits 4 y @ ''-'' @ digits 2 m @ ''-'' @ digits 2 d @ ''T'' @
           digits 2 (tod div 3600) @ '':'' @ digits 2 (tod div 60 mod 60) @ '':'' @ digits 2 (tod mod 60) @
           fraction_text (l mod second) @ zone_text off))"

section \<open>Reading\<close>

text \<open>
  \<open>Parse\<close> with the layout of RFC 3339. \<open>getnum\<close> reads two digits, or one when the layout allows it
  (the hour); a fraction starts with a point or a comma and its digits after the ninth are
  dropped.
\<close>

definition getnum :: "bool \<Rightarrow> string \<Rightarrow> (int \<times> string) option" where
  "getnum fixed s =
     (case s of
        [] \<Rightarrow> None
      | c # cs \<Rightarrow>
          if \<not> is_digit c then None
          else case cs of
              d # ds \<Rightarrow>
                if is_digit d then Some (10 * digit_val c + digit_val d, ds)
                else if fixed then None else Some (digit_val c, cs)
            | [] \<Rightarrow> if fixed then None else Some (digit_val c, cs))"

definition getyear :: "string \<Rightarrow> (int \<times> string) option" where
  "getyear s =
     (if length s < 4 \<or> \<not> list_all is_digit (take 4 s) then None else Some (read_dec (take 4 s), drop 4 s))"

definition getchar :: "char \<Rightarrow> string \<Rightarrow> string option" where
  "getchar c s = (case s of [] \<Rightarrow> None | x # xs \<Rightarrow> if x = c then Some xs else None)"

definition getfraction :: "string \<Rightarrow> int \<times> string" where
  "getfraction s =
     (case s of
        c # d # r \<Rightarrow>
          if (c = CHR ''.'' \<or> c = CHR '','') \<and> is_digit d then
            let ds = takeWhile is_digit (d # r); nine = take 9 ds
            in (read_dec nine * 10 ^ (9 - length nine), dropWhile is_digit (d # r))
          else (0, s)
      | _ \<Rightarrow> (0, s))"

definition getzone :: "string \<Rightarrow> (int \<times> string) option" where
  "getzone s =
     (case s of
        [] \<Rightarrow> None
      | c # cs \<Rightarrow>
          if c = CHR ''Z'' then Some (0, cs)
          else if c \<noteq> CHR ''+'' \<and> c \<noteq> CHR ''-'' then None
          else Option.bind (getnum True cs) (\<lambda>(hh, s1).
            Option.bind (getchar (CHR '':'') s1) (\<lambda>s2.
            Option.bind (getnum True s2) (\<lambda>(mm, s3).
              if 24 < hh \<or> 60 < mm then None
              else let off = (hh * 60 + mm) * 60 in Some (if c = CHR ''-'' then - off else off, s3)))))"

definition parse_rfc3339 :: "string \<Rightarrow> stamp option" where
  "parse_rfc3339 s =
     Option.bind (getyear s) (\<lambda>(y, s).
     Option.bind (getchar (CHR ''-'') s) (\<lambda>s.
     Option.bind (getnum True s) (\<lambda>(m, s).
     Option.bind (getchar (CHR ''-'') s) (\<lambda>s.
     Option.bind (getnum True s) (\<lambda>(d, s).
     Option.bind (getchar (CHR ''T'') s) (\<lambda>s.
     Option.bind (getnum False s) (\<lambda>(hh, s).
     Option.bind (getchar (CHR '':'') s) (\<lambda>s.
     Option.bind (getnum True s) (\<lambda>(mm, s).
     Option.bind (getchar (CHR '':'') s) (\<lambda>s.
     Option.bind (getnum True s) (\<lambda>(ss, s).
     let (ns, s) = getfraction s in
     Option.bind (getzone s) (\<lambda>(off, s).
       if s \<noteq> [] \<or> m < 1 \<or> 12 < m \<or> 24 \<le> hh \<or> 60 \<le> mm \<or> 60 \<le> ss then None
       else if d < 1 \<or> month_lengths y ! nat (m - 1) < d then None
       else Some ((date_days y m d * 86400 + hh * 3600 + mm * 60 + ss - off) * second + ns, off)))))))))))))"

section \<open>What is written is read back\<close>

lemma split_months_spec:
  assumes "split_months ns d = (m, r)" and "0 \<le> d" and "d < sum_list ns"
  shows "m < length ns \<and> 0 \<le> r \<and> r < ns ! m \<and> d = sum_list (take m ns) + r"
  using assms
proof (induction ns arbitrary: d m)
  case (Cons n ns)
  show ?case
  proof (cases "d < n")
    case False
    obtain m' where m': "split_months ns (d - n) = (m', r)" and "m = Suc m'"
      using Cons.prems(1) False by (auto split: prod.splits)
    moreover have "m' < length ns \<and> 0 \<le> r \<and> r < ns ! m' \<and> d - n = sum_list (take m' ns) + r"
      using Cons.IH [OF m'] Cons.prems False by simp
    ultimately show ?thesis by simp
  qed (use Cons.prems in auto)
qed simp

lemma year_length: "sum_list (month_lengths y) = (if is_leap y then 366 else 365)"
  by (simp add: month_lengths_def)

lemma year_day_days:
  assumes "year_day d = (y, yday)"
  shows "days_before_year y + yday = d" "0 \<le> yday" "yday < sum_list (month_lengths y)"
proof -
  define r where "r = d mod 146097"
  define a where "a = d div 146097"
  define b where "b = min 3 (r div 36524)"
  define r1 where "r1 = r - 36524 * b"
  define c where "c = r1 div 1461"
  define r2 where "r2 = r1 mod 1461"
  define e where "e = min 3 (r2 div 365)"
  have y: "y = 400 * a + 100 * b + 4 * c + e + 1" and yday: "yday = r2 - 365 * e"
    using assms unfolding year_day_def Let_def a_def r_def b_def r1_def c_def r2_def e_def by auto
  have r: "0 \<le> r" "r < 146097" "d = 146097 * a + r" by (simp_all add: r_def a_def)
  have b: "0 \<le> b" "b \<le> 3" "0 \<le> r1" "r1 < 36525" "b < 3 \<longrightarrow> r1 < 36524"
    using r unfolding r1_def b_def by (auto simp: min_def)
  have r1: "r1 = 1461 * c + r2" "0 \<le> r2" "r2 < 1461" by (simp_all add: c_def r2_def)
  have c: "0 \<le> c" "c \<le> 24" using b r1 by linarith+
  have e: "0 \<le> e" "e \<le> 3" "0 \<le> yday" "yday < 366" "e < 3 \<longrightarrow> yday < 365"
    using r1 unfolding yday e_def by (auto simp: min_def)
  have q: "(y - 1) div 4 = 100 * a + 25 * b + c" "(y - 1) div 100 = 4 * a + b" "(y - 1) div 400 = a"
    using b c e unfolding y by linarith+
  show "days_before_year y + yday = d"
    using r(3) r1(1) unfolding days_before_year_def q by (simp add: y yday r1_def)
  show "0 \<le> yday" by (rule e)
  have "yday < 365" if "\<not> is_leap y"
  proof (cases "e = 3")
    case True
    then have y4: "y = 400 * a + 100 * b + 4 * c + 4" using y by simp
    have "c = 24 \<and> b < 3"
    proof (rule ccontr)
      assume *: "\<not> ?thesis"
      have "y mod 4 = 0" unfolding y4 by (simp add: mod_eq_0_iff_dvd)
      moreover have "y mod 100 \<noteq> 0 \<or> y mod 400 = 0"
      proof (cases "c = 24")
        case True
        with * b have "b = 3" by simp
        with True y4 have "y = 400 * (a + 1)" by simp
        then show ?thesis by simp
      next
        case False
        then have y100: "y = (4 * c + 4) + 100 * (4 * a + b)" "0 < 4 * c + 4" "4 * c + 4 < 100" using y4 c by auto
        then have "y mod 100 = 4 * c + 4" by (simp only: mod_mult_self2 mod_pos_pos_trivial less_imp_le)
        with y100(2) show ?thesis by simp
      qed
      ultimately show False using that by (simp add: is_leap_def)
    qed
    then have "r2 < 1460" using b(5) r1(1) by linarith
    then show ?thesis using True yday by simp
  qed (use e in auto)
  with e(4) show "yday < sum_list (month_lengths y)" unfolding year_length by auto
qed

lemma civil_date_days:
  assumes "civil_date d = (y, m, dd)"
  shows "date_days y m dd = d" "1 \<le> m" "m \<le> 12" "1 \<le> dd" "dd \<le> month_lengths y ! nat (m - 1)"
proof -
  obtain yday where yd: "year_day d = (y, yday)" using assms by (auto simp: civil_date_def split: prod.splits)
  obtain k r where kr: "split_months (month_lengths y) yday = (k, r)" by (cases "split_months (month_lengths y) yday")
  have m: "m = int k + 1" "dd = r + 1" using assms yd kr by (auto simp: civil_date_def)
  note s = split_months_spec [OF kr year_day_days(2,3) [OF yd]]
  show "date_days y m dd = d" using s year_day_days(1) [OF yd] by (simp add: date_days_def m)
  show "1 \<le> m" "m \<le> 12" "1 \<le> dd" "dd \<le> month_lengths y ! nat (m - 1)"
    using s by (auto simp: m month_lengths_def)
qed

lemma digits_spec:
  "0 \<le> x \<Longrightarrow> read_dec (digits n x) = x mod 10 ^ n \<and> list_all is_digit (digits n x) \<and> length (digits n x) = n"
proof (induction n arbitrary: x)
  case 0
  then show ?case by (simp add: read_dec_def)
next
  case (Suc n)
  have "x mod 10 ^ Suc n = 10 * (x div 10 mod 10 ^ n) + x mod 10"
    using zmod_zmult2_eq [of "10 ^ n" x 10] by simp
  with Suc.IH [of "x div 10"] Suc.prems show ?case
    by (simp add: read_dec_snoc digit_char_digit)
qed

lemma digits_digits [simp]: "0 \<le> x \<Longrightarrow> list_all is_digit (digits n x)"
  and digits_length [simp]: "length (digits n x) = n"
  and read_digits: "0 \<le> x \<Longrightarrow> x < 10 ^ n \<Longrightarrow> read_dec (digits n x) = x"
proof -
  show "length (digits n x) = n" by (induction n arbitrary: x) simp_all
qed (use digits_spec [of x n] in simp_all)

lemma digits_two: "0 \<le> x \<Longrightarrow> x < 100 \<Longrightarrow> getnum f (digits 2 x @ rest) = Some (x, rest)"
  by (simp add: numeral_2_eq_2 getnum_def digit_char_digit)

lemma getyear_digits: "0 \<le> y \<Longrightarrow> y \<le> 9999 \<Longrightarrow> getyear (digits 4 y @ rest) = Some (y, rest)"
  by (simp add: getyear_def read_digits del: digits.simps)

lemma getchar_Cons [simp]: "getchar c (c # s) = Some s"
  by (simp add: getchar_def)

lemma month_length_bound:
  assumes "k < 12"
  shows "month_lengths y ! k \<le> 31"
proof -
  have "month_lengths y ! k \<in> set (month_lengths y)" using assms by (intro nth_mem) (simp add: month_lengths_def)
  moreover have "\<forall>n \<in> set (month_lengths y). n \<le> 31" by (simp add: month_lengths_def)
  ultimately show ?thesis by blast
qed

lemma trim_zeros_split: "\<exists>k. s = trim_zeros s @ replicate k (CHR ''0'')"
proof -
  have "takeWhile (\<lambda>c. c = CHR ''0'') (rev s) = replicate (length (takeWhile (\<lambda>c. c = CHR ''0'') (rev s))) (CHR ''0'')"
    by (rule replicate_eqI) (auto dest: set_takeWhileD)
  then have "s = trim_zeros s @ replicate (length (takeWhile (\<lambda>c. c = CHR ''0'') (rev s))) (CHR ''0'')"
    unfolding trim_zeros_def by (metis rev_append rev_replicate rev_rev_ident takeWhile_dropWhile_id)
  then show ?thesis by blast
qed

lemma read_dec_zeros: "read_dec (s @ replicate k (CHR ''0'')) = read_dec s * 10 ^ k"
proof (induction k)
  case (Suc k)
  have "s @ replicate (Suc k) (CHR ''0'') = (s @ replicate k (CHR ''0'')) @ [CHR ''0'']"
    by (simp add: replicate_append_same)
  with Suc show ?case by (simp only: read_dec_snoc) (simp add: digit_val_def)
qed simp

lemma getfraction_text:
  assumes "0 \<le> ns" and "ns < second" and "rest \<noteq> []" and "\<not> is_digit (hd rest)"
    and "hd rest \<noteq> CHR ''.''" and "hd rest \<noteq> CHR '',''"
  shows "getfraction (fraction_text ns @ rest) = (ns, rest)"
proof (cases "ns = 0")
  case True
  with assms show ?thesis by (cases rest) (auto simp: fraction_text_def getfraction_def split: list.splits)
next
  case False
  define ds where "ds = digits 9 ns"
  define t where "t = trim_zeros ds"
  obtain k where k: "ds = t @ replicate k (CHR ''0'')" using trim_zeros_split t_def by blast
  have ds: "list_all is_digit ds" "length ds = 9" "read_dec ds = ns"
    unfolding ds_def using assms(1,2) read_digits [of ns 9] by (simp_all add: second_def del: digits.simps)
  have val: "read_dec t * 10 ^ k = ns" using ds(3) unfolding k read_dec_zeros .
  have "t \<noteq> []" using val False by (auto simp: read_dec_def)
  then obtain d r where dr: "t = d # r" by (cases t) auto
  have t: "list_all is_digit t" "length t + k = 9" using ds unfolding k by (simp_all add: k)
  have tw: "takeWhile is_digit (t @ rest) = t" "dropWhile is_digit (t @ rest) = rest"
    using t(1) assms(3,4) by (cases rest; auto simp: list_all_iff)+
  have "getfraction (CHR ''.'' # t @ rest) = (read_dec (take 9 t) * 10 ^ (9 - length (take 9 t)), rest)"
    using tw t(1) unfolding dr by (auto simp: getfraction_def Let_def)
  also have "\<dots> = (ns, rest)" using t(2) val by (simp add: min_def) (metis add_diff_cancel_left')
  finally show ?thesis using False by (simp add: fraction_text_def t_def ds_def del: digits.simps)
qed

lemma getzone_text:
  assumes "60 dvd off" and "\<bar>go_div off 60\<bar> div 60 < 24"
  shows "getzone (zone_text off) = Some (off, [])"
proof (cases "off = 0")
  case False
  define z where "z = go_div off 60"
  have off: "off = 60 * z" using assms(1) by (auto simp: z_def go_div_def sgn_if abs_mult)
  define h where "h = \<bar>z\<bar> div 60"
  define mm where "mm = \<bar>z\<bar> mod 60"
  have z: "0 \<le> h" "h < 24" "0 \<le> mm" "mm < 60" "h * 60 + mm = \<bar>z\<bar>"
    using assms(2) by (simp_all add: z_def h_def mm_def)
  have "getzone ((if z < 0 then CHR ''-'' else CHR ''+'') # digits 2 h @ '':'' @ digits 2 mm) =
    Some (if z < 0 then - (\<bar>z\<bar> * 60) else \<bar>z\<bar> * 60, [])"
    using z digits_two [of h True] digits_two [of mm True "[]"] by (simp add: getzone_def Let_def)
  moreover have "zone_text off = (if z < 0 then CHR ''-'' else CHR ''+'') # digits 2 h @ '':'' @ digits 2 mm"
    using False unfolding zone_text_def Let_def z_def [symmetric] h_def mm_def by simp
  ultimately show ?thesis using off by simp
qed (simp add: zone_text_def getzone_def)

lemma zone_text_head:
  "zone_text off \<noteq> [] \<and> \<not> is_digit (hd (zone_text off)) \<and> hd (zone_text off) \<noteq> CHR ''.'' \<and> hd (zone_text off) \<noteq> CHR '',''"
  by (simp add: zone_text_def Let_def is_digit_def)

lemma parse_rfc3339_parts:
  assumes "0 \<le> y" "y \<le> 9999" "1 \<le> m" "m \<le> 12" "1 \<le> d" "d \<le> month_lengths y ! nat (m - 1)"
    and "0 \<le> hh" "hh < 24" "0 \<le> mi" "mi < 60" "0 \<le> ss" "ss < 60"
    and "getfraction (ft @ zt) = (ns, zt)" and "getzone zt = Some (off, [])"
  shows "parse_rfc3339 (digits 4 y @ ''-'' @ digits 2 m @ ''-'' @ digits 2 d @ ''T'' @
      digits 2 hh @ '':'' @ digits 2 mi @ '':'' @ digits 2 ss @ ft @ zt) =
    Some ((date_days y m d * 86400 + hh * 3600 + mi * 60 + ss - off) * second + ns, off)"
proof -
  have "d \<le> 31" using assms(3-6) month_length_bound [of "nat (m - 1)" y] by linarith
  with assms show ?thesis by (simp add: parse_rfc3339_def getyear_digits digits_two)
qed

text \<open>An instant that can be written, in a zone of whole minutes, is read back exactly, with its offset.\<close>

lemma parse_format_rfc3339:
  assumes "format_rfc3339 off t = Some s" and "60 dvd off"
  shows "parse_rfc3339 s = Some (t, off)"
proof -
  define l where "l = t + off * second"
  define secs where "secs = l div second"
  define tod where "tod = secs mod 86400"
  obtain y m d where ymd: "civil_date (secs div 86400) = (y, m, d)" by (cases "civil_date (secs div 86400)")
  have ok: "0 \<le> y" "y \<le> 9999" "\<bar>go_div off 60\<bar> div 60 < 24" and
    s: "s = digits 4 y @ ''-'' @ digits 2 m @ ''-'' @ digits 2 d @ ''T'' @
      digits 2 (tod div 3600) @ '':'' @ digits 2 (tod div 60 mod 60) @ '':'' @ digits 2 (tod mod 60) @
      fraction_text (l mod second) @ zone_text off"
    using assms(1) unfolding format_rfc3339_def Let_def l_def [symmetric] secs_def [symmetric] tod_def [symmetric] ymd
    by (simp_all split: if_splits)
  note cal = civil_date_days [OF ymd]
  have tod: "0 \<le> tod" "tod < 86400" by (simp_all add: tod_def)
  then have "0 \<le> tod div 3600" "tod div 3600 < 24" by linarith+
  moreover have "tod div 3600 = tod div 60 div 60" by (simp flip: zdiv_zmult2_eq)
  ultimately have hms: "0 \<le> tod div 3600" "tod div 3600 < 24" "0 \<le> tod div 60 mod 60" "tod div 60 mod 60 < 60"
    "0 \<le> tod mod 60" "tod mod 60 < 60" "tod div 3600 * 3600 + tod div 60 mod 60 * 60 + tod mod 60 = tod"
    using div_mult_mod_eq [of "tod div 60" 60] div_mult_mod_eq [of tod 60] by (simp_all, linarith)
  have frac: "getfraction (fraction_text (l mod second) @ zone_text off) = (l mod second, zone_text off)"
    using zone_text_head [of off] by (intro getfraction_text) (simp_all add: second_def)
  have "(date_days y m d * 86400 + tod div 3600 * 3600 + tod div 60 mod 60 * 60 + tod mod 60 - off) * second + l mod second =
      (secs div 86400 * 86400 + tod - off) * second + l mod second"
    using hms(7) cal(1) by simp
  also have "\<dots> = secs * second + l mod second - off * second"
    using div_mult_mod_eq [of secs 86400] by (simp add: tod_def left_diff_distrib)
  also have "\<dots> = t" using div_mult_mod_eq [of l second] unfolding secs_def by (simp add: l_def)
  finally have t: "(date_days y m d * 86400 + tod div 3600 * 3600 + tod div 60 mod 60 * 60 + tod mod 60 - off) * second + l mod second = t" .
  show ?thesis
    unfolding s using parse_rfc3339_parts [OF ok(1,2) cal(2-5) hms(1-6) frac getzone_text [OF assms(2) ok(3)]] t by simp
qed

end
