(* ===== verification/GoJson.thy ===== *)
theory GoJson
  imports GoText
begin

text \<open>
  The part of Go's package \<open>encoding/json\<close> that the program uses: the encoder (compact and with
  indentation), the scanner with its states, and the decoding of scanned values into fields.
  Strings are ASCII; a byte above is copied as it is.
\<close>

section \<open>Values and their text\<close>

text \<open>
  A scanned value. Numbers, strings and keys are kept as they are written, without the quotes,
  as the decoder keeps them until it knows the type of the field.
\<close>

datatype json =
    JNull
  | JBool bool
  | JNum string
  | JStr string
  | JArr "json list"
  | JObj "(string \<times> json) list"

text \<open>\<open>appendString\<close> with the escapes of HTML, as \<open>Encoder\<close> has them by default.\<close>

definition escape_char :: "char \<Rightarrow> string" where
  "escape_char c =
     (let n = of_char c :: int in
      if c = CHR 0x22 \<or> c = CHR 0x5C then [CHR 0x5C, c]
      else if n = 8 then [CHR 0x5C, CHR ''b'']
      else if n = 12 then [CHR 0x5C, CHR ''f'']
      else if n = 10 then [CHR 0x5C, CHR ''n'']
      else if n = 13 then [CHR 0x5C, CHR ''r'']
      else if n = 9 then [CHR 0x5C, CHR ''t'']
      else if n < 32 \<or> c = CHR ''<'' \<or> c = CHR ''>'' \<or> c = CHR ''&''
      then CHR 0x5C # ''u00'' @ [hex_digit (n div 16), hex_digit (n mod 16)]
      else [c])"

definition escape :: "string \<Rightarrow> string" where
  "escape s = concat (map escape_char s)"

definition quoted :: "string \<Rightarrow> string" where
  "quoted s = CHR 0x22 # s @ [CHR 0x22]"

text \<open>
  One printer for both forms: \<open>nl d\<close> is what separates the elements at depth \<open>d\<close> and \<open>colon\<close> what
  stands between key and value. Empty arrays and objects are never broken.
\<close>

fun print_json :: "(nat \<Rightarrow> string) \<Rightarrow> string \<Rightarrow> nat \<Rightarrow> json \<Rightarrow> string" where
  "print_json nl colon d JNull = ''null''"
| "print_json nl colon d (JBool b) = (if b then ''true'' else ''false'')"
| "print_json nl colon d (JNum s) = s"
| "print_json nl colon d (JStr s) = quoted s"
| "print_json nl colon d (JArr vs) =
     (if vs = [] then ''[]''
      else ''['' @ nl (Suc d) @ join ('','' @ nl (Suc d)) (map (print_json nl colon (Suc d)) vs) @ nl d @ '']'')"
| "print_json nl colon d (JObj kvs) =
     (if kvs = [] then ''{}''
      else ''{'' @ nl (Suc d) @
        join ('','' @ nl (Suc d)) (map (\<lambda>kv. quoted (fst kv) @ colon @ print_json nl colon (Suc d) (snd kv)) kvs) @
        nl d @ ''}'')"

definition compact_json :: "json \<Rightarrow> string" where
  "compact_json v = print_json (\<lambda>_. []) '':'' 0 v"

definition indented_json :: "json \<Rightarrow> string" where
  "indented_json v = print_json (\<lambda>d. CHR 0x0A # replicate (2 * d) (CHR '' '')) '': '' 0 v"

section \<open>The scanner\<close>

text \<open>How decoding ends without a value; the last is a value that does not fit its field.\<close>

datatype json_error = EndOfFile | UnexpectedEOF | SyntaxError | BadValue

definition json_space :: "char \<Rightarrow> bool" where
  "json_space c \<longleftrightarrow> c = CHR '' '' \<or> c = CHR 0x09 \<or> c = CHR 0x0D \<or> c = CHR 0x0A"

definition skip_space :: "string \<Rightarrow> string" where
  "skip_space s = dropWhile json_space s"

text \<open>The states inside a string; the last counts the hexadecimal digits that are still missing.\<close>

datatype str_state = InString | InStringEsc | InStringEscU nat

definition is_hex :: "char \<Rightarrow> bool" where
  "is_hex c \<longleftrightarrow> hex_val c \<noteq> None"

fun str_step :: "str_state \<Rightarrow> char \<Rightarrow> str_state option" where
  "str_step InString c =
     (if c = CHR 0x5C then Some InStringEsc else if (of_char c :: nat) < 32 then None else Some InString)"
| "str_step InStringEsc c =
     (if c = CHR ''u'' then Some (InStringEscU 3)
      else if c \<in> {CHR ''b'', CHR ''f'', CHR ''n'', CHR ''r'', CHR ''t'', CHR 0x5C, CHR ''/'', CHR 0x22} then Some InString
      else None)"
| "str_step (InStringEscU k) c =
     (if \<not> is_hex c then None else Some (if k = 0 then InString else InStringEscU (k - 1)))"

fun scan_string :: "str_state \<Rightarrow> string \<Rightarrow> string \<Rightarrow> json_error + string \<times> string" where
  "scan_string st acc [] = Inl UnexpectedEOF"
| "scan_string st acc (c # cs) =
     (if st = InString \<and> c = CHR 0x22 then Inr (rev acc, cs)
      else case str_step st c of None \<Rightarrow> Inl SyntaxError | Some st' \<Rightarrow> scan_string st' (c # acc) cs)"

datatype num_state = NumNeg | NumZero | NumInt | NumDot | NumFrac | NumE | NumESign | NumExp

fun num_step :: "num_state \<Rightarrow> char \<Rightarrow> num_state option" where
  "num_step NumNeg c = (if c = CHR ''0'' then Some NumZero else if is_digit c then Some NumInt else None)"
| "num_step NumZero c =
     (if c = CHR ''.'' then Some NumDot else if c = CHR ''e'' \<or> c = CHR ''E'' then Some NumE else None)"
| "num_step NumInt c =
     (if is_digit c then Some NumInt else if c = CHR ''.'' then Some NumDot
      else if c = CHR ''e'' \<or> c = CHR ''E'' then Some NumE else None)"
| "num_step NumDot c = (if is_digit c then Some NumFrac else None)"
| "num_step NumFrac c =
     (if is_digit c then Some NumFrac else if c = CHR ''e'' \<or> c = CHR ''E'' then Some NumE else None)"
| "num_step NumE c = (if c = CHR ''+'' \<or> c = CHR ''-'' then Some NumESign else if is_digit c then Some NumExp else None)"
| "num_step NumESign c = (if is_digit c then Some NumExp else None)"
| "num_step NumExp c = (if is_digit c then Some NumExp else None)"

definition num_complete :: "num_state \<Rightarrow> bool" where
  "num_complete st \<longleftrightarrow> st \<in> {NumZero, NumInt, NumFrac, NumExp}"

fun scan_number :: "num_state \<Rightarrow> string \<Rightarrow> string \<Rightarrow> json_error + string \<times> string" where
  "scan_number st acc [] = (if num_complete st then Inr (rev acc, []) else Inl UnexpectedEOF)"
| "scan_number st acc (c # cs) =
     (case num_step st c of
        Some st' \<Rightarrow> scan_number st' (c # acc) cs
      | None \<Rightarrow> if num_complete st then Inr (rev acc, c # cs) else Inl SyntaxError)"

fun scan_literal :: "string \<Rightarrow> string \<Rightarrow> json_error + string" where
  "scan_literal [] s = Inr s"
| "scan_literal (w # ws) [] = Inl UnexpectedEOF"
| "scan_literal (w # ws) (c # cs) = (if c = w then scan_literal ws cs else Inl SyntaxError)"

text \<open>
  A value, the elements of an array after its bracket, the members of an object after its
  brace. The first argument bounds the recursion: \<open>scan_json\<close> passes more than twice the length of the
  text, which is enough (\<open>scan_value_fuel\<close>); the second is how much deeper arrays and objects may be nested.
\<close>

definition num_start :: "char \<Rightarrow> num_state" where
  "num_start c = (if c = CHR ''-'' then NumNeg else if c = CHR ''0'' then NumZero else NumInt)"

definition scan_scalar :: "char \<Rightarrow> string \<Rightarrow> json_error + json \<times> string" where
  "scan_scalar c cs =
     (if c = CHR 0x22 then bind_err (scan_string InString [] cs) (\<lambda>(s, r). Inr (JStr s, r))
      else if c = CHR ''-'' \<or> is_digit c then bind_err (scan_number (num_start c) [c] cs) (\<lambda>(s, r). Inr (JNum s, r))
      else if c = CHR ''t'' then bind_err (scan_literal ''rue'' cs) (\<lambda>r. Inr (JBool True, r))
      else if c = CHR ''f'' then bind_err (scan_literal ''alse'' cs) (\<lambda>r. Inr (JBool False, r))
      else if c = CHR ''n'' then bind_err (scan_literal ''ull'' cs) (\<lambda>r. Inr (JNull, r))
      else Inl SyntaxError)"

definition scan_key :: "string \<Rightarrow> json_error + string \<times> string" where
  "scan_key s =
     (case skip_space s of
        [] \<Rightarrow> Inl UnexpectedEOF
      | c # cs \<Rightarrow>
          if c \<noteq> CHR 0x22 then Inl SyntaxError
          else bind_err (scan_string InString [] cs) (\<lambda>(k, r).
            case skip_space r of
              [] \<Rightarrow> Inl UnexpectedEOF
            | x # xs \<Rightarrow> if x = CHR '':'' then Inr (k, xs) else Inl SyntaxError))"

text \<open>What follows an element: more of them, or the closing character.\<close>

definition scan_next :: "char \<Rightarrow> string \<Rightarrow> json_error + bool \<times> string" where
  "scan_next close s =
     (case skip_space s of
        [] \<Rightarrow> Inl UnexpectedEOF
      | c # cs \<Rightarrow> if c = CHR '','' then Inr (True, cs) else if c = close then Inr (False, cs) else Inl SyntaxError)"

definition closes :: "char \<Rightarrow> string \<Rightarrow> bool" where
  "closes close s \<longleftrightarrow> (case skip_space s of [] \<Rightarrow> False | c # _ \<Rightarrow> c = close)"

lemma bind_err_cong [fundef_cong]:
  "r = r' \<Longrightarrow> (\<And>x. r' = Inr x \<Longrightarrow> f x = g x) \<Longrightarrow> bind_err r f = bind_err r' g"
  by (cases r') auto

fun scan_value :: "nat \<Rightarrow> int \<Rightarrow> string \<Rightarrow> json_error + json \<times> string"
  and scan_elements :: "nat \<Rightarrow> int \<Rightarrow> string \<Rightarrow> json_error + json list \<times> string"
  and scan_members :: "nat \<Rightarrow> int \<Rightarrow> string \<Rightarrow> json_error + (string \<times> json) list \<times> string" where
  "scan_value 0 d s = Inl UnexpectedEOF"
| "scan_value (Suc n) d s =
     (case skip_space s of
        [] \<Rightarrow> Inl UnexpectedEOF
      | c # cs \<Rightarrow>
          if c = CHR ''['' then
            (if d \<le> 0 then Inl SyntaxError
             else if closes (CHR '']'') cs then Inr (JArr [], tl (skip_space cs))
             else bind_err (scan_elements n (d - 1) cs) (\<lambda>(vs, r). Inr (JArr vs, r)))
          else if c = CHR ''{'' then
            (if d \<le> 0 then Inl SyntaxError
             else if closes (CHR ''}'') cs then Inr (JObj [], tl (skip_space cs))
             else bind_err (scan_members n (d - 1) cs) (\<lambda>(kvs, r). Inr (JObj kvs, r)))
          else scan_scalar c cs)"
| "scan_elements 0 d s = Inl UnexpectedEOF"
| "scan_elements (Suc n) d s =
     bind_err (scan_value n d s) (\<lambda>(v, r).
     bind_err (scan_next (CHR '']'') r) (\<lambda>(more, r).
       if more then bind_err (scan_elements n d r) (\<lambda>(vs, r). Inr (v # vs, r)) else Inr ([v], r)))"
| "scan_members 0 d s = Inl UnexpectedEOF"
| "scan_members (Suc n) d s =
     bind_err (scan_key s) (\<lambda>(k, r).
     bind_err (scan_value n d r) (\<lambda>(v, r).
     bind_err (scan_next (CHR ''}'') r) (\<lambda>(more, r).
       if more then bind_err (scan_members n d r) (\<lambda>(kvs, r). Inr ((k, v) # kvs, r)) else Inr ([(k, v)], r))))"

definition max_nesting :: int where
  "max_nesting = 10000"

definition scan_json :: "string \<Rightarrow> json_error + json \<times> string" where
  "scan_json s = scan_value (Suc (2 * length s)) max_nesting s"

section \<open>The scanner consumes what it reads\<close>

lemma skip_space_length: "length (skip_space s) \<le> length s"
  by (simp add: skip_space_def length_dropWhile_le)

lemma skip_space_Cons_length: "skip_space s = c # cs \<Longrightarrow> length cs < length s"
  using skip_space_length [of s] by simp

lemma scan_string_length: "scan_string st acc s = Inr (v, r) \<Longrightarrow> length r < length s"
  by (induction st acc s rule: scan_string.induct) (auto split: if_splits option.splits)

lemma scan_number_length: "scan_number st acc s = Inr (v, r) \<Longrightarrow> length r \<le> length s"
  by (induction st acc s rule: scan_number.induct) (auto split: if_splits option.splits)

lemma scan_literal_length: "scan_literal w s = Inr r \<Longrightarrow> length r \<le> length s"
  by (induction w s rule: scan_literal.induct) (auto split: if_splits)

lemma scan_scalar_length: "scan_scalar c cs = Inr (v, r) \<Longrightarrow> length r \<le> length cs"
  by (auto simp: scan_scalar_def split: if_splits
      dest: scan_string_length scan_number_length scan_literal_length)

lemma scan_key_length: "scan_key s = Inr (k, r) \<Longrightarrow> length r < length s"
  by (fastforce simp: scan_key_def split: list.splits if_splits dest: skip_space_Cons_length scan_string_length)

lemma scan_next_length: "scan_next c s = Inr (b, r) \<Longrightarrow> length r < length s"
  by (auto simp: scan_next_def split: list.splits if_splits dest: skip_space_Cons_length)

lemma closes_length: "closes c s \<Longrightarrow> length (tl (skip_space s)) < length s"
  by (auto simp: closes_def split: list.splits dest: skip_space_Cons_length)

lemma scan_value_length:
  "scan_value n d s = Inr (v, r) \<Longrightarrow> length r < length s"
  "scan_elements n d s = Inr (vs, r) \<Longrightarrow> length r < length s"
  "scan_members n d s = Inr (kvs, r) \<Longrightarrow> length r < length s"
proof (induction n d s and n d s and n d s arbitrary: v r and vs r and kvs r
    rule: scan_value_scan_elements_scan_members.induct)
  case (2 n d s)
  show ?case
  proof (cases "skip_space s")
    case (Cons c cs)
    then show ?thesis
      using 2 closes_length [of _ cs] scan_scalar_length [of c cs] skip_space_Cons_length [OF Cons]
      by (auto split: if_splits; fastforce dest: less_trans le_less_trans)
  qed (use 2 in simp)
next
  case (4 n d s)
  then show ?case by (fastforce split: if_splits dest: scan_next_length)
next
  case (6 n d s)
  then show ?case by (fastforce split: if_splits dest: scan_next_length scan_key_length)
qed auto

text \<open>The bound on the recursion is never reached: beyond twice the length nothing changes.\<close>

lemma scan_value_fuel_aux:
  "2 * length s < n \<Longrightarrow> n \<le> m \<Longrightarrow> scan_value m d s = scan_value n d s"
  "2 * length s + 1 < n \<Longrightarrow> n \<le> m \<Longrightarrow> scan_elements m d s = scan_elements n d s"
  "2 * length s < n \<Longrightarrow> n \<le> m \<Longrightarrow> scan_members m d s = scan_members n d s"
proof (induction n d s and n d s and n d s arbitrary: m and m and m
    rule: scan_value_scan_elements_scan_members.induct)
  case (2 n d s)
  obtain m' where m: "m = Suc m'" "n \<le> m'" using 2(4) by (cases m) auto
  show ?case
  proof (cases "skip_space s")
    case (Cons c cs)
    have "2 * length cs + 1 < n" using skip_space_Cons_length [OF Cons] 2(3) by simp
    then have len: "2 * length cs + 1 < n" "2 * length cs < n" by simp_all
    have "scan_elements m' (d - 1) cs = scan_elements n (d - 1) cs"
        if "c = CHR ''[''" "\<not> d \<le> 0" "\<not> closes (CHR '']'') cs"
      by (rule 2(1) [OF Cons that len(1) m(2)])
    moreover have "scan_members m' (d - 1) cs = scan_members n (d - 1) cs"
        if "c \<noteq> CHR ''[''" "c = CHR ''{''" "\<not> d \<le> 0" "\<not> closes (CHR ''}'') cs"
      by (rule 2(2) [OF Cons that len(2) m(2)])
    ultimately show ?thesis by (simp add: m Cons)
  qed (simp add: m)
next
  case (4 n d s)
  obtain m' where m: "m = Suc m'" "n \<le> m'" using 4(4) by (cases m) auto
  have v: "scan_value m' d s = scan_value n d s" by (rule 4(1)) (use 4(3) m in auto)
  have "scan_elements m' d r' = scan_elements n d r'"
    if "scan_value n d s = Inr (v, r)" "scan_next (CHR '']'') r = Inr (True, r')" for v r r'
  proof (rule 4(2) [OF that(1) refl that(2) refl])
    show "2 * length r' + 1 < n"
      using 4(3) scan_value_length(1) [OF that(1)] scan_next_length [OF that(2)] by simp
  qed (use m in auto)
  then show ?case unfolding m scan_elements.simps v by (auto intro!: bind_err_cong)
next
  case (6 n d s)
  obtain m' where m: "m = Suc m'" "n \<le> m'" using 6(4) by (cases m) auto
  have v: "scan_value m' d r = scan_value n d r" if "scan_key s = Inr (k, r)" for k r
    by (rule 6(1) [OF that refl]) (use 6(3) scan_key_length [OF that] m in auto)
  have "scan_members m' d r2 = scan_members n d r2"
    if "scan_key s = Inr (k, r)" "scan_value n d r = Inr (v, r1)" "scan_next (CHR ''}'') r1 = Inr (True, r2)" for k r v r1 r2
  proof (rule 6(2) [OF that(1) refl that(2) refl that(3) refl])
    show "2 * length r2 < n"
      using 6(3) scan_key_length [OF that(1)] scan_value_length(1) [OF that(2)] scan_next_length [OF that(3)] by simp
  qed (use m in auto)
  then show ?case unfolding m scan_members.simps by (auto simp: v intro!: bind_err_cong)
qed simp_all

lemma scan_value_fuel: "2 * length s < n \<Longrightarrow> scan_value n max_nesting s = scan_json s"
  using scan_value_fuel_aux(1) [of s "Suc (2 * length s)" n] by (simp add: scan_json_def)

section \<open>The scanner is on-line\<close>

text \<open>
  What the scanner says of a text it also says of every extension of it, unless it asked for
  more text, or a number or literal ends where the text does.
\<close>

definition extend :: "string \<Rightarrow> json_error + 'a \<times> string \<Rightarrow> json_error + 'a \<times> string" where
  "extend q res = bind_err res (\<lambda>(v, r). Inr (v, r @ q))"

lemma extend_simps [simp]: "extend q (Inl e) = Inl e" "extend q (Inr (v, r)) = Inr (v, r @ q)"
  by (simp_all add: extend_def)

lemma skip_space_append: "skip_space s \<noteq> [] \<Longrightarrow> skip_space (s @ q) = skip_space s @ q"
  by (induction s) (auto simp: skip_space_def)

lemma scan_string_extend:
  "scan_string st acc s \<noteq> Inl UnexpectedEOF \<Longrightarrow> scan_string st acc (s @ q) = extend q (scan_string st acc s)"
  by (induction st acc s rule: scan_string.induct) (auto split: option.splits)

lemma scan_number_extend:
  "scan_number st acc s \<noteq> Inl UnexpectedEOF \<Longrightarrow> \<forall>v. scan_number st acc s \<noteq> Inr (v, []) \<Longrightarrow>
   scan_number st acc (s @ q) = extend q (scan_number st acc s)"
  by (induction st acc s rule: scan_number.induct) (auto split: option.splits if_splits)

lemma scan_literal_extend:
  "scan_literal w s \<noteq> Inl UnexpectedEOF \<Longrightarrow>
   scan_literal w (s @ q) = bind_err (scan_literal w s) (\<lambda>r. Inr (r @ q))"
  by (induction w s rule: scan_literal.induct) auto

lemma bind_extend:
  "extend q (bind_err r (\<lambda>(x, y). Inr (f x, y))) = bind_err (extend q r) (\<lambda>(x, y). Inr (f x, y))"
  by (cases r) (auto simp: extend_def)

lemma scan_scalar_extend:
  assumes "scan_scalar c cs \<noteq> Inl UnexpectedEOF" and "\<forall>v. scan_scalar c cs \<noteq> Inr (v, [])"
  shows "scan_scalar c (cs @ q) = extend q (scan_scalar c cs)"
proof -
  have "scan_string InString [] cs \<noteq> Inl UnexpectedEOF" if "c = CHR 0x22"
    using assms that by (auto simp: scan_scalar_def)
  moreover have "scan_number (num_start c) [c] cs \<noteq> Inl UnexpectedEOF \<and> (\<forall>v. scan_number (num_start c) [c] cs \<noteq> Inr (v, []))"
    if "c \<noteq> CHR 0x22" "c = CHR ''-'' \<or> is_digit c"
    using assms that by (auto simp: scan_scalar_def)
  moreover have "scan_literal w cs \<noteq> Inl UnexpectedEOF"
    if "w = ''rue'' \<and> c = CHR ''t'' \<or> w = ''alse'' \<and> c = CHR ''f'' \<or> w = ''ull'' \<and> c = CHR ''n''" for w
    using assms that by (auto simp: scan_scalar_def is_digit_def)
  moreover have "bind_err (bind_err (scan_literal w cs) (\<lambda>r. Inr (r @ q))) (\<lambda>r. Inr (v, r)) =
    extend q (bind_err (scan_literal w cs) (\<lambda>r. Inr (v :: json, r)))" for w v
    by (cases "scan_literal w cs") auto
  ultimately show ?thesis
    by (simp add: scan_scalar_def scan_string_extend scan_number_extend scan_literal_extend bind_extend)
qed

lemma scan_key_extend:
  assumes "scan_key s \<noteq> Inl UnexpectedEOF"
  shows "scan_key (s @ q) = extend q (scan_key s)"
proof (cases "skip_space s")
  case (Cons c cs)
  then have s: "skip_space (s @ q) = c # cs @ q" by (simp add: skip_space_append)
  show ?thesis
  proof (cases "scan_string InString [] cs")
    case (Inl e)
    with assms Cons s scan_string_extend [of InString "[]" cs q] show ?thesis by (auto simp: scan_key_def)
  next
    case (Inr kr)
    with assms Cons s scan_string_extend [of InString "[]" cs q] skip_space_append [of "snd kr" q] show ?thesis
      by (auto simp: scan_key_def split: list.splits prod.splits if_splits)
  qed
qed (use assms in \<open>simp add: scan_key_def\<close>)

lemma scan_next_extend:
  "scan_next c s \<noteq> Inl UnexpectedEOF \<Longrightarrow> scan_next c (s @ q) = extend q (scan_next c s)"
  by (cases "skip_space s") (auto simp: scan_next_def skip_space_append)

lemma closes_append: "skip_space s \<noteq> [] \<Longrightarrow> closes c (s @ q) = closes c s"
  by (cases "skip_space s") (auto simp: closes_def skip_space_append)

lemma scan_blank:
  "skip_space s = [] \<Longrightarrow> scan_value n d s = Inl UnexpectedEOF"
  "skip_space s = [] \<Longrightarrow> scan_elements n d s = Inl UnexpectedEOF"
  "skip_space s = [] \<Longrightarrow> scan_members n d s = Inl UnexpectedEOF"
proof -
  show v: "scan_value n d s = Inl UnexpectedEOF" if "skip_space s = []" for n
    using that by (cases n) auto
  show "scan_elements n d s = Inl UnexpectedEOF" if "skip_space s = []"
    using v [OF that] by (cases n) auto
  show "scan_members n d s = Inl UnexpectedEOF" if "skip_space s = []"
    using that by (cases n) (auto simp: scan_key_def)
qed

definition scalar :: "json \<Rightarrow> bool" where
  "scalar v \<longleftrightarrow> (case v of JArr _ \<Rightarrow> False | JObj _ \<Rightarrow> False | _ \<Rightarrow> True)"

lemma scan_scalar_scalar: "scan_scalar c cs = Inr (v, r) \<Longrightarrow> scalar v"
  by (auto simp: scan_scalar_def scalar_def split: if_splits)

lemma scan_next_nil [simp]: "scan_next c [] = Inl UnexpectedEOF"
  by (simp add: scan_next_def skip_space_def)

lemma bind_extendI:
  assumes "bind_err r f \<noteq> Inl UnexpectedEOF"
    and "r \<noteq> Inl UnexpectedEOF \<Longrightarrow> (\<And>v. r = Inr (v, []) \<Longrightarrow> f (v, []) \<noteq> Inl UnexpectedEOF) \<Longrightarrow> r' = extend q r"
    and "\<And>v s. r = Inr (v, s) \<Longrightarrow> f (v, s) \<noteq> Inl UnexpectedEOF \<Longrightarrow> g (v, s @ q) = extend q (f (v, s))"
  shows "bind_err r' g = extend q (bind_err r f)"
proof (cases r)
  case (Inr vs)
  obtain v s where vs: "vs = (v, s)" by (cases vs)
  with Inr assms(1) have f: "f (v, s) \<noteq> Inl UnexpectedEOF" by simp
  with Inr vs assms(2) have "r' = extend q r" by auto
  with Inr vs f assms(3) show ?thesis by simp
qed (use assms in auto)

lemma bind_extend_cong:
  assumes "bind_err r (\<lambda>(x, y). Inr (g x, y)) \<noteq> Inl UnexpectedEOF"
    and "r \<noteq> Inl UnexpectedEOF \<Longrightarrow> r' = extend q r"
  shows "bind_err r' (\<lambda>(x, y). Inr (g x, y)) = extend q (bind_err r (\<lambda>(x, y). Inr (g x, y)))"
  using assms by (intro bind_extendI) auto

lemma scan_value_extend:
  "scan_value n d s \<noteq> Inl UnexpectedEOF \<Longrightarrow> (\<And>v. scan_value n d s = Inr (v, []) \<Longrightarrow> \<not> scalar v) \<Longrightarrow> n \<le> m \<Longrightarrow>
   scan_value m d (s @ q) = extend q (scan_value n d s)"
  "scan_elements n d s \<noteq> Inl UnexpectedEOF \<Longrightarrow> n \<le> m \<Longrightarrow>
   scan_elements m d (s @ q) = extend q (scan_elements n d s)"
  "scan_members n d s \<noteq> Inl UnexpectedEOF \<Longrightarrow> n \<le> m \<Longrightarrow>
   scan_members m d (s @ q) = extend q (scan_members n d s)"
proof (induction n d s and n d s and n d s arbitrary: m and m and m
    rule: scan_value_scan_elements_scan_members.induct)
  case (2 n d s)
  obtain m' where m: "m = Suc m'" "n \<le> m'" using 2(5) by (cases m) auto
  obtain c cs where s: "skip_space s = c # cs" using 2(3) by (cases "skip_space s") auto
  then have sq: "skip_space (s @ q) = c # cs @ q" by (simp add: skip_space_append)
  have ne: "skip_space cs \<noteq> []" if "c = CHR ''['' \<or> c = CHR ''{''" "0 < d"
    using 2(3) that s scan_blank [of cs] by (auto simp: closes_def)
  have "scan_elements m' (d - 1) (cs @ q) = extend q (scan_elements n (d - 1) cs)"
    if "c = CHR ''[''" "\<not> d \<le> 0" "\<not> closes (CHR '']'') cs"
    using 2(3) s that by (intro 2(1) [OF s that _ m(2)]) auto
  moreover have "scan_members m' (d - 1) (cs @ q) = extend q (scan_members n (d - 1) cs)"
    if "c \<noteq> CHR ''[''" "c = CHR ''{''" "\<not> d \<le> 0" "\<not> closes (CHR ''}'') cs"
    using 2(3) s that by (intro 2(2) [OF s that _ m(2)]) auto
  moreover have "scan_scalar c (cs @ q) = extend q (scan_scalar c cs)" if "c \<noteq> CHR ''[''" "c \<noteq> CHR ''{''"
    using 2(3,4) s that by (intro scan_scalar_extend) (auto dest: scan_scalar_scalar)
  ultimately show ?case
    using ne by (auto simp: m s sq bind_extend closes_append skip_space_append)
next
  case (4 n d s)
  obtain m' where m: "m = Suc m'" "n \<le> m'" using 4(4) by (cases m) auto
  show ?case
    unfolding m scan_elements.simps
  proof (rule bind_extendI [OF 4(3) [unfolded scan_elements.simps]], goal_cases)
    case 1
    then show ?case using m(2) by (intro 4(1)) auto
  next
    case (2 v r)
    then show ?case
    proof (simp only: prod.case, elim bind_extendI, goal_cases)
      case 1
      then show ?case by (intro scan_next_extend) auto
    next
      case (2 b r')
      then show ?case
        using 4(2) [OF \<open>scan_value n d s = Inr (v, r)\<close> refl \<open>scan_next (CHR '']'') r = Inr (b, r')\<close> refl, of m'] m(2)
        by (auto intro!: bind_extend_cong)
    qed
  qed
next
  case (6 n d s)
  obtain m' where m: "m = Suc m'" "n \<le> m'" using 6(4) by (cases m) auto
  show ?case
    unfolding m scan_members.simps
  proof (rule bind_extendI [OF 6(3) [unfolded scan_members.simps]], goal_cases)
    case 1
    then show ?case by (intro scan_key_extend) auto
  next
    case (2 k r0)
    note k = \<open>scan_key s = Inr (k, r0)\<close>
    from 2 show ?case
    proof (simp only: prod.case, elim bind_extendI, goal_cases)
      case 1
      then show ?case using m(2) by (intro 6(1) [OF k refl]) auto
    next
      case (2 v r)
      note v = \<open>scan_value n d r0 = Inr (v, r)\<close>
      from 2 show ?case
      proof (simp only: prod.case, elim bind_extendI, goal_cases)
        case 1
        then show ?case by (intro scan_next_extend) auto
      next
        case (2 b r')
        then show ?case
          using 6(2) [OF k refl v refl \<open>scan_next (CHR ''}'') r = Inr (b, r')\<close> refl, of m'] m(2)
          by (auto intro!: bind_extend_cong)
      qed
    qed
  qed
qed simp_all

text \<open>A text that is one array or object and nothing else has no proper prefix that is scanned.\<close>

lemma scan_json_prefix:
  assumes "scan_json (p @ q) = Inr (v, [])" and "q \<noteq> []" and "\<not> scalar v"
  shows "scan_json p = Inl UnexpectedEOF \<or> (\<exists>v'. scalar v' \<and> scan_json p = Inr (v', []))"
proof (rule ccontr)
  assume *: "\<not> ?thesis"
  then have "scan_value (Suc (2 * length (p @ q))) max_nesting (p @ q) = extend q (scan_json p)"
    unfolding scan_json_def by (intro scan_value_extend) auto
  with assms(1,2) have "extend q (scan_json p) = Inr (v, [])" unfolding scan_json_def by simp
  with \<open>q \<noteq> []\<close> show False by (cases "scan_json p") auto
qed

section \<open>What is printed is scanned\<close>

definition str_ok :: "string \<Rightarrow> bool" where
  "str_ok s \<longleftrightarrow> scan_string InString [] (s @ [CHR 0x22]) = Inr (s, [])"

definition num_ok :: "string \<Rightarrow> bool" where
  "num_ok s \<longleftrightarrow> s \<noteq> [] \<and> (hd s = CHR ''-'' \<or> is_digit (hd s)) \<and>
     scan_number (num_start (hd s)) [hd s] (tl s) = Inr (s, [])"

text \<open>The values that can stand in a document: texts the scanner accepts, nested at most \<open>d\<close> deep.\<close>

fun json_ok :: "int \<Rightarrow> json \<Rightarrow> bool" where
  "json_ok d JNull = True"
| "json_ok d (JBool b) = True"
| "json_ok d (JNum s) = num_ok s"
| "json_ok d (JStr s) = str_ok s"
| "json_ok d (JArr vs) = (0 < d \<and> list_all (json_ok (d - 1)) vs)"
| "json_ok d (JObj kvs) = (0 < d \<and> list_all (\<lambda>kv. str_ok (fst kv) \<and> json_ok (d - 1) (snd kv)) kvs)"

definition ends_value :: "string \<Rightarrow> bool" where
  "ends_value r \<longleftrightarrow> (case r of [] \<Rightarrow> True | c # _ \<Rightarrow> json_space c \<or> c = CHR '','' \<or> c = CHR '']'' \<or> c = CHR ''}'')"

lemma str_ok_scan: "str_ok s \<Longrightarrow> scan_string InString [] (s @ CHR 0x22 # rest) = Inr (s, rest)"
  using scan_string_extend [of InString "[]" "s @ [CHR 0x22]" rest] by (simp add: str_ok_def)

lemma scan_number_ends:
  "scan_number st acc s = Inr (v, []) \<Longrightarrow> ends_value rest \<Longrightarrow> scan_number st acc (s @ rest) = Inr (v, rest)"
proof (induction st acc s rule: scan_number.induct)
  case (1 st acc)
  show ?case
  proof (cases rest)
    case (Cons c cs)
    with 1(2) have "num_step st c = None"
      by (cases st) (auto simp: ends_value_def json_space_def is_digit_def)
    with 1 Cons show ?thesis by (auto split: if_splits)
  qed (use 1 in simp)
qed (auto split: option.splits if_splits)

lemma num_head:
  "c = CHR ''-'' \<or> is_digit c \<Longrightarrow> \<not> json_space c \<and> c \<notin> {CHR ''['', CHR ''{'', CHR '']'', CHR ''}'', CHR 0x22}"
  by (auto simp: json_space_def is_digit_def)

lemma num_ok_scan: "num_ok s \<Longrightarrow> ends_value rest \<Longrightarrow> scan_scalar (hd s) (tl s @ rest) = Inr (JNum s, rest)"
  using scan_number_ends [of "num_start (hd s)" "[hd s]" "tl s" s rest] num_head [of "hd s"]
  by (auto simp: num_ok_def scan_scalar_def)

lemma scan_literal_append [simp]: "scan_literal w (w @ r) = Inr r"
  by (induction w) auto

lemma skip_space_ws [simp]: "list_all json_space ws \<Longrightarrow> skip_space (ws @ s) = skip_space s"
  by (induction ws) (auto simp: skip_space_def)

lemma skip_space_Cons [simp]: "\<not> json_space c \<Longrightarrow> skip_space (c # s) = c # s"
  by (simp add: skip_space_def)

lemma json_spaces [simp]:
  "\<not> json_space (CHR 0x22)" "\<not> json_space (CHR ''['')" "\<not> json_space (CHR ''{'')" "\<not> json_space (CHR '']'')"
  "\<not> json_space (CHR ''}'')" "\<not> json_space (CHR '','')" "\<not> json_space (CHR '':'')" "\<not> json_space (CHR ''t'')"
  "\<not> json_space (CHR ''f'')" "\<not> json_space (CHR ''n'')"
  by (simp_all add: json_space_def)

lemma ends_value_simps [simp]:
  "ends_value []" "ends_value (CHR '','' # r)" "ends_value (CHR '']'' # r)" "ends_value (CHR ''}'' # r)"
  by (simp_all add: ends_value_def)

lemma ends_value_ws: "list_all json_space ws \<Longrightarrow> ends_value r \<Longrightarrow> ends_value (ws @ r)"
  by (cases ws) (auto simp: ends_value_def)

lemma scan_value_ws: "list_all json_space ws \<Longrightarrow> scan_value n d (ws @ s) = scan_value n d s"
  by (cases n) auto

lemma scan_key_ws: "list_all json_space ws \<Longrightarrow> scan_key (ws @ s) = scan_key s"
  by (simp add: scan_key_def)

lemma join_Cons: "join sep (x # xs) = (if xs = [] then x else x @ sep @ join sep xs)"
  by (cases xs) auto

lemma print_head:
  assumes "json_ok d v"
  shows "\<exists>c cs. print_json nl colon k v = c # cs \<and> \<not> json_space c \<and> c \<noteq> CHR '']'' \<and> c \<noteq> CHR ''}''"
proof (cases v)
  case (JNum s)
  with assms have "num_ok s" by simp
  then have "s \<noteq> []" "hd s = CHR ''-'' \<or> is_digit (hd s)" by (auto simp: num_ok_def)
  with num_head [OF this(2)] JNum show ?thesis by (cases s) auto
qed (auto simp: quoted_def)

text \<open>
  The scanner reads back the printed elements of an array, given that it reads back each of
  them, and the same for the members of an object.
\<close>

definition reads_back :: "(json \<Rightarrow> string) \<Rightarrow> int \<Rightarrow> json \<Rightarrow> bool" where
  "reads_back pr d v \<longleftrightarrow> (\<forall>rest n. ends_value rest \<longrightarrow> 2 * length (pr v @ rest) < n \<longrightarrow>
     scan_value n d (pr v @ rest) = Inr (v, rest))"

lemma scan_elements_print:
  assumes "\<forall>v \<in> set vs. reads_back pr d v" and "vs \<noteq> []"
    and "list_all json_space ws" and "list_all json_space we" and "list_all json_space w0"
    and "2 * length (w0 @ join ('','' @ ws) (map pr vs) @ we @ CHR '']'' # rest) + 1 < n"
  shows "scan_elements n d (w0 @ join ('','' @ ws) (map pr vs) @ we @ CHR '']'' # rest) = Inr (vs, rest)"
  using assms
proof (induction vs arbitrary: w0 n)
  case (Cons v vs)
  obtain n' where n: "n = Suc n'" using Cons.prems(6) by (cases n) auto
  let ?tl = "if vs = [] then we @ CHR '']'' # rest else '','' @ ws @ join ('','' @ ws) (map pr vs) @ we @ CHR '']'' # rest"
  have "scan_value n' d (w0 @ pr v @ ?tl) = Inr (v, ?tl)"
    using Cons.prems unfolding scan_value_ws [OF Cons.prems(5)]
    by (auto simp: reads_back_def n join_Cons ends_value_ws split: if_splits)
  moreover have "scan_elements n' d (ws @ join ('','' @ ws) (map pr vs) @ we @ CHR '']'' # rest) = Inr (vs, rest)"
    if "vs \<noteq> []" using Cons.prems that by (intro Cons.IH) (auto simp: n join_Cons)
  ultimately show ?case
    using Cons.prems(3,4) by (auto simp: n join_Cons scan_next_def split: if_splits)
qed simp

lemma scan_members_print:
  assumes "\<forall>kv \<in> set kvs. str_ok (fst kv) \<and> reads_back pr d (snd kv)" and "kvs \<noteq> []" and "list_all json_space sp"
    and "list_all json_space ws" and "list_all json_space we" and "list_all json_space w0"
    and "2 * length (w0 @ join ('','' @ ws) (map (\<lambda>kv. quoted (fst kv) @ ('':'' @ sp) @ pr (snd kv)) kvs) @ we @ CHR ''}'' # rest) < n"
  shows "scan_members n d (w0 @ join ('','' @ ws) (map (\<lambda>kv. quoted (fst kv) @ ('':'' @ sp) @ pr (snd kv)) kvs) @ we @ CHR ''}'' # rest) =
    Inr (kvs, rest)"
  using assms
proof (induction kvs arbitrary: w0 n)
  case (Cons kv kvs)
  let ?pr = "\<lambda>kv. quoted (fst kv) @ ('':'' @ sp) @ pr (snd kv)"
  obtain n' where n: "n = Suc n'" using Cons.prems(7) by (cases n) auto
  let ?tl = "if kvs = [] then we @ CHR ''}'' # rest else '','' @ ws @ join ('','' @ ws) (map ?pr kvs) @ we @ CHR ''}'' # rest"
  have k: "scan_key (w0 @ ?pr kv @ ?tl) = Inr (fst kv, sp @ pr (snd kv) @ ?tl)"
    unfolding scan_key_ws [OF Cons.prems(6)] using Cons.prems(1) by (simp add: scan_key_def quoted_def str_ok_scan)
  have v: "scan_value n' d (sp @ pr (snd kv) @ ?tl) = Inr (snd kv, ?tl)"
    using Cons.prems unfolding scan_value_ws [OF Cons.prems(3)]
    by (auto simp: reads_back_def n join_Cons ends_value_ws split: if_splits)
  have "scan_members n' d (ws @ join ('','' @ ws) (map ?pr kvs) @ we @ CHR ''}'' # rest) = Inr (kvs, rest)"
    if "kvs \<noteq> []" using Cons.prems that by (intro Cons.IH) (auto simp: n join_Cons)
  with k v show ?case
    using Cons.prems(4,5) by (auto simp: n join_Cons scan_next_def split: if_splits)
qed simp

lemma reads_back_scalar:
  assumes "pr v \<noteq> []" and "\<not> json_space (hd (pr v))" and "hd (pr v) \<notin> {CHR ''['', CHR ''{''}"
    and "\<And>rest. ends_value rest \<Longrightarrow> scan_scalar (hd (pr v)) (tl (pr v) @ rest) = Inr (v, rest)"
  shows "reads_back pr d v"
  unfolding reads_back_def
proof (intro allI impI)
  fix rest n
  assume "ends_value rest" and "2 * length (pr v @ rest) < n"
  then obtain n' where "n = Suc n'" by (cases n) auto
  moreover obtain c cs where "pr v = c # cs" using assms(1) by (cases "pr v") auto
  ultimately show "scan_value n d (pr v @ rest) = Inr (v, rest)"
    using assms \<open>ends_value rest\<close> by simp
qed

lemma num_ok_head: "num_ok s \<Longrightarrow> s \<noteq> [] \<and> \<not> json_space (hd s) \<and> hd s \<noteq> CHR ''['' \<and> hd s \<noteq> CHR ''{''"
  using num_head [of "hd s"] by (auto simp: num_ok_def)

lemma reads_back_array:
  assumes ws: "\<And>k. list_all json_space (nl k)" and ok: "json_ok d (JArr vs)"
    and el: "\<And>v. v \<in> set vs \<Longrightarrow> reads_back (print_json nl colon (Suc k)) (d - 1) v"
  shows "reads_back (print_json nl colon k) d (JArr vs)"
  unfolding reads_back_def
proof (intro allI impI)
  let ?pr = "print_json nl colon (Suc k)"
  fix rest n
  assume n: "2 * length (print_json nl colon k (JArr vs) @ rest) < n"
  then obtain n' where n': "n = Suc n'" by (cases n) auto
  show "scan_value n d (print_json nl colon k (JArr vs) @ rest) = Inr (JArr vs, rest)"
  proof (cases vs)
    case Nil
    then show ?thesis using ok by (simp add: n' closes_def)
  next
    case (Cons v vs')
    have "scan_elements n' (d - 1) (nl (Suc k) @ join ('','' @ nl (Suc k)) (map ?pr vs) @ nl k @ CHR '']'' # rest) =
        Inr (vs, rest)"
      using n Cons ws el by (intro scan_elements_print) (auto simp: n')
    moreover have "\<not> closes (CHR '']'') (nl (Suc k) @ join ('','' @ nl (Suc k)) (map ?pr vs) @ nl k @ CHR '']'' # rest)"
      using ok Cons print_head [of "d - 1" v nl colon "Suc k"] ws by (auto simp: closes_def join_Cons)
    ultimately show ?thesis using ok Cons by (simp add: n')
  qed
qed

lemma reads_back_object:
  assumes ws: "\<And>k. list_all json_space (nl k)" "list_all json_space sp" and ok: "json_ok d (JObj kvs)"
    and el: "\<And>kv. kv \<in> set kvs \<Longrightarrow> reads_back (print_json nl ('':'' @ sp) (Suc k)) (d - 1) (snd kv)"
  shows "reads_back (print_json nl ('':'' @ sp) k) d (JObj kvs)"
  unfolding reads_back_def
proof (intro allI impI)
  let ?mem = "\<lambda>kv. quoted (fst kv) @ ('':'' @ sp) @ print_json nl ('':'' @ sp) (Suc k) (snd kv)"
  fix rest n
  assume n: "2 * length (print_json nl ('':'' @ sp) k (JObj kvs) @ rest) < n"
  then obtain n' where n': "n = Suc n'" by (cases n) auto
  show "scan_value n d (print_json nl ('':'' @ sp) k (JObj kvs) @ rest) = Inr (JObj kvs, rest)"
  proof (cases kvs)
    case Nil
    then show ?thesis using ok by (simp add: n' closes_def)
  next
    case (Cons kv kvs')
    have "str_ok (fst kv)" if "kv \<in> set kvs" for kv using ok that by (auto simp: list_all_iff)
    then have "scan_members n' (d - 1) (nl (Suc k) @ join ('','' @ nl (Suc k)) (map ?mem kvs) @ nl k @ CHR ''}'' # rest) =
        Inr (kvs, rest)"
      using n Cons ws el by (intro scan_members_print) (auto simp: n')
    moreover have "\<not> closes (CHR ''}'') (nl (Suc k) @ join ('','' @ nl (Suc k)) (map ?mem kvs) @ nl k @ CHR ''}'' # rest)"
      using Cons ws by (auto simp: closes_def join_Cons quoted_def)
    ultimately show ?thesis using ok Cons by (simp add: n')
  qed
qed

lemma print_reads_back:
  assumes "\<And>k. list_all json_space (nl k)" and "list_all json_space sp"
  shows "json_ok d v \<Longrightarrow> reads_back (print_json nl ('':'' @ sp) k) d v"
proof (induction v arbitrary: d k)
  case (JArr vs)
  then show ?case using assms(1) by (intro reads_back_array) (auto simp: list_all_iff)
next
  case (JObj kvs)
  then show ?case using assms by (intro reads_back_object) (fastforce simp: list_all_iff)+
next
  case (JNum s)
  then show ?case using num_ok_head [of s] by (intro reads_back_scalar) (auto simp: num_ok_scan)
next
  case (JBool b)
  then show ?case by (intro reads_back_scalar) (cases b; simp add: scan_scalar_def is_digit_def)+
qed (auto intro!: reads_back_scalar simp: quoted_def scan_scalar_def str_ok_scan is_digit_def)

lemma reads_back_scan: "reads_back pr max_nesting v \<Longrightarrow> ends_value rest \<Longrightarrow> scan_json (pr v @ rest) = Inr (v, rest)"
  unfolding scan_json_def reads_back_def by blast

lemma scan_print_json:
  assumes "json_ok max_nesting v" and "ends_value rest"
  shows "scan_json (compact_json v @ rest) = Inr (v, rest)"
    and "scan_json (indented_json v @ rest) = Inr (v, rest)"
proof -
  note pr = reads_back_scan [OF print_reads_back [OF _ _ assms(1)] assms(2)]
  show "scan_json (compact_json v @ rest) = Inr (v, rest)"
    using pr [of "\<lambda>_. []" "[]" 0] by (simp add: compact_json_def)
  have "list_all json_space (CHR 0x0A # replicate (2 * k) (CHR '' ''))" for k
    by (auto simp: json_space_def list_all_iff)
  then show "scan_json (indented_json v @ rest) = Inr (v, rest)"
    using pr [of "\<lambda>d. CHR 0x0A # replicate (2 * d) (CHR '' '')" "'' ''" 0]
    by (simp add: indented_json_def json_space_def)
qed

section \<open>Decoding\<close>

text \<open>\<open>utf8.AppendRune\<close>, and the value of four hexadecimal digits.\<close>

definition utf8 :: "int \<Rightarrow> string" where
  "utf8 n =
     (if n < 128 then [char_of n]
      else if n < 2048 then [char_of (192 + n div 64), char_of (128 + n mod 64)]
      else if n < 65536 then [char_of (224 + n div 4096), char_of (128 + n div 64 mod 64), char_of (128 + n mod 64)]
      else [char_of (240 + n div 262144), char_of (128 + n div 4096 mod 64),
            char_of (128 + n div 64 mod 64), char_of (128 + n mod 64)])"

text \<open>\<open>getu4\<close>: the value of an escape \<open>\u\<close> with four hexadecimal digits at the start of the text.\<close>

definition getu4 :: "string \<Rightarrow> int option" where
  "getu4 s =
     (if length s < 6 \<or> take 2 s \<noteq> [CHR 0x5C, CHR ''u''] \<or> \<not> list_all is_hex (take 4 (drop 2 s)) then None
      else Some (hex_value (take 4 (drop 2 s))))"

definition unescape_char :: "char \<Rightarrow> char" where
  "unescape_char c =
     (if c = CHR ''b'' then CHR 0x08
      else if c = CHR ''f'' then CHR 0x0C
      else if c = CHR ''n'' then CHR 0x0A
      else if c = CHR ''r'' then CHR 0x0D
      else if c = CHR ''t'' then CHR 0x09
      else c)"

text \<open>
  \<open>unquote\<close> of a scanned string: two escapes that form a surrogate pair are one character, a lone
  surrogate is the replacement character.
\<close>

function unquote :: "string \<Rightarrow> string" where
  "unquote s =
     (case s of
        [] \<Rightarrow> []
      | c # cs \<Rightarrow>
          if c \<noteq> CHR 0x5C then c # unquote cs
          else case getu4 s of
              Some u \<Rightarrow>
                if u < 55296 \<or> 57344 \<le> u then utf8 u @ unquote (drop 6 s)
                else (case getu4 (drop 6 s) of
                    Some w \<Rightarrow>
                      if u < 56320 \<and> 56320 \<le> w \<and> w < 57344
                      then utf8 (65536 + (u - 55296) * 1024 + (w - 56320)) @ unquote (drop 12 s)
                      else utf8 65533 @ unquote (drop 6 s)
                  | None \<Rightarrow> utf8 65533 @ unquote (drop 6 s))
            | None \<Rightarrow> (case cs of [] \<Rightarrow> [] | e # es \<Rightarrow> unescape_char e # unquote es))"
  by pat_completeness auto
termination
  by (relation "measure length") auto

declare unquote.simps [simp del]

lemma unquote_simps [simp]:
  "unquote [] = []"
  "c \<noteq> CHR 0x5C \<Longrightarrow> unquote (c # cs) = c # unquote cs"
  "e \<noteq> CHR ''u'' \<Longrightarrow> unquote (CHR 0x5C # e # es) = unescape_char e # unquote es"
  by (simp_all add: unquote.simps [of "[]"] unquote.simps [of "c # cs"] unquote.simps [of "CHR 0x5C # e # es"] getu4_def)

text \<open>
  Decoding into a field: \<open>null\<close> leaves it as it is. \<open>strconv.ParseInt\<close> and \<open>ParseUint\<close> take the text of
  the number.
\<close>

definition decode_string :: "json \<Rightarrow> string \<Rightarrow> json_error + string" where
  "decode_string v old = (case v of JNull \<Rightarrow> Inr old | JStr s \<Rightarrow> Inr (unquote s) | _ \<Rightarrow> Inl BadValue)"

definition decode_int :: "json \<Rightarrow> int \<Rightarrow> json_error + int" where
  "decode_int v old =
     (case v of
        JNull \<Rightarrow> Inr old
      | JNum s \<Rightarrow> (case atoi s of None \<Rightarrow> Inl BadValue | Some i \<Rightarrow> Inr i)
      | _ \<Rightarrow> Inl BadValue)"

definition decode_uint :: "json \<Rightarrow> nat \<Rightarrow> json_error + nat" where
  "decode_uint v old =
     (case v of
        JNull \<Rightarrow> Inr old
      | JNum s \<Rightarrow>
          if list_all is_digit s \<and> read_dec s < 2 ^ 64 then Inr (nat (read_dec s)) else Inl BadValue
      | _ \<Rightarrow> Inl BadValue)"

text \<open>
  The members of an object, in order, into a struct: \<open>field\<close> decodes the value of a known key, found
  without regard to case, and ignores other keys.
\<close>

fun decode_members :: "(string \<Rightarrow> json \<Rightarrow> 'a \<Rightarrow> json_error + 'a) \<Rightarrow> (string \<times> json) list \<Rightarrow> 'a \<Rightarrow> json_error + 'a" where
  "decode_members field [] x = Inr x"
| "decode_members field ((k, v) # kvs) x =
     bind_err (field (to_lower (unquote k)) v x) (decode_members field kvs)"

definition decode_struct :: "(string \<Rightarrow> json \<Rightarrow> 'a \<Rightarrow> json_error + 'a) \<Rightarrow> json \<Rightarrow> 'a \<Rightarrow> json_error + 'a" where
  "decode_struct field v x =
     (case v of JNull \<Rightarrow> Inr x | JObj kvs \<Rightarrow> decode_members field kvs x | _ \<Rightarrow> Inl BadValue)"

text \<open>The elements of an array, over the elements the slice already has and then over new ones.\<close>

fun decode_elements :: "(json \<Rightarrow> 'a \<Rightarrow> json_error + 'a) \<Rightarrow> 'a \<Rightarrow> json list \<Rightarrow> 'a list \<Rightarrow> json_error + 'a list" where
  "decode_elements elem zero [] old = Inr []"
| "decode_elements elem zero (v # vs) old =
     bind_err (elem v (case old of [] \<Rightarrow> zero | x # _ \<Rightarrow> x)) (\<lambda>x.
     bind_err (decode_elements elem zero vs (tl old)) (\<lambda>xs. Inr (x # xs)))"

definition slice_elems :: "'a list option \<Rightarrow> 'a list" where
  "slice_elems s = (case s of None \<Rightarrow> [] | Some xs \<Rightarrow> xs)"

definition decode_slice ::
  "(json \<Rightarrow> 'a \<Rightarrow> json_error + 'a) \<Rightarrow> 'a \<Rightarrow> json \<Rightarrow> 'a list option \<Rightarrow> json_error + 'a list option" where
  "decode_slice elem zero v old =
     (case v of
        JNull \<Rightarrow> Inr None
      | JArr vs \<Rightarrow> bind_err (decode_elements elem zero vs (slice_elems old)) (\<lambda>xs. Inr (Some xs))
      | _ \<Rightarrow> Inl BadValue)"

section \<open>Encoded strings and numbers are read back\<close>

definition ascii :: "string \<Rightarrow> bool" where
  "ascii s \<longleftrightarrow> list_all (\<lambda>c. (of_char c :: nat) < 128) s"

lemma hex_digit_val:
  assumes "0 \<le> d" and "d < 16"
  shows "hex_val (hex_digit d) = Some d"
  using assms of_char_char_of_int [of "48 + d"] of_char_char_of_int [of "87 + d"]
  by (auto simp: hex_val_def hex_digit_def Let_def)

lemma of_char_int: "(of_char c :: int) = int (of_char c :: nat)"
  by (rule of_nat_of_char [symmetric])

lemma of_char_int_bounds: "0 \<le> (of_char c :: int)" "(of_char c :: int) < 256"
  unfolding of_char_int using nat_of_char_less_256 [of c] by linarith+

lemma getu4_escaped:
  assumes "0 \<le> n" and "n < 256"
  shows "getu4 (CHR 0x5C # ''u00'' @ [hex_digit (n div 16), hex_digit (n mod 16)] @ rest) = Some n"
proof -
  have "hex_val (hex_digit (n div 16)) = Some (n div 16)" "hex_val (hex_digit (n mod 16)) = Some (n mod 16)"
    using assms by (intro hex_digit_val; simp)+
  moreover have "hex_val (CHR ''0'') = Some 0" by code_simp
  ultimately show ?thesis by (simp add: getu4_def is_hex_def hex_value_def)
qed

lemma control_chars:
  "char_of (8 :: int) = CHR 0x08" "char_of (9 :: int) = CHR 0x09" "char_of (10 :: int) = CHR 0x0A"
  "char_of (12 :: int) = CHR 0x0C" "char_of (13 :: int) = CHR 0x0D"
  by code_simp+

lemma unquote_escape_char:
  assumes "(of_char c :: nat) < 128"
  shows "unquote (escape_char c @ rest) = c # unquote rest"
proof -
  define n where "n = (of_char c :: int)"
  have n: "0 \<le> n" "n < 128" "char_of n = c"
    using assms of_char_int_bounds [of c] by (simp_all add: n_def of_char_int [of c])
  show ?thesis
  proof (cases "escape_char c = CHR 0x5C # ''u00'' @ [hex_digit (n div 16), hex_digit (n mod 16)]")
    case True
    then show ?thesis
      using n getu4_escaped [of n rest] by (subst unquote.simps) (simp add: utf8_def n(3))
  next
    case False
    then have "escape_char c \<in> {[c]} \<and> c \<noteq> CHR 0x5C \<or> escape_char c = [CHR 0x5C, c] \<and> (c = CHR 0x5C \<or> c = CHR 0x22) \<or>
      (escape_char c, n) \<in> {([CHR 0x5C, CHR ''b''], 8), ([CHR 0x5C, CHR ''f''], 12), ([CHR 0x5C, CHR ''n''], 10),
        ([CHR 0x5C, CHR ''r''], 13), ([CHR 0x5C, CHR ''t''], 9)}"
      unfolding escape_char_def Let_def n_def [symmetric] by (auto split: if_splits)
    moreover have "c = char_of k" if "n = k" for k using that n(3) by simp
    ultimately show ?thesis by (auto simp: unescape_char_def control_chars)
  qed
qed

lemma unquote_escape: "ascii s \<Longrightarrow> unquote (escape s) = s"
  by (induction s) (auto simp: ascii_def escape_def unquote_escape_char)

lemma hex_digit_hex: "0 \<le> d \<Longrightarrow> d < 16 \<Longrightarrow> is_hex (hex_digit d)"
  by (simp add: is_hex_def hex_digit_val)

lemma scan_escape_char:
  "\<exists>acc'. scan_string InString acc (escape_char c @ rest) = scan_string InString acc' rest \<and> acc' = rev (escape_char c) @ acc"
proof -
  define n where "n = (of_char c :: int)"
  have n: "0 \<le> n" "n < 256" using of_char_int_bounds [of c] by (simp_all add: n_def)
  have hex: "is_hex (hex_digit (n div 16))" "is_hex (hex_digit (n mod 16))" "is_hex (CHR ''0'')"
  proof -
    show "is_hex (CHR ''0'')" by code_simp
  qed (use n in \<open>auto intro!: hex_digit_hex\<close>)
  show ?thesis
    unfolding escape_char_def Let_def n_def [symmetric]
    using hex by (auto simp: numeral_3_eq_3 n_def of_char_int [of c])
qed

lemma str_ok_escape [simp]: "str_ok (escape s)"
proof -
  have "scan_string InString acc (escape s @ [CHR 0x22]) = Inr (rev acc @ escape s, [])" for acc
  proof (induction s arbitrary: acc)
    case (Cons c s)
    show ?case using scan_escape_char [of acc c "escape s @ [CHR 0x22]"] Cons by (auto simp: escape_def)
  qed (simp add: escape_def)
  from this [of "[]"] show ?thesis by (simp add: str_ok_def)
qed

lemma scan_digits: "list_all is_digit ds \<Longrightarrow> scan_number NumInt acc ds = Inr (rev acc @ ds, [])"
  by (induction ds arbitrary: acc) (auto simp: num_complete_def)

lemma show_dec_head: "0 < n \<Longrightarrow> hd (show_dec n) \<noteq> CHR ''0''"
proof (induction n rule: show_dec.induct)
  case (1 n)
  show ?case
  proof (cases "n < 10")
    case True
    have "digit_val (digit_char n) = n" using 1(2) True by (intro digit_char_digit) auto
    then have "digit_char n \<noteq> CHR ''0''" using 1(2) by (auto simp: digit_val_def)
    with True show ?thesis by (simp add: show_dec.simps [of n])
  next
    case False
    then have "hd (show_dec (n div 10)) \<noteq> CHR ''0''" by (intro 1(1)) auto
    with False show ?thesis by (simp add: show_dec.simps [of n])
  qed
qed

lemma show_dec_scan:
  assumes "0 < n"
  obtains c cs where "show_dec n = c # cs" "is_digit c" "c \<noteq> CHR ''0''" "c \<noteq> CHR ''-''"
    "\<And>acc. scan_number NumInt acc cs = Inr (rev acc @ cs, [])"
proof -
  obtain c cs where s: "show_dec n = c # cs" by (cases "show_dec n") auto
  then have "is_digit c \<and> list_all is_digit cs" using show_dec_digits [of n] assms by simp
  with that [OF s] s show_dec_head [OF assms] scan_digits [of cs] is_digit_neq [of c] show thesis by auto
qed

lemma zero_digit: "digit_char 0 = CHR ''0''"
  by code_simp

lemma num_ok_show_dec [simp]: "0 \<le> n \<Longrightarrow> num_ok (show_dec n)"
proof (cases "n = 0")
  case False
  assume "0 \<le> n"
  with False have "0 < n" by simp
  then show ?thesis
    by (elim show_dec_scan) (auto simp: num_ok_def num_start_def)
qed (simp add: num_ok_def num_start_def show_dec.simps [of 0] zero_digit is_digit_def num_complete_def)

lemma num_ok_itoa [simp]: "num_ok (itoa i)"
proof (cases "i < 0")
  case True
  then have "0 < - i" by simp
  then show ?thesis
    by (elim show_dec_scan) (use True in \<open>auto simp: num_ok_def num_start_def itoa_def\<close>)
qed (simp add: itoa_def)

lemma decode_encoded [simp]:
  "ascii s \<Longrightarrow> decode_string (JStr (escape s)) old = Inr s"
  "in_int64 i \<Longrightarrow> decode_int (JNum (itoa i)) old' = Inr i"
  "n < 2 ^ 64 \<Longrightarrow> decode_uint (JNum (itoa (int n))) old'' = Inr n"
proof -
  show "n < 2 ^ 64 \<Longrightarrow> decode_uint (JNum (itoa (int n))) old'' = Inr n"
    using show_dec_digits [of "int n"] read_show_dec [of "int n"] by (simp add: decode_uint_def itoa_def)
qed (simp_all add: decode_string_def unquote_escape decode_int_def atoi_itoa)

end
