(* ===== verification/Status.thy ===== *)
theory Status
  imports Runtimecfg GoTime GoJson
begin

text \<open>
  \<open>internal/status/server.go\<close>: the document served on the status socket, its JSON text, the life of the
  socket, and the client that reads it. What the operating system answers is an argument of the
  definitions, and so is the local time zone. The lemmas show that the client gets back the document
  the server wrote, or an error, never a part of it.
\<close>

section \<open>The document\<close>

record RuntimeStats =
  rt_Goroutines :: int
  rt_OpenFDs :: int
  rt_HeapAlloc :: nat
  rt_HeapInUse :: nat
  rt_Sys :: nat

text \<open>The upstreams are a slice; \<^const>\<open>None\<close> is the nil slice.\<close>

record ('st, 'tm) document =
  doc_Version :: string
  doc_StartedAt :: 'tm
  doc_Active :: string
  doc_Upstreams :: "('st, 'tm) snapshot list option"
  doc_Runtime :: RuntimeStats
  doc_Reload :: "'tm reload_status"

text \<open>
  A document as it is written and read: the states are text, and each time has the offset of its
  location. The times of the program are in the local zone, whose offset at an instant is \<open>tz\<close>; the
  zero time is in UTC.
\<close>

type_synonym Snapshot_text = "(string, stamp) snapshot"

type_synonym Document = "(string, stamp) document"

definition in_zone :: "(time \<Rightarrow> int) \<Rightarrow> time \<Rightarrow> stamp" where
  "in_zone tz t = (t, if t = 0 then 0 else tz t)"

definition snapshot_text :: "(time \<Rightarrow> int) \<Rightarrow> Snapshot \<Rightarrow> Snapshot_text" where
  "snapshot_text tz s =
     \<lparr>s_Name = s_Name s, s_Priority = s_Priority s, s_Protocol = s_Protocol s, s_Endpoint = s_Endpoint s,
      s_State = state_text (s_State s), s_ConsecutiveFailures = s_ConsecutiveFailures s,
      s_ConsecutiveSuccess = s_ConsecutiveSuccess s, s_LastSuccess = in_zone tz (s_LastSuccess s),
      s_LastFailure = in_zone tz (s_LastFailure s), s_LastError = s_LastError s, s_LastLatency = s_LastLatency s\<rparr>"

definition reload_text :: "(time \<Rightarrow> int) \<Rightarrow> ReloadStatus \<Rightarrow> stamp reload_status" where
  "reload_text tz r = \<lparr>rs_Count = rs_Count r, rs_LastAt = in_zone tz (rs_LastAt r), rs_LastError = rs_LastError r\<rparr>"

definition document_text :: "(time \<Rightarrow> int) \<Rightarrow> (State, time) document \<Rightarrow> Document" where
  "document_text tz d =
     \<lparr>doc_Version = doc_Version d, doc_StartedAt = in_zone tz (doc_StartedAt d), doc_Active = doc_Active d,
      doc_Upstreams = map_option (map (snapshot_text tz)) (doc_Upstreams d),
      doc_Runtime = doc_Runtime d, doc_Reload = reload_text tz (doc_Reload d)\<rparr>"

record StatusServer =
  ss_path :: string
  ss_version :: string
  ss_startedAt :: time

definition NewStatus :: "string \<Rightarrow> string \<Rightarrow> time \<Rightarrow> StatusServer" where
  "NewStatus path version now = \<lparr>ss_path = path, ss_version = version, ss_startedAt = now\<rparr>"

text \<open>What the runtime reports when the document is written; no \<open>ps_fds\<close> when the directory cannot be read.\<close>

record process_stats =
  ps_goroutines :: int
  ps_fds :: "nat option"
  ps_heapAlloc :: nat
  ps_heapInuse :: nat
  ps_sys :: nat

text \<open>
  The document \<open>write\<close> encodes. Other goroutines act on the manager meanwhile, and \<open>Active\<close> and
  \<open>Snapshots\<close> lock one entry at a time: \<open>atActive p\<close> and \<open>atSnapshots p\<close> are what has been recorded
  until they read entry \<open>p\<close>. The store that \<open>ReloadStatus\<close> reads is \<open>later\<close>.
\<close>

definition status_document ::
  "StatusServer \<Rightarrow> process_stats \<Rightarrow> (ptr \<Rightarrow> mgr_event list) \<Rightarrow> (ptr \<Rightarrow> mgr_event list) \<Rightarrow> Store \<Rightarrow> Store \<Rightarrow>
   (State, time) document" where
  "status_document srv ps atActive atSnapshots later s =
     (let m = r_Manager (LoadRuntime s) in
      \<lparr>doc_Version = ss_version srv,
       doc_StartedAt = ss_startedAt srv,
       doc_Active = active_seen (\<lambda>p. s_State (snap_at (mgr_run (atActive p) m) p)) m,
       doc_Upstreams = Some (snapshots_seen (\<lambda>p. snap_at (mgr_run (atSnapshots p) m) p) m),
       doc_Runtime =
         \<lparr>rt_Goroutines = ps_goroutines ps,
          rt_OpenFDs = (case ps_fds ps of None \<Rightarrow> -1 | Some n \<Rightarrow> int n),
          rt_HeapAlloc = ps_heapAlloc ps, rt_HeapInUse = ps_heapInuse ps, rt_Sys = ps_sys ps\<rparr>,
       doc_Reload = ReloadStatusOf later\<rparr>)"

section \<open>The document as JSON\<close>

text \<open>
  The encoder writes the fields in their order under the names of their tags. A field with
  \<open>omitempty\<close> is left out when it is empty; on a \<open>time.Time\<close>, a struct, the tag has no effect. No
  JSON (\<^const>\<open>None\<close>) is the error of \<open>MarshalJSON\<close> for a time.
\<close>

definition time_json :: "stamp \<Rightarrow> json option" where
  "time_json t = map_option JStr (format_rfc3339 (snd t) (fst t))"

abbreviation string_json :: "string \<Rightarrow> json" where
  "string_json s \<equiv> JStr (escape s)"

abbreviation int_json :: "int \<Rightarrow> json" where
  "int_json i \<equiv> JNum (itoa i)"

definition omit_if :: "bool \<Rightarrow> string \<Rightarrow> json \<Rightarrow> (string \<times> json) list" where
  "omit_if skip k v = (if skip then [] else [(k, v)])"

definition snapshot_json :: "Snapshot_text \<Rightarrow> json option" where
  "snapshot_json s =
     Option.bind (time_json (s_LastSuccess s)) (\<lambda>lastSuccess.
     Option.bind (time_json (s_LastFailure s)) (\<lambda>lastFailure.
     Some (JObj ([(''name'', string_json (s_Name s)),
       (''priority'', int_json (s_Priority s)),
       (''protocol'', string_json (s_Protocol s)),
       (''endpoint'', string_json (s_Endpoint s)),
       (''state'', string_json (s_State s)),
       (''consecutive_failures'', int_json (s_ConsecutiveFailures s)),
       (''consecutive_successes'', int_json (s_ConsecutiveSuccess s)),
       (''last_success'', lastSuccess),
       (''last_failure'', lastFailure)] @
       omit_if (s_LastError s = []) ''last_error'' (string_json (s_LastError s)) @
       omit_if (s_LastLatency s = 0) ''last_latency_ns'' (int_json (s_LastLatency s))))))"

definition runtime_json :: "RuntimeStats \<Rightarrow> json" where
  "runtime_json r =
     JObj [(''goroutines'', int_json (rt_Goroutines r)),
       (''open_fds'', int_json (rt_OpenFDs r)),
       (''heap_alloc_bytes'', int_json (int (rt_HeapAlloc r))),
       (''heap_inuse_bytes'', int_json (int (rt_HeapInUse r))),
       (''sys_bytes'', int_json (int (rt_Sys r)))]"

definition reload_json :: "stamp reload_status \<Rightarrow> json option" where
  "reload_json r =
     Option.bind (time_json (rs_LastAt r)) (\<lambda>lastAt.
     Some (JObj ([(''count'', int_json (int (rs_Count r))), (''last_at'', lastAt)] @
       omit_if (rs_LastError r = []) ''last_error'' (string_json (rs_LastError r)))))"

definition upstreams_json :: "Snapshot_text list option \<Rightarrow> json option" where
  "upstreams_json us =
     (case us of None \<Rightarrow> Some JNull | Some us \<Rightarrow> map_option JArr (those (map snapshot_json us)))"

definition document_json :: "Document \<Rightarrow> json option" where
  "document_json d =
     Option.bind (time_json (doc_StartedAt d)) (\<lambda>startedAt.
     Option.bind (upstreams_json (doc_Upstreams d)) (\<lambda>upstreams.
     Option.bind (reload_json (doc_Reload d)) (\<lambda>reload.
     Some (JObj [(''version'', string_json (doc_Version d)),
       (''started_at'', startedAt),
       (''active_upstream'', string_json (doc_Active d)),
       (''upstreams'', upstreams),
       (''runtime'', runtime_json (doc_Runtime d)),
       (''reload'', reload)]))))"

text \<open>
  What \<open>write\<close> sends: \<open>Encode\<close> ends the text with a line feed, and sends nothing at all when the
  document has no JSON.
\<close>

definition write_status :: "Document \<Rightarrow> string" where
  "write_status d = (case document_json d of None \<Rightarrow> [] | Some v \<Rightarrow> compact_json v @ [CHR 0x0A])"

section \<open>The socket\<close>

datatype socket_action =
    RemoveFile string
  | ListenUnix string
  | ChmodFile string nat
  | ServeStatus
  | CloseListener

datatype status_error =
    RemoveStale string
  | ListenFailed string
  | ChmodFailed string
  | AcceptFailed string

text \<open>A failed removal says whether the file was missing; an accept gives a connection or fails.\<close>

datatype accept_result = Conn | AcceptError string bool

record socket_env =
  se_remove :: "(string \<times> bool) option"
  se_listen :: "string option"
  se_chmod :: "string option"
  se_accepts :: "accept_result list"

datatype run_result = RunReturned "status_error option" | StillServing

text \<open>
  The accept loop: \<open>ctxDone\<close> of an \<open>AcceptError\<close> says whether the context had ended. The list is
  what the listener delivered so far.
\<close>

fun accept_loop :: "accept_result list \<Rightarrow> socket_action list \<times> run_result" where
  "accept_loop [] = ([], StillServing)"
| "accept_loop (Conn # rs) = (let (acts, r) = accept_loop rs in (ServeStatus # acts, r))"
| "accept_loop (AcceptError e ctxDone # rs) =
     ([], RunReturned (if ctxDone then None else Some (AcceptFailed e)))"

text \<open>
  \<open>Run\<close>, as the system calls it makes and how it ends. The deferred function closes the listener
  and removes the socket on every return after the listener exists.
\<close>

definition RunStatus :: "socket_env \<Rightarrow> string \<Rightarrow> socket_action list \<times> run_result" where
  "RunStatus env path =
     (case se_remove env of
        Some (e, False) \<Rightarrow> ([RemoveFile path], RunReturned (Some (RemoveStale e)))
      | _ \<Rightarrow>
          (case se_listen env of
             Some e \<Rightarrow> ([RemoveFile path, ListenUnix path], RunReturned (Some (ListenFailed e)))
           | None \<Rightarrow>
               (case se_chmod env of
                  Some e \<Rightarrow>
                    ([RemoveFile path, ListenUnix path, ChmodFile path 432, CloseListener, RemoveFile path],
                     RunReturned (Some (ChmodFailed e)))
                | None \<Rightarrow>
                    (case accept_loop (se_accepts env) of
                       (acts, StillServing) \<Rightarrow>
                         ([RemoveFile path, ListenUnix path, ChmodFile path 432] @ acts, StillServing)
                     | (acts, RunReturned r) \<Rightarrow>
                         ([RemoveFile path, ListenUnix path, ChmodFile path 432] @ acts @
                            [CloseListener, RemoveFile path], RunReturned r)))))"

section \<open>Reading the document\<close>

definition decode_time :: "json \<Rightarrow> stamp \<Rightarrow> json_error + stamp" where
  "decode_time v old =
     (case v of
        JNull \<Rightarrow> Inr old
      | JStr s \<Rightarrow> (case parse_rfc3339 s of None \<Rightarrow> Inl BadValue | Some t \<Rightarrow> Inr t)
      | _ \<Rightarrow> Inl BadValue)"

definition snapshot_field :: "string \<Rightarrow> json \<Rightarrow> Snapshot_text \<Rightarrow> json_error + Snapshot_text" where
  "snapshot_field k v s =
     (if k = ''name'' then bind_err (decode_string v (s_Name s)) (\<lambda>x. Inr (s\<lparr>s_Name := x\<rparr>))
      else if k = ''priority'' then bind_err (decode_int v (s_Priority s)) (\<lambda>x. Inr (s\<lparr>s_Priority := x\<rparr>))
      else if k = ''protocol'' then bind_err (decode_string v (s_Protocol s)) (\<lambda>x. Inr (s\<lparr>s_Protocol := x\<rparr>))
      else if k = ''endpoint'' then bind_err (decode_string v (s_Endpoint s)) (\<lambda>x. Inr (s\<lparr>s_Endpoint := x\<rparr>))
      else if k = ''state'' then bind_err (decode_string v (s_State s)) (\<lambda>x. Inr (s\<lparr>s_State := x\<rparr>))
      else if k = ''consecutive_failures'' then
        bind_err (decode_int v (s_ConsecutiveFailures s)) (\<lambda>x. Inr (s\<lparr>s_ConsecutiveFailures := x\<rparr>))
      else if k = ''consecutive_successes'' then
        bind_err (decode_int v (s_ConsecutiveSuccess s)) (\<lambda>x. Inr (s\<lparr>s_ConsecutiveSuccess := x\<rparr>))
      else if k = ''last_success'' then bind_err (decode_time v (s_LastSuccess s)) (\<lambda>x. Inr (s\<lparr>s_LastSuccess := x\<rparr>))
      else if k = ''last_failure'' then bind_err (decode_time v (s_LastFailure s)) (\<lambda>x. Inr (s\<lparr>s_LastFailure := x\<rparr>))
      else if k = ''last_error'' then bind_err (decode_string v (s_LastError s)) (\<lambda>x. Inr (s\<lparr>s_LastError := x\<rparr>))
      else if k = ''last_latency_ns'' then bind_err (decode_int v (s_LastLatency s)) (\<lambda>x. Inr (s\<lparr>s_LastLatency := x\<rparr>))
      else Inr s)"

definition runtime_field :: "string \<Rightarrow> json \<Rightarrow> RuntimeStats \<Rightarrow> json_error + RuntimeStats" where
  "runtime_field k v r =
     (if k = ''goroutines'' then bind_err (decode_int v (rt_Goroutines r)) (\<lambda>x. Inr (r\<lparr>rt_Goroutines := x\<rparr>))
      else if k = ''open_fds'' then bind_err (decode_int v (rt_OpenFDs r)) (\<lambda>x. Inr (r\<lparr>rt_OpenFDs := x\<rparr>))
      else if k = ''heap_alloc_bytes'' then bind_err (decode_uint v (rt_HeapAlloc r)) (\<lambda>x. Inr (r\<lparr>rt_HeapAlloc := x\<rparr>))
      else if k = ''heap_inuse_bytes'' then bind_err (decode_uint v (rt_HeapInUse r)) (\<lambda>x. Inr (r\<lparr>rt_HeapInUse := x\<rparr>))
      else if k = ''sys_bytes'' then bind_err (decode_uint v (rt_Sys r)) (\<lambda>x. Inr (r\<lparr>rt_Sys := x\<rparr>))
      else Inr r)"

definition reload_field :: "string \<Rightarrow> json \<Rightarrow> stamp reload_status \<Rightarrow> json_error + stamp reload_status" where
  "reload_field k v r =
     (if k = ''count'' then bind_err (decode_uint v (rs_Count r)) (\<lambda>x. Inr (r\<lparr>rs_Count := x\<rparr>))
      else if k = ''last_at'' then bind_err (decode_time v (rs_LastAt r)) (\<lambda>x. Inr (r\<lparr>rs_LastAt := x\<rparr>))
      else if k = ''last_error'' then bind_err (decode_string v (rs_LastError r)) (\<lambda>x. Inr (r\<lparr>rs_LastError := x\<rparr>))
      else Inr r)"

definition zero_snapshot :: "Snapshot_text" where
  "zero_snapshot =
     \<lparr>s_Name = [], s_Priority = 0, s_Protocol = [], s_Endpoint = [], s_State = [], s_ConsecutiveFailures = 0,
      s_ConsecutiveSuccess = 0, s_LastSuccess = (0, 0), s_LastFailure = (0, 0), s_LastError = [], s_LastLatency = 0\<rparr>"

definition zero_document :: Document where
  "zero_document =
     \<lparr>doc_Version = [], doc_StartedAt = (0, 0), doc_Active = [], doc_Upstreams = None,
      doc_Runtime = \<lparr>rt_Goroutines = 0, rt_OpenFDs = 0, rt_HeapAlloc = 0, rt_HeapInUse = 0, rt_Sys = 0\<rparr>,
      doc_Reload = \<lparr>rs_Count = 0, rs_LastAt = (0, 0), rs_LastError = []\<rparr>\<rparr>"

definition document_field :: "string \<Rightarrow> json \<Rightarrow> Document \<Rightarrow> json_error + Document" where
  "document_field k v d =
     (if k = ''version'' then bind_err (decode_string v (doc_Version d)) (\<lambda>x. Inr (d\<lparr>doc_Version := x\<rparr>))
      else if k = ''started_at'' then bind_err (decode_time v (doc_StartedAt d)) (\<lambda>x. Inr (d\<lparr>doc_StartedAt := x\<rparr>))
      else if k = ''active_upstream'' then bind_err (decode_string v (doc_Active d)) (\<lambda>x. Inr (d\<lparr>doc_Active := x\<rparr>))
      else if k = ''upstreams'' then
        bind_err (decode_slice (decode_struct snapshot_field) zero_snapshot v (doc_Upstreams d))
          (\<lambda>x. Inr (d\<lparr>doc_Upstreams := x\<rparr>))
      else if k = ''runtime'' then
        bind_err (decode_struct runtime_field v (doc_Runtime d)) (\<lambda>x. Inr (d\<lparr>doc_Runtime := x\<rparr>))
      else if k = ''reload'' then
        bind_err (decode_struct reload_field v (doc_Reload d)) (\<lambda>x. Inr (d\<lparr>doc_Reload := x\<rparr>))
      else Inr d)"

datatype read_error = ConnectStatus string | ReadStatus json_error | ReadConnection string

definition limit_reader :: "int \<Rightarrow> string \<Rightarrow> string" where
  "limit_reader n bytes = (if int (length bytes) \<le> n then bytes else take (nat n) bytes)"

text \<open>
  \<open>Decode\<close> stops after the first value of the stream. It reports the error the stream fails with only if it
  needs more text than there is (a number or a literal needs to see what follows it); without an
  error the stream just ends.
\<close>

definition decode_stream :: "string \<Rightarrow> string option \<Rightarrow> read_error + Document" where
  "decode_stream seen failed =
     (case scan_json seen of
        Inl UnexpectedEOF \<Rightarrow>
          (case failed of
             Some e \<Rightarrow> Inl (ReadConnection e)
           | None \<Rightarrow> Inl (ReadStatus (if skip_space seen = [] then EndOfFile else UnexpectedEOF)))
      | Inl e \<Rightarrow> Inl (ReadStatus e)
      | Inr (v, rest) \<Rightarrow>
          (case failed of
             Some e \<Rightarrow>
               if scalar v \<and> rest = [] then Inl (ReadConnection e)
               else wrap_err ReadStatus (decode_struct document_field v zero_document)
           | None \<Rightarrow> wrap_err ReadStatus (decode_struct document_field v zero_document)))"

text \<open>
  \<open>Read\<close>: dialling the socket gives an error, or a connection: the bytes it delivers and the error it
  then fails with (\<^const>\<open>None\<close>: it is closed). The limited reader ends after \<open>2^20\<close> bytes.
\<close>

definition ReadDocument :: "string + string \<times> string option \<Rightarrow> read_error + Document" where
  "ReadDocument dial =
     (case dial of
        Inl e \<Rightarrow> Inl (ConnectStatus e)
      | Inr (bytes, failed) \<Rightarrow>
          decode_stream (limit_reader (2 ^ 20) bytes)
            (if 2 ^ 20 \<le> int (length bytes) then None else failed))"

section \<open>What the document shows\<close>

lemma Snapshots_names: "mgr_inv B C m \<Longrightarrow> map s_Name (Snapshots m) = map (\<lambda>p. u_Name (cfg_at m p)) (m_entries m)"
  by (auto simp: Snapshots_eq mgr_inv_def mgr_shape_def entry_ok_def snap_of_def)

lemma Snapshots_priorities:
  "mgr_inv B C m \<Longrightarrow> map s_Priority (Snapshots m) = map (\<lambda>p. u_Priority (cfg_at m p)) (m_entries m)"
  by (auto simp: Snapshots_eq mgr_inv_def mgr_shape_def entry_ok_def snap_of_def)

lemma Active_first_eligible:
  "Active m = (case filter (\<lambda>p. eligible (s_State (snap_at m p))) (m_entries m) of
     p # _ \<Rightarrow> u_Name (cfg_at m p)
   | [] \<Rightarrow> (case m_entries m of [] \<Rightarrow> [] | p # _ \<Rightarrow> u_Name (cfg_at m p)))"
  by (auto simp: Active_eq Candidates_def candidates_seen_def Let_def split: list.split)

lemma filter_snapshots:
  "filter (\<lambda>s. eligible (s_State s)) (Snapshots m) = map (snap_at m) (filter (\<lambda>p. eligible (s_State (snap_at m p))) (m_entries m))"
  by (simp add: Snapshots_eq filter_map comp_def)

lemma snap_identity:
  assumes "mgr_inv B C m" and "p \<in> set (m_entries m)"
  shows "s_Name (snap_at m p) = u_Name (cfg_at m p)" "s_Priority (snap_at m p) = u_Priority (cfg_at m p)"
  using assms by (auto simp: mgr_inv_def mgr_shape_def entry_ok_def snap_of_def)

text \<open>
  C37: the status document tells the truth about the selection. It lists every upstream of the
  current manager once, in priority order, whatever is recorded meanwhile; and if nothing is
  recorded while it is put together, its active upstream is the first listed one that is neither
  down nor recovering, or the first listed one when there is none.
\<close>

theorem status_document_truthful:
  assumes "mgr_inv B C (r_Manager (LoadRuntime s))"
  shows "\<exists>listed. doc_Upstreams (status_document srv ps atActive atSnapshots later s) = Some listed \<and>
    map s_Name listed =
      map (\<lambda>p. u_Name (cfg_at (r_Manager (LoadRuntime s)) p)) (m_entries (r_Manager (LoadRuntime s))) \<and>
    sorted (map s_Priority listed) \<and>
    ((\<forall>p. atActive p = [] \<and> atSnapshots p = []) \<longrightarrow>
       doc_Active (status_document srv ps atActive atSnapshots later s) =
         (case filter (\<lambda>s. eligible (s_State s)) listed of
            s # _ \<Rightarrow> s_Name s
          | [] \<Rightarrow> (case listed of [] \<Rightarrow> [] | s # _ \<Rightarrow> s_Name s)))"
proof -
  let ?m = "r_Manager (LoadRuntime s)"
  let ?listed = "snapshots_seen (\<lambda>p. snap_at (mgr_run (atSnapshots p) ?m) p) ?m"
  have id: "s_Name (snap_at (mgr_run evs ?m) p) = u_Name (cfg_at ?m p)"
    "s_Priority (snap_at (mgr_run evs ?m) p) = u_Priority (cfg_at ?m p)" if "p \<in> set (m_entries ?m)" for p evs
    using snap_identity [OF mgr_run_inv [OF assms, of evs], of p] that by simp_all
  have "Active ?m = (case filter (\<lambda>s. eligible (s_State s)) (Snapshots ?m) of
      s # _ \<Rightarrow> s_Name s | [] \<Rightarrow> (case Snapshots ?m of [] \<Rightarrow> [] | s # _ \<Rightarrow> s_Name s))"
    unfolding Active_first_eligible filter_snapshots
    by (auto simp: Snapshots_eq id(1) [where evs = "[]", simplified] split: list.split dest!: filter_eq_ConsD)
  moreover have "map s_Name ?listed = map (\<lambda>p. u_Name (cfg_at ?m p)) (m_entries ?m)"
    by (simp add: snapshots_seen_def id)
  moreover have "map s_Priority ?listed = map (\<lambda>p. u_Priority (cfg_at ?m p)) (m_entries ?m)"
    by (simp add: snapshots_seen_def id)
  moreover have "sorted (map (\<lambda>p. u_Priority (cfg_at ?m p)) (m_entries ?m))"
    using assms by (simp add: mgr_inv_def mgr_shape_def)
  ultimately show ?thesis
    by (intro exI [of _ ?listed]) (auto simp: status_document_def Let_def Active_def Snapshots_def cong: list.case_cong)
qed

text \<open>
  A list read entry by entry, while others record, is the list of one manager: the one that has seen, of
  what was recorded meanwhile, what each entry had seen when it was read.
\<close>

fun event_name :: "mgr_event \<Rightarrow> string" where
  "event_name (EvSuccess n pr l t) = n"
| "event_name (EvFailure n msg t) = n"
| "event_name _ = []"

fun seen_events :: "(string \<Rightarrow> nat) \<Rightarrow> mgr_event list \<Rightarrow> mgr_event list" where
  "seen_events k [] = []"
| "seen_events k (ev # evs) =
     (if 0 < k (event_name ev) then [ev] else []) @ seen_events (\<lambda>n. k n - 1) evs"

lemma history_seen: "history n (seen_events k evs) = history n (take (k n) evs)"
proof (induction evs arbitrary: k)
  case (Cons ev evs)
  from Cons [of "\<lambda>n. k n - 1"] show ?case by (cases ev; cases "k n") auto
qed simp

fun unseen_events :: "(string \<Rightarrow> nat) \<Rightarrow> mgr_event list \<Rightarrow> mgr_event list" where
  "unseen_events k [] = []"
| "unseen_events k (ev # evs) =
     (if 0 < k (event_name ev) then [] else [ev]) @ unseen_events (\<lambda>n. k n - 1) evs"

lemma history_unseen: "history n (unseen_events k evs) = history n (drop (k n) evs)"
proof (induction evs arbitrary: k)
  case (Cons ev evs)
  from Cons [of "\<lambda>n. k n - 1"] show ?case by (cases ev; cases "k n") auto
qed simp

lemma entrywise_snapshots:
  assumes "mgr_inv B C m"
  shows "Snapshots (mgr_run (seen_events (\<lambda>n. case m_byName m n of None \<Rightarrow> 0 | Some p \<Rightarrow> k p) evs) m) =
    snapshots_seen (\<lambda>p. snap_at (mgr_run (take (k p) evs) m) p) m"
proof -
  have "snap_at (mgr_run (seen_events (\<lambda>n. case m_byName m n of None \<Rightarrow> 0 | Some p \<Rightarrow> k p) evs) m) p =
      snap_at (mgr_run (take (k p) evs) m) p" if "p \<in> set (m_entries m)" for p
  proof -
    have n: "m_byName m (u_Name (cfg_at m p)) = Some p"
      using StateOf_cfg(1) [OF _ that] assms by (auto simp: mgr_inv_def)
    show ?thesis by (simp add: mgr_run_snap [OF assms n] history_seen n)
  qed
  then show ?thesis by (simp add: Snapshots_eq snapshots_seen_def)
qed

text \<open>Recording the rest afterwards gives the same health as recording everything in its order.\<close>

lemma entrywise_rest:
  assumes "mgr_inv B C m"
  shows "Snapshots (mgr_run (seen_events k evs @ unseen_events k evs) m) = Snapshots (mgr_run evs m)"
proof -
  have "history n (seen_events k evs @ unseen_events k evs) = history n evs" for n
    using history_append [of n "take (k n) evs" "drop (k n) evs"]
    by (simp add: history_append history_seen history_unseen)
  then have "snap_at (mgr_run (seen_events k evs @ unseen_events k evs) m) p = snap_at (mgr_run evs m) p"
    if "p \<in> set (m_entries m)" for p
    using StateOf_cfg(1) [OF _ that] assms mgr_run_snap [OF assms] by (simp add: mgr_inv_def)
  then show ?thesis by (simp add: Snapshots_eq)
qed

lemma accept_loop_nil: "snd (accept_loop rs) = RunReturned None \<Longrightarrow> \<exists>e. AcceptError e True \<in> set rs"
  by (induction rs rule: accept_loop.induct) (auto split: prod.splits if_splits)

text \<open>
  The socket never outlives the server. Whenever the status server returns after it started
  to listen, its last two actions close the listener and remove the socket file, and it
  returns without an error only because the context ended.
\<close>

lemma status_socket_cleaned_up:
  assumes "RunStatus env path = (acts, RunReturned r)"
    and "\<forall>e. se_remove env \<noteq> Some (e, False)" and "se_listen env = None"
  shows "(\<exists>pre. acts = pre @ [CloseListener, RemoveFile path]) \<and>
    (r = None \<longrightarrow> (\<exists>e. AcceptError e True \<in> set (se_accepts env)))"
proof (cases "se_chmod env")
  case None
  with assms show ?thesis
    using accept_loop_nil [of "se_accepts env"]
    by (auto simp: RunStatus_def split: option.splits prod.splits bool.splits run_result.splits)
next
  case (Some e)
  have "\<exists>pre. [RemoveFile path, ListenUnix path, ChmodFile path 432, CloseListener, RemoveFile path] =
    pre @ [CloseListener, RemoveFile path]"
    by (rule exI [of _ "[RemoveFile path, ListenUnix path, ChmodFile path 432]"]) simp
  with Some assms show ?thesis
    by (auto simp: RunStatus_def split: option.splits prod.splits bool.splits)
qed

section \<open>The client reads what the server wrote\<close>

definition plain_char :: "char \<Rightarrow> bool" where
  "plain_char c \<longleftrightarrow> 32 \<le> (of_char c :: nat) \<and> c \<noteq> CHR 0x22 \<and> c \<noteq> CHR 0x5C"

lemma scan_plain: "list_all plain_char s \<Longrightarrow> scan_string InString acc (s @ CHR 0x22 # r) = Inr (rev acc @ s, r)"
  by (induction s arbitrary: acc) (auto simp: plain_char_def)

lemma str_ok_plain: "list_all plain_char s \<Longrightarrow> str_ok s"
  by (simp add: str_ok_def scan_plain)

lemma plain_digit: "is_digit c \<Longrightarrow> plain_char c"
  by (auto simp: is_digit_def plain_char_def Let_def of_char_int)

lemma plain_digits [simp]: "0 \<le> x \<Longrightarrow> list_all plain_char (digits n x)"
  using digits_digits [of x n] by (auto simp: list_all_iff intro: plain_digit)

lemma plain_chars [simp]:
  "plain_char (CHR ''-'')" "plain_char (CHR '':'')" "plain_char (CHR ''T'')" "plain_char (CHR ''Z'')"
  "plain_char (CHR ''+'')" "plain_char (CHR ''.'')"
  by code_simp+

lemma plain_fraction [simp]: "0 \<le> ns \<Longrightarrow> list_all plain_char (fraction_text ns)"
  using plain_digits [of ns 9]
  by (auto simp: fraction_text_def trim_zeros_def list_all_iff simp del: plain_digits dest: set_dropWhileD)

lemma plain_zone [simp]: "list_all plain_char (zone_text off)"
  by (simp add: zone_text_def Let_def)

lemma format_plain:
  assumes "format_rfc3339 off t = Some s"
  shows "list_all plain_char s"
proof -
  obtain y m d where ymd: "civil_date ((t + off * second) div second div 86400) = (y, m, d)"
    by (cases "civil_date ((t + off * second) div second div 86400)")
  have "0 \<le> m" "0 \<le> d" using civil_date_days [OF ymd] by simp_all
  moreover have "0 \<le> (t + off * second) mod second" by (simp add: second_def)
  moreover have "0 \<le> (t + off * second) div second mod 86400" by simp
  ultimately show ?thesis
    using assms unfolding format_rfc3339_def Let_def ymd
    by (auto simp: pos_imp_zdiv_nonneg_iff split: if_splits)
qed

lemma time_json_ok [simp]: "time_json t = Some v \<Longrightarrow> json_ok d v"
  using str_ok_plain [OF format_plain] by (auto simp: time_json_def)

definition whole_minutes :: "stamp \<Rightarrow> bool" where
  "whole_minutes t \<longleftrightarrow> 60 dvd snd t"

lemma decode_time_json:
  assumes "time_json t = Some v" and "whole_minutes t"
  shows "decode_time v old = Inr t"
  using assms parse_format_rfc3339 [of "snd t" "fst t"] by (auto simp: time_json_def decode_time_def whole_minutes_def)

lemma field_names [simp]:
  "to_lower ''name'' = ''name''" "to_lower ''priority'' = ''priority''"
  "to_lower ''protocol'' = ''protocol''" "to_lower ''endpoint'' = ''endpoint''"
  "to_lower ''state'' = ''state''"
  "to_lower ''consecutive_failures'' = ''consecutive_failures''"
  "to_lower ''consecutive_successes'' = ''consecutive_successes''"
  "to_lower ''last_success'' = ''last_success''" "to_lower ''last_failure'' = ''last_failure''"
  "to_lower ''last_error'' = ''last_error''" "to_lower ''last_latency_ns'' = ''last_latency_ns''"
  "to_lower ''goroutines'' = ''goroutines''" "to_lower ''open_fds'' = ''open_fds''"
  "to_lower ''heap_alloc_bytes'' = ''heap_alloc_bytes''"
  "to_lower ''heap_inuse_bytes'' = ''heap_inuse_bytes''" "to_lower ''sys_bytes'' = ''sys_bytes''"
  "to_lower ''count'' = ''count''" "to_lower ''last_at'' = ''last_at''"
  "to_lower ''version'' = ''version''" "to_lower ''started_at'' = ''started_at''"
  "to_lower ''active_upstream'' = ''active_upstream''" "to_lower ''upstreams'' = ''upstreams''"
  "to_lower ''runtime'' = ''runtime''" "to_lower ''reload'' = ''reload''"
  by (simp_all add: to_lower_def lower_char_def Let_def)

lemma field_names_ok [simp]:
  "str_ok ''name''" "str_ok ''priority''" "str_ok ''protocol''" "str_ok ''endpoint''" "str_ok ''state''"
  "str_ok ''consecutive_failures''" "str_ok ''consecutive_successes''" "str_ok ''last_success''"
  "str_ok ''last_failure''" "str_ok ''last_error''" "str_ok ''last_latency_ns''" "str_ok ''goroutines''"
  "str_ok ''open_fds''" "str_ok ''heap_alloc_bytes''" "str_ok ''heap_inuse_bytes''" "str_ok ''sys_bytes''"
  "str_ok ''count''" "str_ok ''last_at''" "str_ok ''version''" "str_ok ''started_at''" "str_ok ''active_upstream''"
  "str_ok ''upstreams''" "str_ok ''runtime''" "str_ok ''reload''"
  by (rule str_ok_plain, simp add: plain_char_def)+

text \<open>The documents of the program: ASCII texts, integers of their width and zones of whole minutes.\<close>

definition snapshot_ok :: "Snapshot_text \<Rightarrow> bool" where
  "snapshot_ok s \<longleftrightarrow> ascii (s_Name s) \<and> ascii (s_Protocol s) \<and> ascii (s_Endpoint s) \<and> ascii (s_State s) \<and>
     ascii (s_LastError s) \<and> in_int64 (s_Priority s) \<and> in_int64 (s_ConsecutiveFailures s) \<and>
     in_int64 (s_ConsecutiveSuccess s) \<and> in_int64 (s_LastLatency s) \<and>
     whole_minutes (s_LastSuccess s) \<and> whole_minutes (s_LastFailure s)"

definition document_ok :: "Document \<Rightarrow> bool" where
  "document_ok d \<longleftrightarrow> ascii (doc_Version d) \<and> ascii (doc_Active d) \<and> list_all snapshot_ok (slice_elems (doc_Upstreams d)) \<and>
     in_int64 (rt_Goroutines (doc_Runtime d)) \<and> in_int64 (rt_OpenFDs (doc_Runtime d)) \<and>
     rt_HeapAlloc (doc_Runtime d) < 2 ^ 64 \<and> rt_HeapInUse (doc_Runtime d) < 2 ^ 64 \<and> rt_Sys (doc_Runtime d) < 2 ^ 64 \<and>
     rs_Count (doc_Reload d) < 2 ^ 64 \<and> ascii (rs_LastError (doc_Reload d)) \<and>
     whole_minutes (doc_StartedAt d) \<and> whole_minutes (rs_LastAt (doc_Reload d))"

lemma snapshot_fields [simp]:
  "snapshot_field ''name'' v s = bind_err (decode_string v (s_Name s)) (\<lambda>x. Inr (s\<lparr>s_Name := x\<rparr>))"
  "snapshot_field ''priority'' v s = bind_err (decode_int v (s_Priority s)) (\<lambda>x. Inr (s\<lparr>s_Priority := x\<rparr>))"
  "snapshot_field ''protocol'' v s = bind_err (decode_string v (s_Protocol s)) (\<lambda>x. Inr (s\<lparr>s_Protocol := x\<rparr>))"
  "snapshot_field ''endpoint'' v s = bind_err (decode_string v (s_Endpoint s)) (\<lambda>x. Inr (s\<lparr>s_Endpoint := x\<rparr>))"
  "snapshot_field ''state'' v s = bind_err (decode_string v (s_State s)) (\<lambda>x. Inr (s\<lparr>s_State := x\<rparr>))"
  "snapshot_field ''consecutive_failures'' v s = bind_err (decode_int v (s_ConsecutiveFailures s)) (\<lambda>x. Inr (s\<lparr>s_ConsecutiveFailures := x\<rparr>))"
  "snapshot_field ''consecutive_successes'' v s = bind_err (decode_int v (s_ConsecutiveSuccess s)) (\<lambda>x. Inr (s\<lparr>s_ConsecutiveSuccess := x\<rparr>))"
  "snapshot_field ''last_success'' v s = bind_err (decode_time v (s_LastSuccess s)) (\<lambda>x. Inr (s\<lparr>s_LastSuccess := x\<rparr>))"
  "snapshot_field ''last_failure'' v s = bind_err (decode_time v (s_LastFailure s)) (\<lambda>x. Inr (s\<lparr>s_LastFailure := x\<rparr>))"
  "snapshot_field ''last_error'' v s = bind_err (decode_string v (s_LastError s)) (\<lambda>x. Inr (s\<lparr>s_LastError := x\<rparr>))"
  "snapshot_field ''last_latency_ns'' v s = bind_err (decode_int v (s_LastLatency s)) (\<lambda>x. Inr (s\<lparr>s_LastLatency := x\<rparr>))"
  by (simp_all add: snapshot_field_def)

lemma runtime_fields [simp]:
  "runtime_field ''goroutines'' v r = bind_err (decode_int v (rt_Goroutines r)) (\<lambda>x. Inr (r\<lparr>rt_Goroutines := x\<rparr>))"
  "runtime_field ''open_fds'' v r = bind_err (decode_int v (rt_OpenFDs r)) (\<lambda>x. Inr (r\<lparr>rt_OpenFDs := x\<rparr>))"
  "runtime_field ''heap_alloc_bytes'' v r = bind_err (decode_uint v (rt_HeapAlloc r)) (\<lambda>x. Inr (r\<lparr>rt_HeapAlloc := x\<rparr>))"
  "runtime_field ''heap_inuse_bytes'' v r = bind_err (decode_uint v (rt_HeapInUse r)) (\<lambda>x. Inr (r\<lparr>rt_HeapInUse := x\<rparr>))"
  "runtime_field ''sys_bytes'' v r = bind_err (decode_uint v (rt_Sys r)) (\<lambda>x. Inr (r\<lparr>rt_Sys := x\<rparr>))"
  by (simp_all add: runtime_field_def)

lemma reload_fields [simp]:
  "reload_field ''count'' v r = bind_err (decode_uint v (rs_Count r)) (\<lambda>x. Inr (r\<lparr>rs_Count := x\<rparr>))"
  "reload_field ''last_at'' v r = bind_err (decode_time v (rs_LastAt r)) (\<lambda>x. Inr (r\<lparr>rs_LastAt := x\<rparr>))"
  "reload_field ''last_error'' v r = bind_err (decode_string v (rs_LastError r)) (\<lambda>x. Inr (r\<lparr>rs_LastError := x\<rparr>))"
  by (simp_all add: reload_field_def)

lemma document_fields [simp]:
  "document_field ''version'' v d = bind_err (decode_string v (doc_Version d)) (\<lambda>x. Inr (d\<lparr>doc_Version := x\<rparr>))"
  "document_field ''started_at'' v d = bind_err (decode_time v (doc_StartedAt d)) (\<lambda>x. Inr (d\<lparr>doc_StartedAt := x\<rparr>))"
  "document_field ''active_upstream'' v d = bind_err (decode_string v (doc_Active d)) (\<lambda>x. Inr (d\<lparr>doc_Active := x\<rparr>))"
  "document_field ''upstreams'' v d = bind_err (decode_slice (decode_struct snapshot_field) zero_snapshot v (doc_Upstreams d)) (\<lambda>x. Inr (d\<lparr>doc_Upstreams := x\<rparr>))"
  "document_field ''runtime'' v d = bind_err (decode_struct runtime_field v (doc_Runtime d)) (\<lambda>x. Inr (d\<lparr>doc_Runtime := x\<rparr>))"
  "document_field ''reload'' v d = bind_err (decode_struct reload_field v (doc_Reload d)) (\<lambda>x. Inr (d\<lparr>doc_Reload := x\<rparr>))"
  by (simp_all add: document_field_def)

lemma snapshot_json_decodes:
  assumes "snapshot_json s = Some v" and "snapshot_ok s"
  shows "decode_struct snapshot_field v zero_snapshot = Inr s"
proof -
  obtain ls lf where t: "time_json (s_LastSuccess s) = Some ls" "time_json (s_LastFailure s) = Some lf"
    using assms(1) by (auto simp: snapshot_json_def split: bind_splits)
  have "whole_minutes (s_LastSuccess s)" "whole_minutes (s_LastFailure s)" using assms(2) by (simp_all add: snapshot_ok_def)
  note dec = decode_time_json [OF t(1) this(1)] decode_time_json [OF t(2) this(2)]
  have v: "v = the (snapshot_json s)" using assms(1) by simp
  show ?thesis
    unfolding v snapshot_json_def t using assms(2)
    by (simp add: decode_struct_def omit_if_def dec zero_snapshot_def snapshot_ok_def)
qed

lemma snapshot_json_ok:
  assumes "snapshot_json s = Some v" and "0 < d"
  shows "json_ok d v"
proof -
  obtain ls lf where t: "time_json (s_LastSuccess s) = Some ls" "time_json (s_LastFailure s) = Some lf"
    using assms(1) by (auto simp: snapshot_json_def split: bind_splits)
  have v: "v = the (snapshot_json s)" using assms(1) by simp
  show ?thesis
    unfolding v snapshot_json_def t
    using assms(2) time_json_ok [OF t(1)] time_json_ok [OF t(2)] by (simp add: omit_if_def)
qed

lemma reload_json_decodes:
  assumes "reload_json r = Some v" and "rs_Count r < 2 ^ 64" and "ascii (rs_LastError r)" and "whole_minutes (rs_LastAt r)"
  shows "decode_struct reload_field v \<lparr>rs_Count = 0, rs_LastAt = (0, 0), rs_LastError = []\<rparr> = Inr r"
    "0 < d \<Longrightarrow> json_ok d v"
proof -
  obtain l where t: "time_json (rs_LastAt r) = Some l"
    using assms(1) by (auto simp: reload_json_def split: bind_splits)
  have v: "v = the (reload_json r)" using assms(1) by simp
  show "decode_struct reload_field v \<lparr>rs_Count = 0, rs_LastAt = (0, 0), rs_LastError = []\<rparr> = Inr r"
    unfolding v reload_json_def t using assms(2,3)
    by (simp add: decode_struct_def omit_if_def decode_time_json [OF t assms(4)])
  show "json_ok d v" if "0 < d"
    unfolding v reload_json_def t using that time_json_ok [OF t] by (simp add: omit_if_def)
qed

lemma those_map_Some: "those (map f xs) = Some ys \<longleftrightarrow> map f xs = map Some ys"
proof (induction xs arbitrary: ys)
  case (Cons x xs)
  then show ?case by (cases ys) (auto split: option.splits)
qed auto

lemma decode_elements_all:
  "list_all2 (\<lambda>v x. elem v zero = Inr x) vs xs \<Longrightarrow> decode_elements elem zero vs [] = Inr xs"
  by (induction vs xs rule: list_all2_induct) auto

lemma upstreams_json_decodes:
  assumes "upstreams_json us = Some v" and "list_all snapshot_ok (slice_elems us)"
  shows "decode_slice (decode_struct snapshot_field) zero_snapshot v None = Inr us" "1 < d \<Longrightarrow> json_ok d v"
proof -
  have "decode_slice (decode_struct snapshot_field) zero_snapshot v None = Inr us \<and> (1 < d \<longrightarrow> json_ok d v)"
  proof (cases us)
    case None
    with assms show ?thesis by (auto simp: upstreams_json_def decode_slice_def)
  next
    case (Some ss)
    with assms(1) obtain vs where vs: "v = JArr vs" "map snapshot_json ss = map Some vs"
      by (auto simp: upstreams_json_def those_map_Some)
    then have l: "list_all2 (\<lambda>v s. snapshot_json s = Some v) vs ss"
      by (auto simp: list_all2_conv_all_nth list_eq_iff_nth_eq)
    moreover have "\<forall>s \<in> set ss. snapshot_ok s" using assms(2) Some by (simp add: slice_elems_def list_all_iff)
    ultimately have "list_all2 (\<lambda>v s. decode_struct snapshot_field v zero_snapshot = Inr s) vs ss"
      using snapshot_json_decodes by (auto elim!: list_all2_mono intro: list.rel_mono_strong simp: list_all2_conv_all_nth)
    then have "decode_elements (decode_struct snapshot_field) zero_snapshot vs [] = Inr ss"
      by (rule decode_elements_all)
    moreover have "json_ok (d - 1) v" if "v \<in> set vs" "1 < d" for v
      using that l snapshot_json_ok by (auto simp: list_all2_conv_all_nth in_set_conv_nth)
    ultimately show ?thesis by (auto simp: vs decode_slice_def slice_elems_def Some list_all_iff)
  qed
  then show "decode_slice (decode_struct snapshot_field) zero_snapshot v None = Inr us" "1 < d \<Longrightarrow> json_ok d v" by auto
qed

lemma runtime_json_decodes:
  assumes "in_int64 (rt_Goroutines r)" "in_int64 (rt_OpenFDs r)" "rt_HeapAlloc r < 2 ^ 64" "rt_HeapInUse r < 2 ^ 64" "rt_Sys r < 2 ^ 64"
  shows "decode_struct runtime_field (runtime_json r)
      \<lparr>rt_Goroutines = 0, rt_OpenFDs = 0, rt_HeapAlloc = 0, rt_HeapInUse = 0, rt_Sys = 0\<rparr> = Inr r"
    "0 < d \<Longrightarrow> json_ok d (runtime_json r)"
  using assms by (simp_all add: runtime_json_def decode_struct_def)

lemma document_json_decodes:
  assumes "document_json doc = Some v" and "document_ok doc"
  shows "decode_struct document_field v zero_document = Inr doc" "json_ok max_nesting v"
proof -
  obtain st us re where p: "time_json (doc_StartedAt doc) = Some st" "upstreams_json (doc_Upstreams doc) = Some us"
    "reload_json (doc_Reload doc) = Some re"
    using assms(1) by (auto simp: document_json_def split: bind_splits)
  have v: "v = the (document_json doc)" using assms(1) by simp
  note ok = assms(2) [unfolded document_ok_def]
  have us: "decode_slice (decode_struct snapshot_field) zero_snapshot us None = Inr (doc_Upstreams doc)" "1 < d \<Longrightarrow> json_ok d us" for d
    using upstreams_json_decodes [OF p(2)] ok by blast+
  have re: "decode_struct reload_field re \<lparr>rs_Count = 0, rs_LastAt = (0, 0), rs_LastError = []\<rparr> = Inr (doc_Reload doc)"
    "0 < d \<Longrightarrow> json_ok d re" for d
    using reload_json_decodes [OF p(3)] ok by blast+
  have rt: "decode_struct runtime_field (runtime_json (doc_Runtime doc))
      \<lparr>rt_Goroutines = 0, rt_OpenFDs = 0, rt_HeapAlloc = 0, rt_HeapInUse = 0, rt_Sys = 0\<rparr> = Inr (doc_Runtime doc)"
    "0 < d \<Longrightarrow> json_ok d (runtime_json (doc_Runtime doc))" for d
    using runtime_json_decodes ok by blast+
  show "decode_struct document_field v zero_document = Inr doc"
    unfolding v document_json_def p using ok
    by (simp add: decode_struct_def [of document_field] us re rt decode_time_json [OF p(1)] zero_document_def)
  show "json_ok max_nesting v"
    unfolding v document_json_def p using us(2) re(2) rt(2) time_json_ok [OF p(1)] by (simp add: max_nesting_def)
qed

lemma document_json_object:
  assumes "document_json doc = Some v"
  shows "\<exists>kvs. v = JObj kvs \<and> kvs \<noteq> []" "\<not> scalar v" "\<exists>r. compact_json v = CHR ''{'' # r"
proof -
  show "\<exists>kvs. v = JObj kvs \<and> kvs \<noteq> []" using assms by (auto simp: document_json_def split: bind_splits)
  then show "\<not> scalar v" "\<exists>r. compact_json v = CHR ''{'' # r" by (auto simp: scalar_def compact_json_def)
qed

lemma scan_brace_not_scalar: "scan_json (CHR ''{'' # r) = Inr (v, rest) \<Longrightarrow> \<not> scalar v"
  by (auto simp: scan_json_def scalar_def split: if_splits)

lemma decode_stream_value:
  "scan_json s = Inr (v, r) \<Longrightarrow> \<not> scalar v \<Longrightarrow>
   decode_stream s failed = wrap_err ReadStatus (decode_struct document_field v zero_document)"
  by (simp add: decode_stream_def split: option.split)

lemma decode_stream_eof:
  "scan_json s = Inl UnexpectedEOF \<Longrightarrow>
   decode_stream s failed = (case failed of
      Some e \<Rightarrow> Inl (ReadConnection e)
    | None \<Rightarrow> Inl (ReadStatus (if skip_space s = [] then EndOfFile else UnexpectedEOF)))"
  by (simp add: decode_stream_def)

lemma limit_take: "limit_reader (int n) (take k w) = take (min k n) w"
  by (auto simp: limit_reader_def min_def)

lemma truncated_document_eof:
  assumes "document_json doc = Some v" and "document_ok doc" and "m < length (compact_json v)"
  shows "scan_json (take m (compact_json v)) = Inl UnexpectedEOF"
    "skip_space (take m (compact_json v)) = [] \<longleftrightarrow> m = 0"
proof -
  obtain r where r: "compact_json v = CHR ''{'' # r" using document_json_object(3) [OF assms(1)] by blast
  have "scan_json (take m (compact_json v) @ drop m (compact_json v)) = Inr (v, [])"
    using scan_print_json(1) [OF document_json_decodes(2) [OF assms(1,2)], of "[]"] by simp
  with assms(3) document_json_object(2) [OF assms(1)]
  have "scan_json (take m (compact_json v)) = Inl UnexpectedEOF \<or>
    (\<exists>v'. scalar v' \<and> scan_json (take m (compact_json v)) = Inr (v', []))"
    by (intro scan_json_prefix [where q = "drop m (compact_json v)"]) auto
  moreover have "\<not> scalar v'" if "scan_json (take m (compact_json v)) = Inr (v', [])" for v'
  proof (cases m)
    case 0
    with that show ?thesis by (simp add: scan_json_def skip_space_def)
  next
    case (Suc m')
    with that r scan_brace_not_scalar show ?thesis by auto
  qed
  ultimately show "scan_json (take m (compact_json v)) = Inl UnexpectedEOF" by blast
  show "skip_space (take m (compact_json v)) = [] \<longleftrightarrow> m = 0"
    by (cases m) (simp_all add: r, simp add: skip_space_def)
qed

lemma read_prefix:
  assumes "write_status doc \<noteq> []" and "document_ok doc"
  shows "ReadDocument (Inr (take k (write_status doc), failed)) =
    (if length (write_status doc) \<le> Suc (min k (2 ^ 20)) then Inr doc
     else case (if k < 2 ^ 20 then failed else None) of
         Some e \<Rightarrow> Inl (ReadConnection e)
       | None \<Rightarrow> Inl (ReadStatus (if k = 0 then EndOfFile else UnexpectedEOF)))"
proof -
  obtain v where v: "document_json doc = Some v" and w: "write_status doc = compact_json v @ [CHR 0x0A]"
    using assms(1) by (auto simp: write_status_def split: option.splits)
  define m where "m = min k (2 ^ 20)"
  have seen: "limit_reader (2 ^ 20) (take k (write_status doc)) = take m (write_status doc)"
    using limit_take [of "2 ^ 20" k "write_status doc"] by (simp add: m_def)
  have fits: "length (write_status doc) \<le> Suc (min k (2 ^ 20)) \<longleftrightarrow> length (compact_json v) \<le> m"
    by (simp add: w m_def)
  show ?thesis
  proof (cases "length (compact_json v) \<le> m")
    case True
    then have tk: "take m (write_status doc) = compact_json v @ take (m - length (compact_json v)) [CHR 0x0A]"
      by (simp add: w)
    have "ends_value (take n [CHR 0x0A])" for n by (cases n) (simp_all add: ends_value_def json_space_def)
    then have "scan_json (take m (write_status doc)) = Inr (v, take (m - length (compact_json v)) [CHR 0x0A])"
      unfolding tk by (intro scan_print_json(1) document_json_decodes(2) [OF v assms(2)])
    from decode_stream_value [OF this document_json_object(2) [OF v]]
    have "ReadDocument (Inr (take k (write_status doc), failed)) = Inr doc"
      unfolding ReadDocument_def sum.case prod.case seen document_json_decodes(1) [OF v assms(2)] by simp
    with True show ?thesis unfolding fits by simp
  next
    case False
    then have tk: "take m (write_status doc) = take m (compact_json v)" by (simp add: w)
    have k: "(2 ^ 20 \<le> int (length (take k (write_status doc)))) = (\<not> k < 2 ^ 20)" "(m = 0) = (k = 0)"
      using False by (auto simp: w m_def min_def split: if_splits)
    have "m < length (compact_json v)" using False by simp
    note eof = truncated_document_eof [OF v assms(2) this]
    have "ReadDocument (Inr (take k (write_status doc), failed)) =
        decode_stream (take m (compact_json v)) (if k < 2 ^ 20 then failed else None)"
      unfolding ReadDocument_def sum.case prod.case seen tk k by simp
    with False show ?thesis
      unfolding fits decode_stream_eof [OF eof(1)] eof(2) k(2) by simp
  qed
qed

text \<open>
  C15: the status client gets the whole document or an error. However much of the text
  the server wrote arrives before the connection ends or fails, and whatever the length of the
  document, \<open>Read\<close> returns exactly the document that was written if all of its JSON text arrived and
  fits the limit of one mebibyte, and an error otherwise; it never returns another document. (The
  texts are ASCII and the offsets of the time zones whole minutes.)
\<close>

theorem status_read_all_or_nothing:
  assumes "write_status doc \<noteq> []" and "document_ok doc"
  shows "ReadDocument (Inr (take k (write_status doc), failed)) =
    (if length (write_status doc) \<le> Suc (min k (2 ^ 20)) then Inr doc
     else case (if k < 2 ^ 20 then failed else None) of
         Some e \<Rightarrow> Inl (ReadConnection e)
       | None \<Rightarrow> Inl (ReadStatus (if k = 0 then EndOfFile else UnexpectedEOF)))"
  using assms by (rule read_prefix)

section \<open>Witnesses\<close>

lemma status_document_truthful_witness:
  "doc_Active (status_document (NewStatus ''/run/s'' ''1'' 0) \<lparr>ps_goroutines = 9, ps_fds = None, ps_heapAlloc = 1,
      ps_heapInuse = 1, ps_sys = 1\<rparr> (\<lambda>_. []) (\<lambda>_. []) (NewStore sample_config sample_down) (NewStore sample_config sample_down)) = ''backup''"
proof -
  let ?d = "status_document (NewStatus ''/run/s'' ''1'' 0) \<lparr>ps_goroutines = 9, ps_fds = None, ps_heapAlloc = 1,
      ps_heapInuse = 1, ps_sys = 1\<rparr> (\<lambda>_. []) (\<lambda>_. []) (NewStore sample_config sample_down) (NewStore sample_config sample_down)"
  have inv: "mgr_inv 3 3 (r_Manager (LoadRuntime (NewStore sample_config sample_down)))"
    using sample_down_inv by simp
  have "(let listed = slice_elems (doc_Upstreams ?d) in
          case filter (\<lambda>s. eligible (s_State s)) listed of
            s # _ \<Rightarrow> s_Name s
          | [] \<Rightarrow> (case listed of [] \<Rightarrow> [] | s # _ \<Rightarrow> s_Name s)) = ''backup''" by code_simp
  moreover obtain listed where "doc_Upstreams ?d = Some listed"
    "doc_Active ?d = (case filter (\<lambda>s. eligible (s_State s)) listed of
        s # _ \<Rightarrow> s_Name s | [] \<Rightarrow> (case listed of [] \<Rightarrow> [] | s # _ \<Rightarrow> s_Name s))"
    using status_document_truthful [OF inv, of "NewStatus ''/run/s'' ''1'' 0" _ "\<lambda>_. []" "\<lambda>_. []"] by blast
  ultimately show ?thesis by (simp add: slice_elems_def)
qed

lemma status_socket_cleaned_up_witness:
  "\<exists>pre. fst (RunStatus \<lparr>se_remove = None, se_listen = None, se_chmod = None,
      se_accepts = [Conn, AcceptError ''closed'' True]\<rparr> ''/run/s'') = pre @ [CloseListener, RemoveFile ''/run/s'']"
proof -
  let ?env = "\<lparr>se_remove = None, se_listen = None, se_chmod = None, se_accepts = [Conn, AcceptError ''closed'' True]\<rparr>"
  have "RunStatus ?env ''/run/s'' = (fst (RunStatus ?env ''/run/s''), RunReturned None)"
    by (simp add: RunStatus_def)
  from status_socket_cleaned_up [OF this] show ?thesis by simp
qed

definition sample_document :: Document where
  "sample_document =
     \<lparr>doc_Version = ''1'', doc_StartedAt = (0, 0), doc_Active = ''a'', doc_Upstreams = Some [],
      doc_Runtime = \<lparr>rt_Goroutines = 9, rt_OpenFDs = -1, rt_HeapAlloc = 1, rt_HeapInUse = 1, rt_Sys = 2\<rparr>,
      doc_Reload = \<lparr>rs_Count = 0, rs_LastAt = (3000000000, 7200), rs_LastError = ''a\"<b''\<rparr>\<rparr>"

lemma sample_document_text:
  "write_status sample_document =
   ''{\"version\":\"1\",\"started_at\":\"0001-01-01T00:00:00Z\",\"active_upstream\":\"a\",\"upstreams\":[],'' @
   ''\"runtime\":{\"goroutines\":9,\"open_fds\":-1,\"heap_alloc_bytes\":1,\"heap_inuse_bytes\":1,\"sys_bytes\":2},'' @
   ''\"reload\":{\"count\":0,\"last_at\":\"0001-01-01T02:00:03+02:00\",\"last_error\":\"a'' @ [CHR 0x5C, CHR 0x22, CHR 0x5C] @ ''u003cb\"}}'' @ [CHR 0x0A]"
  by code_simp

lemma sample_document_ok: "document_ok sample_document"
  by (simp add: document_ok_def whole_minutes_def sample_document_def ascii_def slice_elems_def in_int64_def min_int64_def max_int64_def)

lemma status_read_all_or_nothing_witness:
  "ReadDocument (Inr (take 1000 (write_status sample_document), None)) = Inr sample_document \<and>
   ReadDocument (Inr (take 99 (write_status sample_document), None)) = Inl (ReadStatus UnexpectedEOF) \<and>
   ReadDocument (Inr (take 99 (write_status sample_document), Some ''timeout'')) = Inl (ReadConnection ''timeout'')"
proof -
  let ?w = "write_status sample_document"
  have "?w \<noteq> []" and "length ?w = 271" unfolding sample_document_text by simp_all
  with sample_document_ok show ?thesis
    using status_read_all_or_nothing [of sample_document 1000 None]
      status_read_all_or_nothing [of sample_document 99 None]
      status_read_all_or_nothing [of sample_document 99 "Some ''timeout''"] by simp
qed

end
