(* ===== verification/GoFloat.thy ===== *)
theory GoFloat
  imports
    Complex_Main
    "HOL-Library.Log_Nat"
begin

text \<open>
  Go's \<open>float64\<close>, as far as the back-off of the probe scheduler uses it: a value is a rational,
  and every operation rounds its exact result to 53 significant bits, ties to even. The values
  of the program are zero or lie between \<open>2^-54\<close> and \<open>2^64\<close>, so neither the subnormal range nor
  overflow is modelled. A compiler may fuse a multiplication and an addition, which then round
  once.
\<close>

definition round_even :: "rat \<Rightarrow> int" where
  "round_even x =
     (let f = \<lfloor>x\<rfloor>; d = x - of_int f in
      if d < 1 / 2 then f else if 1 / 2 < d then f + 1 else if even f then f else f + 1)"

text \<open>The exponent of the last of the 53 bits of a positive rational.\<close>

definition ulp_exp :: "rat \<Rightarrow> int" where
  "ulp_exp x =
     (let (p, q) = quotient_of x; e = bitlen p - bitlen q - 53 in
      if x < 2 powi (e + 53) then e else e + 1)"

definition float64 :: "rat \<Rightarrow> rat" where
  "float64 x =
     (if x = 0 then 0
      else sgn x * (of_int (round_even (\<bar>x\<bar> / 2 powi ulp_exp \<bar>x\<bar>)) * 2 powi ulp_exp \<bar>x\<bar>))"

definition fmul :: "rat \<Rightarrow> rat \<Rightarrow> rat" where
  "fmul x y = float64 (x * y)"

definition fmul_add :: "bool \<Rightarrow> rat \<Rightarrow> rat \<Rightarrow> rat \<Rightarrow> rat" where
  "fmul_add fused x y z = (if fused then float64 (x * y + z) else float64 (fmul x y + z))"

text \<open>The conversion of a \<open>float64\<close> to an integer type drops the fraction.\<close>

definition float_to_int :: "rat \<Rightarrow> int" where
  "float_to_int x = (if 0 \<le> x then \<lfloor>x\<rfloor> else \<lceil>x\<rceil>)"

section \<open>The relative error of one rounding\<close>

lemma round_even_error: "\<bar>of_int (round_even x) - x\<bar> \<le> 1 / 2"
proof -
  have "of_int \<lfloor>x\<rfloor> \<le> x" "x < of_int \<lfloor>x\<rfloor> + 1" by linarith+
  then show ?thesis by (auto simp: round_even_def Let_def abs_le_iff)
qed

lemma powi_two_pos: "0 < (2 :: rat) powi e"
  by (rule zero_less_power_int) simp

lemma ulp_exp_bound:
  assumes "0 < x"
  shows "2 ^ 52 * 2 powi ulp_exp x \<le> x"
proof -
  obtain p q where pq: "quotient_of x = (p, q)" by (cases "quotient_of x")
  then have q: "0 < q" and x: "x = of_int p / of_int q"
    by (auto simp: quotient_of_denom_pos quotient_of_div)
  with assms have p: "0 < p" by (simp add: zero_less_divide_iff)
  have bp: "1 \<le> bitlen p" using p by (simp add: bitlen_alt_def)
  have "(2::int) ^ nat (bitlen p - 1) \<le> p" "q < 2 ^ nat (bitlen q)"
    using bitlen_bounds [OF p] bitlen_bounds [OF q] by auto
  then have "(of_int (2 ^ nat (bitlen p - 1)) :: rat) \<le> of_int p" "(of_int q :: rat) \<le> of_int (2 ^ nat (bitlen q))"
    unfolding of_int_le_iff by simp_all
  then have "(2::rat) powi (bitlen p - 1) \<le> of_int p" "of_int q \<le> (2::rat) powi bitlen q"
    using bp bitlen_nonneg [of q] by (simp_all add: power_int_def)
  then have b: "2 powi (bitlen p - 1) / 2 powi bitlen q \<le> x"
    unfolding x using q p by (intro frac_le) (auto intro: less_imp_le)
  define e where "e = bitlen p - bitlen q - 53"
  have "(bitlen p - 1) - bitlen q = e + 52" by (simp add: e_def)
  then have "2 powi (bitlen p - 1) / 2 powi bitlen q = (2 :: rat) powi (e + 52)"
    by (metis power_int_diff zero_neq_numeral)
  with b have "2 ^ 52 * 2 powi e \<le> x" by (simp add: power_int_add)
  moreover have "(2 :: rat) ^ 52 * 2 powi (e + 1) = 2 powi (e + 53)" by (simp add: power_int_add)
  moreover have "ulp_exp x = (if x < 2 powi (e + 53) then e else e + 1)"
    by (simp add: ulp_exp_def pq Let_def e_def)
  ultimately show ?thesis by simp
qed

lemma float64_error:
  assumes "0 \<le> x"
  shows "\<bar>float64 x - x\<bar> \<le> x / 2 ^ 53"
proof (cases "x = 0")
  case True
  then show ?thesis by (simp add: float64_def)
next
  case False
  with assms have x: "0 < x" by simp
  let ?u = "2 powi ulp_exp x :: rat"
  have u: "0 < ?u" by (rule powi_two_pos)
  have "\<bar>of_int (round_even (x / ?u)) - x / ?u\<bar> * ?u \<le> 1 / 2 * ?u"
    using u by (intro mult_right_mono round_even_error) simp
  also have "\<dots> \<le> x / 2 ^ 53" using ulp_exp_bound [OF x] by simp
  also have "\<bar>of_int (round_even (x / ?u)) - x / ?u\<bar> * ?u = \<bar>of_int (round_even (x / ?u)) * ?u - x\<bar>"
  proof -
    have "(of_int (round_even (x / ?u)) - x / ?u) * ?u = of_int (round_even (x / ?u)) * ?u - x"
      using u by (simp add: left_diff_distrib)
    with u show ?thesis by (metis abs_mult abs_of_pos)
  qed
  finally show ?thesis using x by (simp add: float64_def)
qed

lemma float64_bounds:
  assumes "0 \<le> x"
  shows "x * (1 - 1 / 2 ^ 53) \<le> float64 x" and "float64 x \<le> x * (1 + 1 / 2 ^ 53)"
proof -
  from float64_error [OF assms] have "float64 x - x \<le> x / 2 ^ 53" "- (float64 x - x) \<le> x / 2 ^ 53"
    by (simp_all only: abs_le_iff)
  then show "x * (1 - 1 / 2 ^ 53) \<le> float64 x" and "float64 x \<le> x * (1 + 1 / 2 ^ 53)"
    by (simp_all add: field_simps)
qed

end
