(* ===== verification/Health.thy ===== *)
theory Health
  imports Exchange GoFloat "HOL-Library.Multiset"
begin

text \<open>
  \<open>internal/health/scheduler.go\<close>: the background prober. Its own state is when each upstream is
  due next and how many probes in a row found it down; the manager is shared with the request
  handlers. The clock, the random numbers and what other goroutines do to the manager
  meanwhile come from an environment. Debug output is not modelled.
\<close>

section \<open>The scheduler\<close>

record Scheduler =
  sc_cfg :: Config
  sc_due :: "string \<rightharpoonup> time"
  sc_failures :: "string \<rightharpoonup> int"

definition NewScheduler :: "Config \<Rightarrow> Scheduler" where
  "NewScheduler cfg = \<lparr>sc_cfg = cfg, sc_due = Map.empty, sc_failures = Map.empty\<rparr>"

definition minute :: duration where
  "minute = 60 * second"

definition hour :: duration where
  "hour = 60 * minute"

section \<open>Back-off\<close>

text \<open>
  The loop \<open>for i := 1; i < failures && delay < 5*time.Minute; i++\<close>; the product is a
  \<open>time.Duration\<close> and wraps.
\<close>

function double_delay :: "int \<Rightarrow> int \<Rightarrow> duration \<Rightarrow> duration" where
  "double_delay i failures delay =
     (if i < failures \<and> delay < 5 * minute then double_delay (i + 1) failures (wrap64 (delay * 2))
      else delay)"
  by pat_completeness auto
termination by (relation "measure (\<lambda>(i, failures, delay). nat (failures - i))") auto

declare double_delay.simps [simp del]

text \<open>
  The constants \<open>0.8\<close> and \<open>0.4\<close> are the \<open>float64\<close> values next to them; \<open>fused\<close> says whether the
  compiler fused \<open>0.8 + 0.4*random\<close>.
\<close>

definition backoff :: "bool \<Rightarrow> duration \<Rightarrow> int \<Rightarrow> rat \<Rightarrow> duration" where
  "backoff fused base failures random =
     (let failures = (if failures < 1 then 1 else failures);
          delay = double_delay 1 failures base;
          delay = (if delay > 5 * minute then 5 * minute else delay);
          jitter = fmul_add fused (float64 (4 / 10)) random (float64 (8 / 10))
      in float_to_int (fmul (float64 (of_int delay)) jitter))"

section \<open>When an upstream is due\<close>

text \<open>
  \<open>isDue\<close> also marks the upstream as being probed, by a due time a day ahead that \<open>schedule\<close>
  replaces.
\<close>

definition isDue :: "string \<Rightarrow> time \<Rightarrow> Scheduler \<Rightarrow> Scheduler \<times> bool" where
  "isDue name now s =
     (case sc_due s name of
        Some due \<Rightarrow>
          if now < due then (s, False) else (s\<lparr>sc_due := (sc_due s)(name \<mapsto> now + 24 * hour)\<rparr>, True)
      | None \<Rightarrow> (s\<lparr>sc_due := (sc_due s)(name \<mapsto> now + 24 * hour)\<rparr>, True))"

definition failures_of :: "Scheduler \<Rightarrow> string \<Rightarrow> int" where
  "failures_of s name = (case sc_failures s name of None \<Rightarrow> 0 | Some n \<Rightarrow> n)"

definition schedule ::
  "bool \<Rightarrow> rat \<Rightarrow> string \<Rightarrow> time \<Rightarrow> bool \<Rightarrow> Manager \<Rightarrow> Scheduler \<Rightarrow> Scheduler" where
  "schedule fused random name now success m s =
     (if success then
        s\<lparr>sc_failures := (sc_failures s)(name \<mapsto> 0),
          sc_due := (sc_due s)(name \<mapsto> now + c_HealthInterval (sc_cfg s))\<rparr>
      else
        let n = (if StateOf m name = Down then wrap64 (failures_of s name + 1) else 1) in
        s\<lparr>sc_failures := (sc_failures s)(name \<mapsto> n),
          sc_due := (sc_due s)(name \<mapsto> now + backoff fused (c_HealthInterval (sc_cfg s)) n random)\<rparr>)"

section \<open>One probe\<close>

record 'net probe_env =
  pe_index :: nat
  pe_id :: int
  pe_net :: 'net
  pe_before :: "mgr_event list"
  pe_now :: time
  pe_between :: "mgr_event list"
  pe_random :: rat

text \<open>\<^const>\<open>None\<close> is the panic of \<open>rng.Intn(0)\<close>; otherwise \<open>Intn\<close> picks an index in range.\<close>

definition randomProbe :: "nat \<Rightarrow> Scheduler \<Rightarrow> Probe option" where
  "randomProbe i s =
     (let probes = c_Probes (sc_cfg s) in if probes = [] then None else Some (probes ! (i mod length probes)))"

text \<open>
  A probe asks one upstream, gives the manager one piece of evidence and schedules the next
  probe. Other goroutines may act on the manager before the evidence is recorded
  (\<open>pe_before\<close>) and before the state is read again for the back-off (\<open>pe_between\<close>). All probes
  draw from one generator under a mutex; \<open>pe_index\<close> and \<open>pe_random\<close> are what it gave to this probe. They
  are arbitrary here, so a statement for all environments covers every order in which the
  goroutines of a round take the mutex (\<open>deal\<close> in the theory on the order of the probes).
  \<^const>\<open>None\<close> is a panic.
\<close>

definition probe ::
  "dns_lib \<Rightarrow> ('net \<Rightarrow> duration \<Rightarrow> Upstream \<Rightarrow> dns_msg \<Rightarrow> xresult) \<Rightarrow> bool \<Rightarrow> 'net probe_env \<Rightarrow>
   Upstream \<Rightarrow> Scheduler \<times> Manager \<Rightarrow> (Scheduler \<times> Manager) option" where
  "probe L xchg fused env candidate st =
     (case st of (s, m) \<Rightarrow>
       case randomProbe (pe_index env) s of
         None \<Rightarrow> None
       | Some pr \<Rightarrow>
           let request = l_SetQuestion L (pe_id env) (p_Name pr) (p_QType pr);
               now = pe_now env; name = u_Name candidate; m1 = mgr_run (pe_before env) m;
               fail = (\<lambda>message.
                 let m2 = mgr_run (pe_between env) (RecordFailure name message now m1)
                 in Some (schedule fused (pe_random env) name now False m2 s, m2))
           in case xchg (pe_net env) (c_AttemptTimeout (sc_cfg s)) candidate request of
                XPanic \<Rightarrow> None
              | XResult response latency (Some e) \<Rightarrow> fail (''probe: '' @ e)
              | XResult None latency None \<Rightarrow> None
              | XResult (Some r) latency None \<Rightarrow>
                  if transient L (d_Rcode r) then fail (''probe: '' @ l_RcodeToString L (d_Rcode r))
                  else
                    let m2 = mgr_run (pe_between env) (RecordSuccess name True latency now m1)
                    in Some (schedule fused (pe_random env) name now True m2 s, m2))"

section \<open>A round of probes\<close>

text \<open>
  The loop of \<open>probeAll\<close> reads the clock and marks the due upstreams; each gets a goroutine, and
  the round ends when all have finished. The probes touch the scheduler under their own
  upstream's name only, so the model starts them after the loop, in an order of the
  environment's choice.
\<close>

fun mark_due :: "(string \<Rightarrow> time) \<Rightarrow> Upstream list \<Rightarrow> Scheduler \<Rightarrow> Scheduler \<times> Upstream list" where
  "mark_due clock [] s = (s, [])"
| "mark_due clock (u # us) s =
     (let (s', due) = isDue (u_Name u) (clock (u_Name u)) s;
          (s'', started) = mark_due clock us s'
      in (s'', if due then u # started else started))"

fun run_probes ::
  "dns_lib \<Rightarrow> ('net \<Rightarrow> duration \<Rightarrow> Upstream \<Rightarrow> dns_msg \<Rightarrow> xresult) \<Rightarrow> bool \<Rightarrow> (string \<Rightarrow> 'net probe_env) \<Rightarrow>
   Upstream list \<Rightarrow> Scheduler \<times> Manager \<Rightarrow> (Scheduler \<times> Manager) option" where
  "run_probes L xchg fused env [] st = Some st"
| "run_probes L xchg fused env (u # us) st =
     (case probe L xchg fused (env (u_Name u)) u st of
        None \<Rightarrow> None
      | Some st' \<Rightarrow> run_probes L xchg fused env us st')"

record 'net round =
  rd_clock :: "string \<Rightarrow> time"
  rd_order :: "Upstream list \<Rightarrow> Upstream list"
  rd_env :: "string \<Rightarrow> 'net probe_env"

definition probeAll ::
  "dns_lib \<Rightarrow> ('net \<Rightarrow> duration \<Rightarrow> Upstream \<Rightarrow> dns_msg \<Rightarrow> xresult) \<Rightarrow> bool \<Rightarrow> 'net round \<Rightarrow>
   Scheduler \<times> Manager \<Rightarrow> (Scheduler \<times> Manager) option" where
  "probeAll L xchg fused rd st =
     (case st of (s, m) \<Rightarrow>
        let (s', started) = mark_due (rd_clock rd) (c_Upstreams (sc_cfg s)) s
        in run_probes L xchg fused (rd_env rd) (rd_order rd started) (s', m))"

section \<open>The loop of the scheduler\<close>

definition tick_interval :: "Config \<Rightarrow> duration" where
  "tick_interval cfg =
     (let tick = go_div (c_HealthInterval cfg) 4;
          tick = (if tick < 250 * millisecond then 250 * millisecond else tick)
      in if tick > second then second else tick)"

datatype 'net wakeup = CtxDone | Tick "'net round"

text \<open>
  \<open>Run\<close>: a first round, then a round for every tick until the context ends. The list says what
  the select statement received so far.
\<close>

fun run_ticks ::
  "dns_lib \<Rightarrow> ('net \<Rightarrow> duration \<Rightarrow> Upstream \<Rightarrow> dns_msg \<Rightarrow> xresult) \<Rightarrow> bool \<Rightarrow> 'net wakeup list \<Rightarrow>
   Scheduler \<times> Manager \<Rightarrow> (Scheduler \<times> Manager) option" where
  "run_ticks L xchg fused [] st = Some st"
| "run_ticks L xchg fused (CtxDone # ws) st = Some st"
| "run_ticks L xchg fused (Tick rd # ws) st =
     (case probeAll L xchg fused rd st of None \<Rightarrow> None | Some st' \<Rightarrow> run_ticks L xchg fused ws st')"

definition RunScheduler ::
  "dns_lib \<Rightarrow> ('net \<Rightarrow> duration \<Rightarrow> Upstream \<Rightarrow> dns_msg \<Rightarrow> xresult) \<Rightarrow> bool \<Rightarrow> 'net round \<Rightarrow> 'net wakeup list \<Rightarrow>
   Scheduler \<times> Manager \<Rightarrow> (Scheduler \<times> Manager) option" where
  "RunScheduler L xchg fused rd ws st = run_ticks L xchg fused (Tick rd # ws) st"

section \<open>The delay is the capped doubling\<close>

definition backoff_delay :: "duration \<Rightarrow> int \<Rightarrow> duration" where
  "backoff_delay base failures = min (base * 2 ^ nat (failures - 1)) (5 * minute)"

lemma minute_value: "minute = 60000000000"
  by (simp add: minute_def second_def)

lemma double_delay_capped:
  assumes "0 < base" and "in_int64 base"
  shows "min (double_delay i failures base) (5 * minute) = min (base * 2 ^ nat (failures - i)) (5 * minute)"
  using assms
proof (induction i failures base rule: double_delay.induct)
  case (1 i failures delay)
  show ?case
  proof (cases "i < failures \<and> delay < 5 * minute")
    case True
    then have w: "in_int64 (delay * 2)" using 1(2,3)
      by (simp add: in_int64_def min_int64_def max_int64_def minute_value)
    have n: "nat (failures - i) = Suc (nat (failures - (i + 1)))"
      using True by (subst Suc_nat_eq_nat_zadd1) simp_all
    have "min (double_delay (i + 1) failures (wrap64 (delay * 2))) (5 * minute) =
      min (delay * 2 * 2 ^ nat (failures - (i + 1))) (5 * minute)"
      using 1(1) [OF True] w 1(2) by simp
    with True show ?thesis by (subst double_delay.simps) (simp add: n mult.assoc)
  next
    case False
    have "delay * 1 \<le> delay * 2 ^ nat (failures - i)" using 1(2) by (intro mult_left_mono) simp_all
    moreover have "failures \<le> i \<Longrightarrow> nat (failures - i) = 0" by simp
    ultimately show ?thesis using False by (subst double_delay.simps) (auto simp: min_def not_less)
  qed
qed

lemma backoff_delay_pos: "0 < base \<Longrightarrow> 0 < backoff_delay base failures \<and> backoff_delay base failures \<le> 5 * minute"
  by (simp add: backoff_delay_def minute_value)

section \<open>The jitter\<close>

definition jitter :: "bool \<Rightarrow> rat \<Rightarrow> rat" where
  "jitter fused random = fmul_add fused (float64 (4 / 10)) random (float64 (8 / 10))"

lemma float64_constants:
  "4 / 10 * (1 - 1 / 2 ^ 53) \<le> float64 (4 / 10)" "float64 (4 / 10) \<le> 4 / 10 * (1 + 1 / 2 ^ 53)"
  "8 / 10 * (1 - 1 / 2 ^ 53) \<le> float64 (8 / 10)" "float64 (8 / 10) \<le> 8 / 10 * (1 + 1 / 2 ^ 53)"
  by (rule float64_bounds, simp)+

lemma jitter_bounds:
  assumes "0 \<le> random" and "random \<le> 1"
  shows "8 / 10 - 1 / 2 ^ 50 \<le> jitter fused random" and "jitter fused random \<le> 12 / 10 + 1 / 2 ^ 50"
proof -
  define c d x where "c = float64 (4 / 10)" and "d = float64 (8 / 10)" and "x = c * random"
  note cd = float64_constants [folded c_def d_def]
  have x: "0 \<le> x" "x \<le> c" using assms cd(1) by (simp_all add: x_def mult_left_le)
  note f = float64_bounds [OF x(1)]
  have s: "0 \<le> x + d" "0 \<le> float64 x + d" using x(1) f(1) cd(3) by simp_all
  note b = float64_bounds [OF s(1)] float64_bounds [OF s(2)]
  have j: "jitter fused random = (if fused then float64 (x + d) else float64 (float64 x + d))"
    by (simp add: jitter_def fmul_add_def fmul_def c_def d_def x_def)
  show "8 / 10 - 1 / 2 ^ 50 \<le> jitter fused random" "jitter fused random \<le> 12 / 10 + 1 / 2 ^ 50"
    unfolding j using b cd x f by simp_all
qed

lemma scaled_bounds:
  assumes "0 \<le> d" and "d \<le> 300000000000" and "8 / 10 - 1 / 2 ^ 50 \<le> j" and "j \<le> 12 / 10 + 1 / 2 ^ 50"
  shows "4 / 5 * d - 1 / 1000 \<le> fmul (float64 d) j" and "fmul (float64 d) j \<le> 6 / 5 * d + 1 / 1000"
proof -
  note f = float64_bounds [OF assms(1)]
  have f0: "0 \<le> float64 d" using f(1) assms(1) by simp
  have j0: "0 \<le> j" using assms(3) by simp
  have "d * (1 - 1 / 2 ^ 53) * (8 / 10 - 1 / 2 ^ 50) \<le> float64 d * j"
    using f(1) assms(1,3) f0 by (intro mult_mono) auto
  moreover have "float64 d * j \<le> d * (1 + 1 / 2 ^ 53) * (12 / 10 + 1 / 2 ^ 50)"
    using f(2) assms(4) f0 j0 by (intro mult_mono) auto
  moreover have "0 \<le> float64 d * j" using f0 j0 by simp
  note b = float64_bounds [OF this]
  ultimately show "4 / 5 * d - 1 / 1000 \<le> fmul (float64 d) j" and "fmul (float64 d) j \<le> 6 / 5 * d + 1 / 1000"
    unfolding fmul_def using b assms(1,2) by simp_all
qed

lemma backoff_delay_eq:
  assumes "0 < base" and "in_int64 base"
  shows "backoff fused base failures random =
    float_to_int (fmul (float64 (of_int (backoff_delay base failures))) (jitter fused random))"
proof -
  have "(if double_delay 1 f base > 5 * minute then 5 * minute else double_delay 1 f base) = backoff_delay base f" for f
    using double_delay_capped [OF assms, of 1 f] by (simp add: backoff_delay_def min_def split: if_splits)
  moreover have "backoff_delay base (if failures < 1 then 1 else failures) = backoff_delay base failures"
    by (simp add: backoff_delay_def)
  ultimately show ?thesis by (simp add: backoff_def Let_def jitter_def)
qed

lemma backoff_bounds:
  assumes "0 < base" and "in_int64 base" and "0 \<le> random" and "random \<le> 1"
  shows "4 * backoff_delay base failures - 5 \<le> 5 * backoff fused base failures random"
    and "5 * backoff fused base failures random \<le> 6 * backoff_delay base failures"
proof -
  let ?d = "backoff_delay base failures" and ?r = "fmul (float64 (of_int (backoff_delay base failures))) (jitter fused random)"
  have d: "0 < ?d" "?d \<le> 300000000000" using backoff_delay_pos [OF assms(1)] by (simp_all add: minute_value)
  then have "0 \<le> (of_int ?d :: rat)" "(of_int ?d :: rat) \<le> 300000000000" by simp_all
  from scaled_bounds [OF this jitter_bounds [OF assms(3,4)]]
  have r: "4 / 5 * of_int ?d - 1 / 1000 \<le> ?r" "?r \<le> 6 / 5 * of_int ?d + 1 / 1000" by blast+
  have "(1 :: rat) \<le> of_int ?d" using d(1) by simp
  with r(1) have "0 \<le> ?r" by simp
  then have e: "backoff fused base failures random = \<lfloor>?r\<rfloor>"
    by (simp add: backoff_delay_eq [OF assms(1,2)] float_to_int_def)
  have "of_int (5 * \<lfloor>?r\<rfloor>) < (of_int (6 * ?d + 1) :: rat)" "(of_int (4 * ?d - 6) :: rat) < of_int (5 * \<lfloor>?r\<rfloor>)"
    using r by (simp_all, linarith+)
  then have "5 * \<lfloor>?r\<rfloor> < 6 * ?d + 1" "4 * ?d - 6 < 5 * \<lfloor>?r\<rfloor>" unfolding of_int_less_iff .
  then show "4 * ?d - 5 \<le> 5 * backoff fused base failures random"
    and "5 * backoff fused base failures random \<le> 6 * ?d" by (simp_all add: e)
qed

text \<open>
  C25: the back-off delay is the health interval doubled once per further failure, capped at five
  minutes, with a jitter of at most twenty per cent: never more than six minutes, whatever
  the number of failures, the random number and the rounding of the floating-point
  arithmetic. The truncation to nanoseconds takes off less than one.
\<close>

theorem backoff_within_jitter:
  assumes "0 < base" and "in_int64 base" and "0 \<le> random" and "random < 1"
  shows "4 * backoff_delay base failures - 5 \<le> 5 * backoff fused base failures random \<and>
    5 * backoff fused base failures random \<le> 6 * backoff_delay base failures \<and>
    backoff fused base failures random \<le> 6 * minute"
  using backoff_bounds [OF assms(1-3) less_imp_le [OF assms(4)], where failures = failures and fused = fused]
    backoff_delay_pos [OF assms(1), of failures] by linarith

section \<open>One probe gives one piece of evidence\<close>

definition random_ok :: "'net probe_env \<Rightarrow> bool" where
  "random_ok env \<longleftrightarrow> 0 \<le> pe_random env \<and> pe_random env < 1"

definition longest_wait :: "Config \<Rightarrow> duration" where
  "longest_wait cfg = max (c_HealthInterval cfg) (6 * minute)"

lemma schedule_frame [simp]: "sc_cfg (schedule fused r n now ok m s) = sc_cfg s"
  by (simp add: schedule_def Let_def)

lemma schedule_due:
  assumes "0 < c_HealthInterval (sc_cfg s)" and "in_int64 (c_HealthInterval (sc_cfg s))"
    and "0 \<le> r" and "r < 1"
  obtains d where "sc_due (schedule fused r n now ok m s) = (sc_due s)(n \<mapsto> d)"
    and "d \<le> now + longest_wait (sc_cfg s)"
proof (cases ok)
  case True
  then show ?thesis using that [of "now + c_HealthInterval (sc_cfg s)"] by (simp add: schedule_def longest_wait_def)
next
  case False
  define k where "k = (if StateOf m n = Down then wrap64 (failures_of s n + 1) else 1)"
  have "5 * backoff fused (c_HealthInterval (sc_cfg s)) k r \<le> 6 * backoff_delay (c_HealthInterval (sc_cfg s)) k"
    using assms by (intro backoff_bounds) simp_all
  then have "backoff fused (c_HealthInterval (sc_cfg s)) k r \<le> longest_wait (sc_cfg s)"
    using backoff_delay_pos [OF assms(1), of k] unfolding longest_wait_def by linarith
  moreover have "sc_due (schedule fused r n now ok m s) =
      (sc_due s)(n \<mapsto> now + backoff fused (c_HealthInterval (sc_cfg s)) k r)"
    using False by (simp add: schedule_def Let_def k_def)
  ultimately show ?thesis using that by simp
qed

context exchanger
begin

lemma probe_cases:
  assumes "c_Probes (sc_cfg s) \<noteq> []" and "\<And>t u q. xchg (pe_net env) t u q \<noteq> XPanic"
  shows "\<exists>pr ok ev. pr \<in> set (c_Probes (sc_cfg s)) \<and>
    (let x = xchg (pe_net env) (c_AttemptTimeout (sc_cfg s)) u (l_SetQuestion L (pe_id env) (p_Name pr) (p_QType pr));
         m' = mgr_run (pe_before env @ ev # pe_between env) m
     in probe L xchg fused env u (s, m) =
          Some (schedule fused (pe_random env) (u_Name u) (pe_now env) ok m' s, m') \<and>
        (ok \<longleftrightarrow> answers L x) \<and>
        (if ok then \<exists>lat. ev = EvSuccess (u_Name u) True lat (pe_now env)
         else \<exists>msg. ev = EvFailure (u_Name u) msg (pe_now env)))"
proof -
  let ?pr = "c_Probes (sc_cfg s) ! (pe_index env mod length (c_Probes (sc_cfg s)))"
  let ?q = "l_SetQuestion L (pe_id env) (p_Name ?pr) (p_QType ?pr)"
  have pr: "randomProbe (pe_index env) s = Some ?pr" "?pr \<in> set (c_Probes (sc_cfg s))"
    using assms(1) by (simp_all add: randomProbe_def Let_def)
  obtain response lat err where x: "xchg (pe_net env) (c_AttemptTimeout (sc_cfg s)) u ?q = XResult response lat err"
    using assms(2) by (cases "xchg (pe_net env) (c_AttemptTimeout (sc_cfg s)) u ?q") auto
  show ?thesis
  proof (cases err)
    case (Some e)
    with x error_nil have "response = None" by blast
    with Some show ?thesis
      using pr x
      by (intro exI [of _ ?pr] exI [of _ False] exI [of _ "EvFailure (u_Name u) (''probe: '' @ e) (pe_now env)"])
        (auto simp: probe_def answers_def mgr_run_append Let_def)
  next
    case None
    with x ok_good obtain r where r: "response = Some r" by blast
    show ?thesis
    proof (cases "transient L (d_Rcode r)")
      case True
      then show ?thesis
        using None pr x r
        by (intro exI [of _ ?pr] exI [of _ False]
            exI [of _ "EvFailure (u_Name u) (''probe: '' @ l_RcodeToString L (d_Rcode r)) (pe_now env)"])
          (auto simp: probe_def answers_def mgr_run_append Let_def)
    next
      case False
      then show ?thesis
        using None pr x r
        by (intro exI [of _ ?pr] exI [of _ True] exI [of _ "EvSuccess (u_Name u) True lat (pe_now env)"])
          (auto simp: probe_def answers_def mgr_run_append Let_def)
    qed
  qed
qed

end

text \<open>
  C26: a probe never panics on a validated configuration and gives the manager exactly one piece
  of evidence about the probed upstream, in between whatever other goroutines record: a probe
  success exactly when the reply is valid and neither SERVFAIL nor REFUSED, otherwise a
  failure. The next probe is scheduled accordingly.
\<close>

theorem probe_records_one_evidence:
  assumes "valid_config (sc_cfg s)" and "client_ok (pe_net env)"
  shows "\<exists>pr ok ev. pr \<in> set (c_Probes (sc_cfg s)) \<and>
    (let x = Exchange L (pe_net env) (c_AttemptTimeout (sc_cfg s)) u
               (l_SetQuestion L (pe_id env) (p_Name pr) (p_QType pr));
         m' = mgr_run (pe_before env @ ev # pe_between env) m
     in probe L (Exchange L) fused env u (s, m) =
          Some (schedule fused (pe_random env) (u_Name u) (pe_now env) ok m' s, m') \<and>
        (ok \<longleftrightarrow> answers L x) \<and>
        (if ok then \<exists>lat. ev = EvSuccess (u_Name u) True lat (pe_now env)
         else \<exists>msg. ev = EvFailure (u_Name u) msg (pe_now env)))"
  using assms by (intro dnsx.probe_cases Exchange_no_panic) (simp_all add: valid_config_def)

section \<open>Rounds\<close>

lemma isDue_simps:
  "sc_cfg (fst (isDue n t s)) = sc_cfg s" "sc_failures (fst (isDue n t s)) = sc_failures s"
  "n' \<noteq> n \<Longrightarrow> sc_due (fst (isDue n t s)) n' = sc_due s n'"
  "\<not> snd (isDue n t s) \<Longrightarrow> fst (isDue n t s) = s"
  "snd (isDue n t s) \<longleftrightarrow> (\<forall>d. sc_due s n = Some d \<longrightarrow> d \<le> t)"
  by (auto simp: isDue_def split: option.splits)

lemma mark_due_facts:
  "distinct (map u_Name us) \<Longrightarrow>
   snd (mark_due clock us s) = filter (\<lambda>u. \<forall>d. sc_due s (u_Name u) = Some d \<longrightarrow> d \<le> clock (u_Name u)) us \<and>
   sc_cfg (fst (mark_due clock us s)) = sc_cfg s \<and>
   (\<forall>n. n \<notin> u_Name ` set (snd (mark_due clock us s)) \<longrightarrow> sc_due (fst (mark_due clock us s)) n = sc_due s n)"
proof (induction us arbitrary: s)
  case (Cons u us)
  obtain s1 due where i: "isDue (u_Name u) (clock (u_Name u)) s = (s1, due)" by fastforce
  note facts = isDue_simps [where n = "u_Name u" and t = "clock (u_Name u)" and s = s, unfolded i fst_conv snd_conv]
  obtain s2 started where k: "mark_due clock us s1 = (s2, started)" by fastforce
  have eq: "filter (\<lambda>u. \<forall>d. sc_due s1 (u_Name u) = Some d \<longrightarrow> d \<le> clock (u_Name u)) us =
    filter (\<lambda>u. \<forall>d. sc_due s (u_Name u) = Some d \<longrightarrow> d \<le> clock (u_Name u)) us"
  proof (rule filter_cong [OF refl])
    fix x assume "x \<in> set us"
    with Cons.prems have "u_Name x \<noteq> u_Name u" by (force simp: image_iff)
    with facts(3) show "(\<forall>d. sc_due s1 (u_Name x) = Some d \<longrightarrow> d \<le> clock (u_Name x)) =
      (\<forall>d. sc_due s (u_Name x) = Some d \<longrightarrow> d \<le> clock (u_Name x))" by simp
  qed
  have IH: "started = filter (\<lambda>u. \<forall>d. sc_due s (u_Name u) = Some d \<longrightarrow> d \<le> clock (u_Name u)) us"
    "sc_cfg s2 = sc_cfg s" "\<forall>n. n \<notin> u_Name ` set started \<longrightarrow> sc_due s2 n = sc_due s1 n"
    using Cons.IH [of s1] Cons.prems k eq facts(1) by simp_all
  have m: "mark_due clock (u # us) s = (s2, if due then u # started else started)" using i k by simp
  have f: "(if due then u # started else started) =
    filter (\<lambda>u. \<forall>d. sc_due s (u_Name u) = Some d \<longrightarrow> d \<le> clock (u_Name u)) (u # us)"
    using IH(1) facts(5) by simp
  have "sc_due s2 n = sc_due s n" if "n \<notin> u_Name ` set (if due then u # started else started)" for n
    using that IH(3) facts(3) [of n] facts(4) by (cases due) (auto split: if_splits)
  with IH(2) show ?case unfolding m fst_conv snd_conv by (intro conjI f allI impI) simp_all
qed simp

lemma mark_due_spec:
  assumes "distinct (map u_Name us)"
  shows "snd (mark_due clock us s) = filter (\<lambda>u. \<forall>d. sc_due s (u_Name u) = Some d \<longrightarrow> d \<le> clock (u_Name u)) us"
    and "sc_cfg (fst (mark_due clock us s)) = sc_cfg s"
    and "n \<notin> u_Name ` set (snd (mark_due clock us s)) \<Longrightarrow> sc_due (fst (mark_due clock us s)) n = sc_due s n"
  using mark_due_facts [OF assms] by blast+

text \<open>What the environment of a round has to satisfy for the promises below to hold.\<close>

definition round_ok :: "time \<Rightarrow> client round \<Rightarrow> bool" where
  "round_ok t rd \<longleftrightarrow> (\<forall>n. rd_clock rd n \<le> t \<and> pe_now (rd_env rd n) \<le> t \<and> random_ok (rd_env rd n) \<and>
     client_ok (pe_net (rd_env rd n))) \<and> (\<forall>us. mset (rd_order rd us) = mset us)"

definition dues_within :: "time \<Rightarrow> Scheduler \<Rightarrow> bool" where
  "dues_within t s \<longleftrightarrow> (\<forall>n d. sc_due s n = Some d \<longrightarrow> d \<le> t + longest_wait (sc_cfg s))"

lemma probe_returns:
  assumes "valid_config (sc_cfg s)" and "client_ok (pe_net env)"
  shows "\<exists>ok m'. probe L (Exchange L) fused env u (s, m) =
    Some (schedule fused (pe_random env) (u_Name u) (pe_now env) ok m' s, m')"
proof -
  have "c_Probes (sc_cfg s) \<noteq> []" using assms(1) by (simp add: valid_config_def)
  from dnsx.probe_cases [OF this Exchange_no_panic [OF assms(2)]] show ?thesis
    unfolding Let_def by blast
qed

lemma run_probes_due:
  assumes "valid_config (sc_cfg s)" and "in_int64 (c_HealthInterval (sc_cfg s))"
    and "\<And>n. pe_now (env n) \<le> t" "\<And>n. random_ok (env n)" "\<And>n. client_ok (pe_net (env n))"
  shows "\<exists>s' m'. run_probes L (Exchange L) fused env us (s, m) = Some (s', m') \<and> sc_cfg s' = sc_cfg s \<and>
    (\<forall>n. n \<notin> u_Name ` set us \<longrightarrow> sc_due s' n = sc_due s n) \<and>
    (\<forall>n \<in> u_Name ` set us. \<exists>d. sc_due s' n = Some d \<and> d \<le> t + longest_wait (sc_cfg s))"
  using assms(1,2)
proof (induction us arbitrary: s m)
  case (Cons u us)
  obtain ok m1 where p: "probe L (Exchange L) fused (env (u_Name u)) u (s, m) =
    Some (schedule fused (pe_random (env (u_Name u))) (u_Name u) (pe_now (env (u_Name u))) ok m1 s, m1)"
    using probe_returns [OF Cons.prems(1) assms(5)] by blast
  let ?s = "schedule fused (pe_random (env (u_Name u))) (u_Name u) (pe_now (env (u_Name u))) ok m1 s"
  have h: "0 < c_HealthInterval (sc_cfg s)" using Cons.prems(1) by (simp add: valid_config_def)
  have r: "0 \<le> pe_random (env (u_Name u))" "pe_random (env (u_Name u)) < 1"
    using assms(4) [of "u_Name u"] by (simp_all add: random_ok_def)
  obtain d where d: "sc_due ?s = (sc_due s)(u_Name u \<mapsto> d)" "d \<le> pe_now (env (u_Name u)) + longest_wait (sc_cfg s)"
    using schedule_due [OF h Cons.prems(2) r] by blast
  have "d \<le> t + longest_wait (sc_cfg s)" using d(2) assms(3) [of "u_Name u"] by simp
  with Cons.IH [of ?s m1] Cons.prems p d(1) show ?case
    by (auto simp: image_iff split: if_splits) metis+
qed simp

lemma dues_withinI:
  assumes "sc_cfg s' = sc_cfg s" and "dues_within t s"
    and "\<And>n. sc_due s' n = sc_due s n \<or> (\<exists>d. sc_due s' n = Some d \<and> d \<le> t + longest_wait (sc_cfg s))"
  shows "dues_within t s'"
  using assms unfolding dues_within_def by (metis option.inject)

lemma probeAll_due:
  assumes "valid_config (sc_cfg s)" and "in_int64 (c_HealthInterval (sc_cfg s))"
    and "round_ok t rd" and "dues_within t s"
  shows "\<exists>s' m'. probeAll L (Exchange L) fused rd (s, m) = Some (s', m') \<and> sc_cfg s' = sc_cfg s \<and> dues_within t s'"
proof -
  let ?us = "c_Upstreams (sc_cfg s)"
  have names: "distinct (map u_Name ?us)" using assms(1) by (simp add: valid_config_def)
  obtain s1 started where k: "mark_due (rd_clock rd) ?us s = (s1, started)" by fastforce
  note mark = mark_due_spec [OF names, where clock = "rd_clock rd" and s = s, unfolded k fst_conv snd_conv]
  have set: "set (rd_order rd started) = set started"
    using assms(3) unfolding round_ok_def by (metis mset_eq_setD)
  obtain s' m' where r: "run_probes L (Exchange L) fused (rd_env rd) (rd_order rd started) (s1, m) = Some (s', m')"
    and c: "sc_cfg s' = sc_cfg s" and keep: "\<forall>n. n \<notin> u_Name ` set started \<longrightarrow> sc_due s' n = sc_due s1 n"
    and new: "\<forall>n \<in> u_Name ` set started. \<exists>d. sc_due s' n = Some d \<and> d \<le> t + longest_wait (sc_cfg s)"
    using run_probes_due [of s1 "rd_env rd" t L fused "rd_order rd started" m] assms(1-3) mark(2) set
    by (auto simp: round_ok_def)
  have "dues_within t s'"
    by (rule dues_withinI [OF c assms(4)]) (use keep new mark(3) in metis)
  with r c k show ?thesis by (simp add: probeAll_def)
qed

text \<open>
  C24: no upstream is ever forgotten. From a scheduler whose due times are at most the longest wait
  (the health interval, or six minutes if that is more) ahead, a round never panics and leaves
  it so, and any later round whose clock has advanced by the longest wait probes every
  configured upstream, however long it has been down.
\<close>

theorem every_upstream_probed_again:
  assumes "valid_config (sc_cfg s)" and "in_int64 (c_HealthInterval (sc_cfg s))"
    and "round_ok t rd" and "dues_within t s"
  shows "\<exists>s' m'. probeAll L (Exchange L) fused rd (s, m) = Some (s', m') \<and> dues_within t s' \<and> sc_cfg s' = sc_cfg s \<and>
    (\<forall>clock. (\<forall>n. t + longest_wait (sc_cfg s) \<le> clock n) \<longrightarrow>
       snd (mark_due clock (c_Upstreams (sc_cfg s)) s') = c_Upstreams (sc_cfg s))"
proof -
  obtain s' m' where p: "probeAll L (Exchange L) fused rd (s, m) = Some (s', m')" "sc_cfg s' = sc_cfg s" "dues_within t s'"
    using probeAll_due [OF assms] by blast
  have "snd (mark_due clock (c_Upstreams (sc_cfg s)) s') = c_Upstreams (sc_cfg s)"
    if "\<forall>n. t + longest_wait (sc_cfg s) \<le> clock n" for clock
  proof -
    have "distinct (map u_Name (c_Upstreams (sc_cfg s)))" using assms(1) by (simp add: valid_config_def)
    note mark = mark_due_spec(1) [OF this]
    have "d \<le> clock n" if "sc_due s' n = Some d" for n d
      using that p(2,3) \<open>\<forall>n. t + longest_wait (sc_cfg s) \<le> clock n\<close>
      unfolding dues_within_def by (metis order.trans)
    then show ?thesis by (simp add: mark filter_id_conv)
  qed
  with p show ?thesis by blast
qed

section \<open>Whole runs of the scheduler\<close>

lemma probe_inv [wf_intros]:
  assumes "mgr_inv B C m" and "probe L xchg fused env u (s, m) = Some (s', m')"
  shows "mgr_inv B C m'"
  using assms
  by (auto simp: probe_def Let_def split: option.splits xresult.splits if_splits intro!: wf_intros)

lemma run_probes_inv [wf_intros]:
  "mgr_inv B C m \<Longrightarrow> run_probes L xchg fused env us (s, m) = Some (s', m') \<Longrightarrow> mgr_inv B C m'"
proof (induction us arbitrary: s m)
  case (Cons u us)
  then obtain s1 m1 where "probe L xchg fused (env (u_Name u)) u (s, m) = Some (s1, m1)"
    "run_probes L xchg fused env us (s1, m1) = Some (s', m')" by (auto split: option.splits)
  with Cons probe_inv show ?case by blast
qed simp

lemma probeAll_inv [wf_intros]:
  "mgr_inv B C m \<Longrightarrow> probeAll L xchg fused rd (s, m) = Some (s', m') \<Longrightarrow> mgr_inv B C m'"
  by (auto simp: probeAll_def split: prod.splits intro: run_probes_inv)

fun wakeup_ok :: "time \<Rightarrow> client wakeup \<Rightarrow> bool" where
  "wakeup_ok t CtxDone = True"
| "wakeup_ok t (Tick rd) = round_ok t rd"

lemma run_ticks_ok:
  assumes "valid_config (sc_cfg s)" and "in_int64 (c_HealthInterval (sc_cfg s))"
    and "dues_within t s" and "mgr_inv B C m" and "\<forall>w \<in> set ws. wakeup_ok t w"
  shows "\<exists>s' m'. run_ticks L (Exchange L) fused ws (s, m) = Some (s', m') \<and> sc_cfg s' = sc_cfg s \<and>
    dues_within t s' \<and> mgr_inv B C m'"
  using assms
proof (induction ws arbitrary: s m)
  case (Cons w ws)
  show ?case
  proof (cases w)
    case (Tick rd)
    with Cons.prems have "round_ok t rd" by simp
    from probeAll_due [OF Cons.prems(1,2) this Cons.prems(3)] obtain s1 m1 where
      p: "probeAll L (Exchange L) fused rd (s, m) = Some (s1, m1)" "sc_cfg s1 = sc_cfg s" "dues_within t s1" by blast
    have "mgr_inv B C m1" using probeAll_inv [OF Cons.prems(4) p(1)] .
    with Cons.IH [of s1 m1] Cons.prems p Tick show ?thesis by simp
  qed (use Cons.prems in simp)
qed simp

lemma tick_interval_bounds: "250 * millisecond \<le> tick_interval cfg \<and> tick_interval cfg \<le> second"
  by (simp add: tick_interval_def Let_def millisecond_def second_def)

text \<open>
  C28: the scheduler runs as long as it is asked to. With a validated configuration, its first
  round and any number of further rounds never panic, keep the manager well-formed, and at
  every moment each due time is at most the longest wait ahead of the clock; its ticker wakes
  it every 250 milliseconds to one second.
\<close>

theorem scheduler_never_stops:
  assumes "valid_config cfg" and "in_int64 (c_HealthInterval cfg)" and "mgr_inv B C m"
    and "round_ok t rd" and "\<forall>w \<in> set ws. wakeup_ok t w"
  shows "\<exists>s' m'. RunScheduler L (Exchange L) fused rd ws (NewScheduler cfg, m) = Some (s', m') \<and>
    mgr_inv B C m' \<and> dues_within t s' \<and>
    250 * millisecond \<le> tick_interval cfg \<and> tick_interval cfg \<le> second"
proof -
  have "dues_within t (NewScheduler cfg)" by (simp add: dues_within_def NewScheduler_def)
  moreover have "sc_cfg (NewScheduler cfg) = cfg" by (simp add: NewScheduler_def)
  ultimately show ?thesis
    using run_ticks_ok [of "NewScheduler cfg" t B C m "Tick rd # ws" L fused] assms tick_interval_bounds [of cfg]
    by (auto simp: RunScheduler_def simp del: run_ticks.simps)
qed

section \<open>Backing off from an upstream that stays down\<close>

definition fail_again :: "bool \<Rightarrow> rat \<Rightarrow> string \<Rightarrow> Manager \<Rightarrow> time \<Rightarrow> Scheduler \<Rightarrow> Scheduler" where
  "fail_again fused random name m now s = schedule fused random name now False m s"

lemma failures_schedule:
  "failures_of (schedule fused r n now False m s) n =
     (if StateOf m n = Down then wrap64 (failures_of s n + 1) else 1)"
  by (simp add: schedule_def Let_def failures_of_def)

text \<open>
  C27: while an upstream stays down, every further failed probe doubles the wait: after \<open>k\<close> failed
  probes in a row following the first, the next one is due within twenty per cent of the
  health interval times \<open>2^k\<close>, or of five minutes if that is less. A successful probe starts
  over with the health interval.
\<close>

theorem down_upstream_backs_off:
  assumes "0 < c_HealthInterval (sc_cfg s)" and "in_int64 (c_HealthInterval (sc_cfg s))"
    and "0 \<le> random" and "random < 1" and "StateOf m name = Down" and "failures_of s name = 1"
    and "instants \<noteq> []" and "int (length instants) < max_int64"
  shows "(\<exists>d. sc_due (fold (fail_again fused random name m) instants s) name = Some d \<and>
      4 * min (c_HealthInterval (sc_cfg s) * 2 ^ length instants) (5 * minute) - 5 \<le> 5 * (d - last instants) \<and>
      5 * (d - last instants) \<le> 6 * min (c_HealthInterval (sc_cfg s) * 2 ^ length instants) (5 * minute)) \<and>
    sc_due (schedule fused random name now True m s) name = Some (now + c_HealthInterval (sc_cfg s)) \<and>
    failures_of (schedule fused random name now True m s) name = 0"
proof -
  have small: "wrap64 (int k + 2) = int k + 2" if "1 + int k < max_int64" for k
    using that by (intro wrap64_id) (simp add: in_int64_def min_int64_def)
  have fold: "sc_cfg (fold (fail_again fused random name m) ts s) = sc_cfg s \<and>
      failures_of (fold (fail_again fused random name m) ts s) name = 1 + int (length ts)"
    if "int (length ts) < max_int64" for ts
    using that assms(5,6)
    by (induction ts rule: rev_induct) (auto simp: fail_again_def failures_schedule add.commute small)
  from assms(7) obtain ts t where ts: "instants = ts @ [t]" by (cases instants rule: rev_cases) auto
  let ?s = "fold (fail_again fused random name m) ts s" and ?n = "2 + int (length ts)" and ?h = "c_HealthInterval (sc_cfg s)"
  have f: "sc_cfg ?s = sc_cfg s" "failures_of ?s name = 1 + int (length ts)" using fold [of ts] assms(8) ts by auto
  have w: "wrap64 (failures_of ?s name + 1) = ?n"
    using f(2) assms(8) wrap64_incr [of "1 + int (length ts)"] by (simp add: ts)
  have "sc_due (fold (fail_again fused random name m) instants s) name = Some (t + backoff fused ?h ?n random)"
    using w f(1) assms(5) by (simp add: ts fail_again_def schedule_def Let_def)
  moreover have "backoff_delay ?h ?n = min (?h * 2 ^ length instants) (5 * minute)"
  proof -
    have "nat (?n - 1) = length instants" by (simp add: ts)
    then show ?thesis unfolding backoff_delay_def by simp
  qed
  ultimately show ?thesis
    using backoff_bounds [OF assms(1-3) less_imp_le [OF assms(4)], where failures = ?n and fused = fused]
    by (simp add: ts schedule_def failures_of_def)
qed

section \<open>Witnesses\<close>

lemma second_in_int64: "in_int64 (10 * second)"
  by (simp add: in_int64_def min_int64_def max_int64_def second_def)

lemma backoff_within_jitter_witness: "backoff False (10 * second) 7 (1 / 2) \<le> 6 * minute"
  using backoff_within_jitter [OF _ second_in_int64, of "1 / 2" 7 False] by (simp add: second_def)

definition sample_probe_env :: "client \<Rightarrow> client probe_env" where
  "sample_probe_env client =
     \<lparr>pe_index = 1, pe_id = 9, pe_net = client, pe_before = [], pe_now = 100, pe_between = [], pe_random = 1 / 2\<rparr>"

definition sample_round :: "client \<Rightarrow> client round" where
  "sample_round client = \<lparr>rd_clock = (\<lambda>n. 90), rd_order = rev, rd_env = (\<lambda>n. sample_probe_env client)\<rparr>"

lemma sample_config_valid: "valid_config sample_config"
  using Load_valid_config [OF sample_loads] .

lemma sample_scheduler: "sc_cfg (NewScheduler sample_config) = sample_config"
  by (simp add: NewScheduler_def)

lemma sample_interval: "c_HealthInterval sample_config = 10 * second"
  by code_simp

lemma sample_round_ok: "client_ok client \<Longrightarrow> round_ok 100 (sample_round client)"
  by (simp add: round_ok_def sample_round_def sample_probe_env_def random_ok_def)

lemma sample_client_ok: "client_ok (answering False 0)"
  by (simp add: client_ok_def answering_def)

definition sample_target :: Upstream where
  "sample_target = sample_upstream ''primary'' 10 ''192.0.2.1''"

lemma probe_records_one_evidence_witness:
  "\<exists>ok ev. probe sample_lib (Exchange sample_lib) False (sample_probe_env (answering False 0)) sample_target
     (NewScheduler sample_config, sample_manager) =
     Some (schedule False (1 / 2) (u_Name sample_target) 100 ok (mgr_step ev sample_manager) (NewScheduler sample_config),
           mgr_step ev sample_manager)"
  using probe_records_one_evidence [of "NewScheduler sample_config" "sample_probe_env (answering False 0)"
      sample_lib sample_target sample_manager False] sample_config_valid sample_client_ok
  by (auto simp: sample_scheduler sample_probe_env_def Let_def)

lemma every_upstream_probed_again_witness:
  "\<exists>s' m'. probeAll sample_lib (Exchange sample_lib) True (sample_round (answering False 0))
      (NewScheduler sample_config, sample_manager) = Some (s', m') \<and>
    snd (mark_due (\<lambda>n. 100 + longest_wait sample_config) (c_Upstreams sample_config) s') = c_Upstreams sample_config"
proof -
  have d: "dues_within 100 (NewScheduler sample_config)" by (simp add: dues_within_def NewScheduler_def)
  show ?thesis
    using every_upstream_probed_again [OF _ _ sample_round_ok [OF sample_client_ok] d, of sample_lib True sample_manager]
      sample_config_valid second_in_int64
    by (fastforce simp: sample_scheduler sample_interval)
qed

lemma scheduler_never_stops_witness:
  "\<exists>s' m'. RunScheduler sample_lib (Exchange sample_lib) False (sample_round (answering False 0))
     [Tick (sample_round (answering False 0)), CtxDone] (NewScheduler sample_config, sample_manager) = Some (s', m') \<and>
     mgr_inv 3 3 m'"
  using scheduler_never_stops [OF sample_config_valid _ sample_manager_inv sample_round_ok [OF sample_client_ok],
      of "[Tick (sample_round (answering False 0)), CtxDone]" sample_lib False]
    sample_round_ok [OF sample_client_ok] second_in_int64
  by (auto simp: sample_interval)

lemma down_upstream_backs_off_witness:
  "\<exists>d. sc_due (fold (fail_again False (1 / 2) ''primary'' sample_down) [5, 30]
      ((NewScheduler sample_config)\<lparr>sc_failures := [''primary'' \<mapsto> 1]\<rparr>)) ''primary'' = Some d \<and>
    5 * (d - 30) \<le> 6 * (40 * second)"
proof -
  let ?s = "(NewScheduler sample_config)\<lparr>sc_failures := [''primary'' \<mapsto> 1]\<rparr>"
  have s: "sc_cfg ?s = sample_config" "failures_of ?s ''primary'' = 1"
    by (simp_all add: NewScheduler_def failures_of_def)
  have st: "StateOf sample_down ''primary'' = Down" by code_simp
  have h: "0 < c_HealthInterval (sc_cfg ?s)" "in_int64 (c_HealthInterval (sc_cfg ?s))"
    unfolding s sample_interval by (simp_all add: second_in_int64) (simp add: second_def)
  have "min (10 * second * 2 ^ length [5, 30 :: time]) (5 * minute) = 40 * second" by (simp add: minute_def second_def)
  with down_upstream_backs_off [OF h, of "1 / 2" sample_down "''primary''" "[5, 30]" False 0] st s sample_interval
  show ?thesis by (auto simp: max_int64_def)
qed

end
