(* ===== verification/Generations.thy ===== *)
theory Generations
  imports Failover
begin

text \<open>
  The managers that can exist: \<open>NewManager\<close> builds the first, every operation changes it, and a
  reload builds the next from its snapshots (\<open>internal/failover/state.go\<close>). The type invariant
  of \<open>Failover\<close> holds for all of them, however many reloads there were.
\<close>

lemma e_config_cfg_at: "map e_config (m_heap m) = map (cfg_at m) [0..<length (m_heap m)]"
  by (rule nth_equalityI) (simp_all add: cfg_at_def)

lemma e_config_run [simp]: "map e_config (m_heap (mgr_run evs m)) = map e_config (m_heap m)"
  by (simp add: e_config_cfg_at)

lemma e_config_new: "map e_config (m_heap (NewManager us ft rt lg)) = us"
  by (simp add: new_entry_def comp_def)

lemma e_config_reloaded: "map e_config (m_heap (NewManagerFromSnapshots us ft rt lg prev)) = us"
  unfolding e_config_cfg_at by (rule nth_equalityI) (simp_all add: reloaded_at(1))

lemma mgr_inv_mono:
  assumes "mgr_inv B C m"
  shows "mgr_inv max_int64 max_int64 m"
  using assms by (auto simp: mgr_inv_def entry_ok_def intro: snap_ok_mono)

lemma mgr_inv_snapshots: "mgr_inv B C m \<Longrightarrow> \<forall>s \<in> set (Snapshots m). snap_ok B C s"
  by (auto simp: Snapshots_eq mgr_inv_def mgr_shape_def entry_ok_def)

section \<open>Every manager that can exist\<close>

text \<open>
  \<open>managers us m\<close>: \<open>m\<close> is a manager for the upstreams \<open>us\<close>, after any operations and any reloads.
  The thresholds are of Go's type \<open>int\<close>.
\<close>

inductive managers :: "Upstream list \<Rightarrow> Manager \<Rightarrow> bool" where
  first: "distinct (map u_Name us) \<Longrightarrow> in_int64 ft \<Longrightarrow> in_int64 rt \<Longrightarrow> managers us (NewManager us ft rt lg)"
| operation: "managers us m \<Longrightarrow> managers us (mgr_step ev m)"
| reload: "managers us m \<Longrightarrow> distinct (map u_Name us') \<Longrightarrow> in_int64 ft \<Longrightarrow> in_int64 rt \<Longrightarrow>
    managers us' (NewManagerFromSnapshots us' ft rt lg (Snapshots m))"

lemma managers_inv:
  "managers us m \<Longrightarrow> mgr_inv max_int64 max_int64 m \<and> map e_config (m_heap m) = us"
proof (induction rule: managers.induct)
  case (first us ft rt lg)
  then show ?case
    using mgr_inv_mono [OF NewManager_inv, of us ft rt lg] e_config_new by (simp add: in_int64_def)
next
  case (operation us m ev)
  then show ?case using e_config_run [of "[ev]" m] by (simp add: mgr_step_inv)
next
  case (reload us m us' ft rt lg)
  then show ?case
    using mgr_inv_snapshots [of max_int64 max_int64 m] e_config_reloaded
    by (simp add: reloaded_inv in_int64_def)
qed

text \<open>
  C11: every manager that can exist is well-formed. Whatever operations and reloads led to it, its
  entries are those of its configuration, listed once each by increasing priority; \<open>byName\<close>
  finds each under its name and nothing else; the snapshot carries the identity of its
  upstream; the counters agree with the state (\<open>snap_ok\<close>) and have not wrapped; and each entry
  has a channel of sixteen slots that is never over-full.
\<close>

theorem managers_well_formed:
  assumes "managers us m"
  shows "map e_config (m_heap m) = us \<and> distinct (m_entries m) \<and> set (m_entries m) = {..<length us} \<and>
    sorted (map (\<lambda>p. u_Priority (us ! p)) (m_entries m)) \<and>
    (\<forall>n p. m_byName m n = Some p \<longleftrightarrow> p < length us \<and> u_Name (us ! p) = n) \<and>
    (\<forall>p < length us. snap_of (us ! p) (snap_at m p) \<and> snap_ok max_int64 max_int64 (snap_at m p) \<and>
       ch_cap (attempts_at m p) = 16 \<and> ch_len (attempts_at m p) \<le> 16)"
proof -
  from managers_inv [OF assms] have inv: "mgr_inv max_int64 max_int64 m" and us: "map e_config (m_heap m) = us" by auto
  then have len: "length (m_heap m) = length us" by (metis length_map)
  have at: "cfg_at m p = us ! p" if "p < length us" for p
    using that len nth_map [of p "m_heap m" e_config] unfolding us by (simp add: cfg_at_def)
  from inv len have sh: "distinct (m_entries m)" "set (m_entries m) = {..<length us}"
    "sorted (map (\<lambda>p. u_Priority (cfg_at m p)) (m_entries m))"
    by (simp_all add: mgr_inv_def mgr_shape_def)
  have "map (\<lambda>p. u_Priority (cfg_at m p)) (m_entries m) = map (\<lambda>p. u_Priority (us ! p)) (m_entries m)"
    using sh(2) at by simp
  with sh(3) have "sorted (map (\<lambda>p. u_Priority (us ! p)) (m_entries m))" by (simp only:)
  moreover have "\<forall>n p. m_byName m n = Some p \<longleftrightarrow> p < length us \<and> u_Name (us ! p) = n"
    using inv len at by (auto simp: mgr_inv_def mgr_shape_def)
  moreover have "\<forall>p < length us. snap_of (us ! p) (snap_at m p) \<and> snap_ok max_int64 max_int64 (snap_at m p) \<and>
      ch_cap (attempts_at m p) = 16 \<and> ch_len (attempts_at m p) \<le> 16"
    using mgr_inv_entry [OF inv] len at by (auto simp: entry_ok_def max_attempts_def)
  ultimately show ?thesis using us sh by simp
qed

text \<open>Two generations: the sample manager after an outage, reloaded with one upstream only.\<close>

lemma managers_well_formed_witness:
  "m_byName (NewManagerFromSnapshots [sample_upstream ''primary'' 7 ''192.0.2.1''] 5 5 True (Snapshots sample_down))
     ''primary'' = Some 0"
proof -
  have i: "in_int64 3" "in_int64 5" by (simp_all add: in_int64_def min_int64_def max_int64_def)
  have m: "managers (c_Upstreams sample_config) sample_manager"
    unfolding sample_manager_def by (rule managers.first [OF sample_names i(1) i(1)])
  have "managers (c_Upstreams sample_config) (mgr_run evs sample_manager)" for evs
  proof (induction evs rule: rev_induct)
    case Nil
    then show ?case using m by simp
  next
    case (snoc ev evs)
    then show ?case by (simp add: mgr_run_append managers.operation)
  qed
  then have "managers (c_Upstreams sample_config) sample_down" by (simp add: sample_down_def)
  then have "managers [sample_upstream ''primary'' 7 ''192.0.2.1'']
    (NewManagerFromSnapshots [sample_upstream ''primary'' 7 ''192.0.2.1''] 5 5 True (Snapshots sample_down))"
    using i(2) by (intro managers.reload) simp_all
  from managers_well_formed [OF this] show ?thesis by (simp add: sample_upstream_def)
qed

end
