(* ===== verification/GoFlag.thy ===== *)
theory GoFlag
  imports GoText
begin

text \<open>
  The part of Go's package \<open>flag\<close> that the commands use: a flag set with string and boolean flags,
  parsed with \<open>ContinueOnError\<close>. A flag is \<open>-name\<close> or \<open>--name\<close>, with its value after \<open>=\<close> or, for a
  string flag, as the next argument; parsing stops at the first argument that is no flag and
  after \<open>--\<close>.
\<close>

datatype flag_value = StringFlag string | BoolFlag bool

type_synonym flag_set = "string \<rightharpoonup> flag_value"

datatype flag_error =
    BadSyntax string
  | HelpRequested
  | NotDefined string
  | InvalidBool string string
  | NeedsArgument string

fun flag_error_text :: "flag_error \<Rightarrow> string" where
  "flag_error_text (BadSyntax s) = ''bad flag syntax: '' @ s"
| "flag_error_text HelpRequested = ''flag: help requested''"
| "flag_error_text (NotDefined name) = ''flag provided but not defined: -'' @ name"
| "flag_error_text (InvalidBool v name) =
     ''invalid boolean value '' @ go_quote v @ '' for -'' @ name @ '': parse error''"
| "flag_error_text (NeedsArgument name) = ''flag needs an argument: -'' @ name"

definition parse_bool :: "string \<Rightarrow> bool option" where
  "parse_bool s =
     (if s \<in> {''1'', ''t'', ''T'', ''TRUE'', ''true'', ''True''} then Some True
      else if s \<in> {''0'', ''f'', ''F'', ''FALSE'', ''false'', ''False''} then Some False
      else None)"

text \<open>The name and the value of \<open>name=value\<close>; the first character is never the separator.\<close>

definition split_flag :: "string \<Rightarrow> string \<times> string option" where
  "split_flag name =
     (case name of
        [] \<Rightarrow> ([], None)
      | c # rest \<Rightarrow>
          if CHR ''='' \<in> set rest
          then (c # takeWhile (\<lambda>x. x \<noteq> CHR ''='') rest, Some (tl (dropWhile (\<lambda>x. x \<noteq> CHR ''='') rest)))
          else (name, None))"

datatype flag_step =
    FlagsDone "string list"
  | FlagError flag_error
  | FlagSet flag_set "string list"

definition set_flag :: "flag_set \<Rightarrow> string \<Rightarrow> string option \<Rightarrow> string list \<Rightarrow> flag_step" where
  "set_flag fl name value args =
     (case fl name of
        None \<Rightarrow> FlagError (if name = ''help'' \<or> name = ''h'' then HelpRequested else NotDefined name)
      | Some (BoolFlag _) \<Rightarrow>
          (case value of
             None \<Rightarrow> FlagSet (fl(name \<mapsto> BoolFlag True)) args
           | Some v \<Rightarrow>
               (case parse_bool v of
                  None \<Rightarrow> FlagError (InvalidBool v name)
                | Some b \<Rightarrow> FlagSet (fl(name \<mapsto> BoolFlag b)) args))
      | Some (StringFlag _) \<Rightarrow>
          (case value of
             Some v \<Rightarrow> FlagSet (fl(name \<mapsto> StringFlag v)) args
           | None \<Rightarrow>
               (case args of
                  [] \<Rightarrow> FlagError (NeedsArgument name)
                | v # args' \<Rightarrow> FlagSet (fl(name \<mapsto> StringFlag v)) args')))"

definition parse_one :: "flag_set \<Rightarrow> string list \<Rightarrow> flag_step" where
  "parse_one fl args =
     (case args of
        [] \<Rightarrow> FlagsDone []
      | s # rest \<Rightarrow>
          if length s < 2 \<or> hd s \<noteq> CHR ''-'' then FlagsDone args
          else if s = ''--'' then FlagsDone rest
          else
            let name = (if s ! 1 = CHR ''-'' then drop 2 s else drop 1 s) in
            if name = [] \<or> hd name = CHR ''-'' \<or> hd name = CHR ''='' then FlagError (BadSyntax s)
            else let (n, value) = split_flag name in set_flag fl n value rest)"

lemma set_flag_shorter: "set_flag fl n v args = FlagSet fl' args' \<Longrightarrow> length args' \<le> length args"
  by (auto simp: set_flag_def split: option.splits flag_value.splits list.splits)

lemma parse_one_shorter: "parse_one fl args = FlagSet fl' args' \<Longrightarrow> length args' < length args"
  by (auto simp: parse_one_def Let_def split: list.splits if_splits prod.splits dest!: set_flag_shorter)

function parse_flags :: "flag_set \<Rightarrow> string list \<Rightarrow> flag_error + flag_set \<times> string list" where
  "parse_flags fl args =
     (case parse_one fl args of
        FlagsDone rest \<Rightarrow> Inr (fl, rest)
      | FlagError e \<Rightarrow> Inl e
      | FlagSet fl' args' \<Rightarrow> parse_flags fl' args')"
  by pat_completeness auto
termination
  by (relation "measure (\<lambda>(fl, args). length args)") (auto dest: parse_one_shorter)

declare parse_flags.simps [simp del]

text \<open>The values of the flags a command declared.\<close>

definition flag_string :: "flag_set \<Rightarrow> string \<Rightarrow> string" where
  "flag_string fl name = (case fl name of Some (StringFlag v) \<Rightarrow> v | _ \<Rightarrow> [])"

definition flag_bool :: "flag_set \<Rightarrow> string \<Rightarrow> bool" where
  "flag_bool fl name = (case fl name of Some (BoolFlag b) \<Rightarrow> b | _ \<Rightarrow> False)"

text \<open>With no arguments every flag keeps its default, and a first argument that is no flag ends the flags.\<close>

lemma parse_flags_none [simp]:
  "parse_flags fl [] = Inr (fl, [])"
  "length s < 2 \<or> hd s \<noteq> CHR ''-'' \<Longrightarrow> parse_flags fl (s # rest) = Inr (fl, s # rest)"
  by (simp_all add: parse_flags.simps parse_one_def)

lemma parse_flags_string:
  assumes "fl n = Some (StringFlag d)" and "CHR ''='' \<notin> set n" and "n \<noteq> []" and "hd n \<noteq> CHR ''-''"
  shows "parse_flags fl ((CHR ''-'' # n) # v # rest) = parse_flags (fl(n \<mapsto> StringFlag v)) rest"
proof -
  from assms obtain c cs where n: "n = c # cs" by (cases n) auto
  with assms have "split_flag n = (n, None)" by (simp add: split_flag_def)
  with assms n have "parse_one fl ((CHR ''-'' # n) # v # rest) = FlagSet (fl(n \<mapsto> StringFlag v)) rest"
    by (auto simp: parse_one_def Let_def set_flag_def)
  then show ?thesis by (subst parse_flags.simps) simp
qed

lemma parse_flags_bool:
  assumes "fl n = Some (BoolFlag d)" and "CHR ''='' \<notin> set n" and "n \<noteq> []" and "hd n \<noteq> CHR ''-''"
  shows "parse_flags fl ((CHR ''-'' # n) # rest) = parse_flags (fl(n \<mapsto> BoolFlag True)) rest"
proof -
  from assms obtain c cs where n: "n = c # cs" by (cases n) auto
  with assms have "split_flag n = (n, None)" by (simp add: split_flag_def)
  with assms n have "parse_one fl ((CHR ''-'' # n) # rest) = FlagSet (fl(n \<mapsto> BoolFlag True)) rest"
    by (auto simp: parse_one_def Let_def set_flag_def)
  then show ?thesis by (subst parse_flags.simps) simp
qed

end
