(* ===== verification/Daemon.thy ===== *)
theory Daemon
  imports Status Health Generations GoFlag
begin

text \<open>
  \<open>cmd/failsafe-dns-proxy/main.go\<close>: the commands and the daemon's event loop with its reload. The
  file system, the network and the status socket are arguments. Errors are values,
  and their texts (\<open>reload_error_text\<close>, \<open>main_error_text\<close>) are functions of them.
\<close>

section \<open>The one-shot commands\<close>

text \<open>
  The world of a command: \<open>w_dial\<close> is what connecting to the status socket gives, \<open>w_stdout\<close> the error of
  writing to the standard output.
\<close>

record world =
  w_fs :: filesystem
  w_client :: client
  w_id :: int
  w_dial :: "string \<Rightarrow> string + string \<times> string option"
  w_stdout :: "string option"

text \<open>The two result structs; the one of \<open>self-test\<close> has no field for the upstream.\<close>

record check_result =
  cr_Upstream :: "string option"
  cr_Success :: bool
  cr_LatencyMS :: int
  cr_Rcode :: string
  cr_Error :: string

datatype main_error =
    Usage
  | FlagFailed flag_error
  | ConfigFailed config_error
  | StatusFailed read_error
  | ProbeRequiresName
  | UnknownUpstream string
  | CheckFailed string
  | EncodeFailed
  | StdoutFailed string
  | ServerFailed string

text \<open>How a command ends: what it wrote to the standard output and the error it returns.\<close>

datatype outcome = Exit string "main_error option" | PanicExit

definition println :: "string \<Rightarrow> string" where
  "println s = s @ [CHR 0x0A]"

text \<open>\<open>json.NewEncoder(os.Stdout).Encode\<close> of a value whose JSON text is given, if it has one.\<close>

definition encode_stdout :: "world \<Rightarrow> string option \<Rightarrow> outcome" where
  "encode_stdout w txt =
     (case txt of
        None \<Rightarrow> Exit [] (Some EncodeFailed)
      | Some t \<Rightarrow> Exit (println t) (map_option StdoutFailed (w_stdout w)))"

definition config_flags :: flag_set where
  "config_flags = [''config'' \<mapsto> StringFlag DefaultPath]"

definition with_flags :: "flag_set \<Rightarrow> string list \<Rightarrow> (flag_set \<Rightarrow> string list \<Rightarrow> outcome) \<Rightarrow> outcome" where
  "with_flags fl args k =
     (case parse_flags fl args of Inl e \<Rightarrow> Exit [] (Some (FlagFailed e)) | Inr (fl', rest) \<Rightarrow> k fl' rest)"

definition with_config :: "world \<Rightarrow> flag_set \<Rightarrow> (Config \<Rightarrow> outcome) \<Rightarrow> outcome" where
  "with_config w fl k =
     (case Load (w_fs w) (flag_string fl ''config'') of
        Inl e \<Rightarrow> Exit [] (Some (ConfigFailed e))
      | Inr cfg \<Rightarrow> k cfg)"

definition checkConfig :: "world \<Rightarrow> string list \<Rightarrow> outcome" where
  "checkConfig w args =
     with_flags config_flags args (\<lambda>fl rest.
     with_config w fl (\<lambda>cfg.
     Exit (println (''configuration valid: '' @ itoa (int (length (c_Upstreams cfg))) @ '' upstream(s), listen '' @
                    c_ListenAddr cfg @ '':'' @ itoa (c_ListenPort cfg))) None))"

definition status_line :: "Snapshot_text \<Rightarrow> string" where
  "status_line s =
     s_Name s @ '' priority='' @ itoa (s_Priority s) @ '' state='' @ s_State s @
     '' failures='' @ itoa (s_ConsecutiveFailures s) @ '' successes='' @ itoa (s_ConsecutiveSuccess s)"

definition status_flags :: flag_set where
  "status_flags = [''socket'' \<mapsto> StringFlag ''/var/run/failsafe-dns-proxy.sock'', ''json'' \<mapsto> BoolFlag False]"

text \<open>With \<open>-json\<close> the times are written again with the offsets they were read with.\<close>

definition showStatus :: "world \<Rightarrow> string list \<Rightarrow> outcome" where
  "showStatus w args =
     with_flags status_flags args (\<lambda>fl rest.
       case ReadDocument (w_dial w (flag_string fl ''socket'')) of
         Inl e \<Rightarrow> Exit [] (Some (StatusFailed e))
       | Inr doc \<Rightarrow>
           if flag_bool fl ''json'' then encode_stdout w (map_option indented_json (document_json doc))
           else Exit (println (''active: '' @ doc_Active doc) @
                      concat (map (\<lambda>s. println (status_line s)) (slice_elems (doc_Upstreams doc)))) None)"

text \<open>What the two commands that ask a server make of the exchange; \<open>who\<close> names it in the message.\<close>

definition summarise :: "dns_lib \<Rightarrow> string \<Rightarrow> check_result \<Rightarrow> dns_msg option \<Rightarrow> duration \<Rightarrow> string option \<Rightarrow> check_result option" where
  "summarise L who result response latency err =
     (case err of
        Some e \<Rightarrow> Some (result\<lparr>cr_Error := e\<rparr>)
      | None \<Rightarrow>
          (case response of
             None \<Rightarrow> None
           | Some r \<Rightarrow>
               let result = result\<lparr>cr_Success := \<not> transient L (d_Rcode r),
                                   cr_LatencyMS := go_div latency 1000000,
                                   cr_Rcode := l_RcodeToString L (d_Rcode r)\<rparr>
               in Some (if cr_Success result then result
                        else result\<lparr>cr_Error := who @ '' returned '' @ cr_Rcode result\<rparr>)))"

definition result_json :: "check_result \<Rightarrow> json" where
  "result_json r =
     JObj ((case cr_Upstream r of None \<Rightarrow> [] | Some name \<Rightarrow> [(''upstream'', string_json name)]) @
       [(''success'', JBool (cr_Success r))] @
       omit_if (cr_LatencyMS r = 0) ''latency_ms'' (int_json (cr_LatencyMS r)) @
       omit_if (cr_Rcode r = []) ''rcode'' (string_json (cr_Rcode r)) @
       omit_if (cr_Error r = []) ''error'' (string_json (cr_Error r)))"

definition report :: "world \<Rightarrow> bool \<Rightarrow> string \<Rightarrow> check_result \<Rightarrow> outcome" where
  "report w asJSON label result =
     (if asJSON then encode_stdout w (Some (compact_json (result_json result)))
      else if \<not> cr_Success result then Exit [] (Some (CheckFailed (cr_Error result)))
      else Exit (println (label @ '': '' @ cr_Rcode result @ '' in '' @ itoa (cr_LatencyMS result) @ '' ms'')) None)"

definition empty_result :: "string option \<Rightarrow> check_result" where
  "empty_result name = \<lparr>cr_Upstream = name, cr_Success = False, cr_LatencyMS = 0, cr_Rcode = [], cr_Error = []\<rparr>"

definition ask :: "dns_lib \<Rightarrow> world \<Rightarrow> bool \<Rightarrow> duration \<Rightarrow> Upstream \<Rightarrow> Probe \<Rightarrow> string \<Rightarrow> string \<Rightarrow> string option \<Rightarrow> outcome" where
  "ask L w asJSON timeout u pr who label name =
     (case Exchange L (w_client w) timeout u (l_SetQuestion L (w_id w) (p_Name pr) (p_QType pr)) of
        XPanic \<Rightarrow> PanicExit
      | XResult response latency err \<Rightarrow>
          (case summarise L who (empty_result name) response latency err of
             None \<Rightarrow> PanicExit
           | Some result \<Rightarrow> report w asJSON label result))"

definition loopback :: "Config \<Rightarrow> Upstream" where
  "loopback cfg =
     \<lparr>u_Name = ''local-proxy'', u_Enabled = True, u_Priority = 1, u_Protocol = ''udp'',
      u_Address = c_ListenAddr cfg, u_Port = c_ListenPort cfg\<rparr>"

text \<open>\<open>cfg.Probes[0]\<close> panics on an empty list, which a loaded configuration never has.\<close>

definition selfTest :: "dns_lib \<Rightarrow> world \<Rightarrow> string list \<Rightarrow> outcome" where
  "selfTest L w args =
     with_flags (config_flags(''json'' \<mapsto> BoolFlag False)) args (\<lambda>fl rest.
     with_config w fl (\<lambda>cfg.
       case c_Probes cfg of
         [] \<Rightarrow> PanicExit
       | pr # _ \<Rightarrow>
           ask L w (flag_bool fl ''json'') (c_RequestTimeout cfg) (loopback cfg) pr ''proxy'' ''local proxy'' None))"

definition probeUpstream :: "dns_lib \<Rightarrow> world \<Rightarrow> string list \<Rightarrow> outcome" where
  "probeUpstream L w args =
     with_flags (config_flags(''json'' \<mapsto> BoolFlag False)) args (\<lambda>fl rest.
       case rest of
         [name] \<Rightarrow>
           with_config w fl (\<lambda>cfg.
             case find (\<lambda>u. u_Name u = name) (c_Upstreams cfg) of
               None \<Rightarrow> Exit [] (Some (UnknownUpstream name))
             | Some u \<Rightarrow>
                 (case c_Probes cfg of
                    [] \<Rightarrow> PanicExit
                  | pr # _ \<Rightarrow>
                      ask L w (flag_bool fl ''json'') (c_AttemptTimeout cfg) u pr ''upstream'' (u_Name u) (Some (u_Name u))))
       | _ \<Rightarrow> Exit [] (Some ProbeRequiresName))"

section \<open>The daemon\<close>

text \<open>
  \<open>dm_probing\<close> is the snapshot whose configuration and manager the running scheduler was built
  with. The daemon's log is not part of its state.
\<close>

record Daemon =
  dm_store :: Store
  dm_status :: StatusServer
  dm_probing :: nat

datatype reload_error = ReloadConfig config_error | ReloadRefused "reload_problem list"

fun reload_error_text :: "reload_error \<Rightarrow> string" where
  "reload_error_text (ReloadConfig e) = config_error_text e"
| "reload_error_text (ReloadRefused ps) = join [CHR 0x0A] (map reload_problem_text ps)"

text \<open>
  What the daemon receives: a stop signal, a reload signal (with the file system and the clock as
  they are then), or the end of one of its servers. In between, requests and probes work on
  the managers of the snapshots (\<open>Traffic\<close>).
\<close>

datatype daemon_event =
    StopSignal
  | ReloadSignal filesystem time
  | ServerEnded "string option" bool
  | Traffic nat "mgr_event list"

definition start_daemon :: "string \<Rightarrow> string \<Rightarrow> filesystem \<Rightarrow> time \<Rightarrow> config_error + Daemon" where
  "start_daemon version path fs now =
     (case Load fs path of
        Inl e \<Rightarrow> Inl e
      | Inr cfg \<Rightarrow>
          let manager = NewManager (c_Upstreams cfg) (c_FailThreshold cfg) (c_RecoverThreshold cfg) True in
          Inr \<lparr>dm_store = NewStore cfg manager,
               dm_status = NewStatus (c_StatusSocket cfg) version now,
               dm_probing = 0\<rparr>)"

definition reload_config :: "string \<Rightarrow> filesystem \<Rightarrow> Store \<Rightarrow> reload_error + Config" where
  "reload_config path fs s =
     (case Load fs path of
        Inl e \<Rightarrow> Inl (ReloadConfig e)
      | Inr next \<Rightarrow>
          (case ValidateReload (r_Config (LoadRuntime s)) next of
             [] \<Rightarrow> Inr next
           | problems \<Rightarrow> Inl (ReloadRefused problems)))"

definition reload :: "string \<Rightarrow> filesystem \<Rightarrow> time \<Rightarrow> Daemon \<Rightarrow> Daemon" where
  "reload path fs now d =
     (case reload_config path fs (dm_store d) of
        Inl e \<Rightarrow> d\<lparr>dm_store := RecordReloadError (reload_error_text e) now (dm_store d)\<rparr>
      | Inr next \<Rightarrow>
          let previous = Snapshots (r_Manager (LoadRuntime (dm_store d)));
              nextManager = NewManagerFromSnapshots (c_Upstreams next) (c_FailThreshold next)
                (c_RecoverThreshold next) True previous;
              store = Update next nextManager now (dm_store d)
          in d\<lparr>dm_store := store, dm_probing := st_current store\<rparr>)"

definition traffic :: "nat \<Rightarrow> mgr_event list \<Rightarrow> Store \<Rightarrow> Store" where
  "traffic i evs s =
     s\<lparr>st_heap := (st_heap s)[i := (st_heap s ! i)\<lparr>r_Manager := mgr_run evs (r_Manager (st_heap s ! i))\<rparr>]\<rparr>"

text \<open>One turn of the event loop: the daemon after it, and the error it returns when it returns.\<close>

fun daemon_step ::
  "string \<Rightarrow> daemon_event \<Rightarrow> Daemon \<Rightarrow> Daemon \<times> main_error option option" where
  "daemon_step path StopSignal d = (d, Some None)"
| "daemon_step path (ReloadSignal fs now) d = (reload path fs now d, None)"
| "daemon_step path (ServerEnded err canceled) d =
     (d, Some (case err of None \<Rightarrow> None | Some e \<Rightarrow> if canceled then None else Some (ServerFailed e)))"
| "daemon_step path (Traffic i evs) d = (d\<lparr>dm_store := traffic i evs (dm_store d)\<rparr>, None)"

fun daemon_loop ::
  "string \<Rightarrow> daemon_event list \<Rightarrow> Daemon \<Rightarrow> Daemon \<times> main_error option option" where
  "daemon_loop path [] d = (d, None)"
| "daemon_loop path (ev # evs) d =
     (case daemon_step path ev d of
        (d', Some r) \<Rightarrow> (d', Some r)
      | (d', None) \<Rightarrow> daemon_loop path evs d')"

text \<open>\<^const>\<open>None\<close> is a daemon that is still running after the events.\<close>

definition runDaemon ::
  "string \<Rightarrow> world \<Rightarrow> time \<Rightarrow> daemon_event list \<Rightarrow> string list \<Rightarrow> outcome option" where
  "runDaemon version w now evs args =
     (case parse_flags (config_flags(''debug'' \<mapsto> BoolFlag False)) args of
        Inl e \<Rightarrow> Some (Exit [] (Some (FlagFailed e)))
      | Inr (fl, rest) \<Rightarrow>
          (case start_daemon version (flag_string fl ''config'') (w_fs w) now of
             Inl e \<Rightarrow> Some (Exit [] (Some (ConfigFailed e)))
           | Inr d \<Rightarrow> map_option (Exit []) (snd (daemon_loop (flag_string fl ''config'') evs d))))"

definition run_main ::
  "dns_lib \<Rightarrow> string \<Rightarrow> world \<Rightarrow> time \<Rightarrow> daemon_event list \<Rightarrow> string list \<Rightarrow> outcome option" where
  "run_main L version w now evs args =
     (case args of
        [] \<Rightarrow> Some (Exit [] (Some Usage))
      | cmd # rest \<Rightarrow>
          if cmd = ''run'' then runDaemon version w now evs rest
          else if cmd = ''check-config'' then Some (checkConfig w rest)
          else if cmd = ''status'' then Some (showStatus w rest)
          else if cmd = ''probe'' then Some (probeUpstream L w rest)
          else if cmd = ''self-test'' then Some (selfTest L w rest)
          else if cmd = ''version'' then Some (Exit (println version) None)
          else Some (Exit [] (Some Usage)))"

text \<open>The texts of the errors; \<open>jsonText\<close> is what the JSON decoder says of a bad text.\<close>

fun read_error_text :: "(json_error \<Rightarrow> string) \<Rightarrow> read_error \<Rightarrow> string" where
  "read_error_text jsonText (ConnectStatus e) = ''connect status socket: '' @ e"
| "read_error_text jsonText (ReadStatus e) = ''read status: '' @ jsonText e"
| "read_error_text jsonText (ReadConnection e) = ''read status: '' @ e"

fun main_error_text :: "(json_error \<Rightarrow> string) \<Rightarrow> string \<Rightarrow> main_error \<Rightarrow> string" where
  "main_error_text jsonText encodeText Usage =
     ''usage: failsafe-dns-proxy {run|check-config|status|probe|self-test|version}''"
| "main_error_text jsonText encodeText (FlagFailed e) = flag_error_text e"
| "main_error_text jsonText encodeText (ConfigFailed e) = config_error_text e"
| "main_error_text jsonText encodeText (StatusFailed e) = read_error_text jsonText e"
| "main_error_text jsonText encodeText ProbeRequiresName = ''probe requires one upstream name''"
| "main_error_text jsonText encodeText (UnknownUpstream name) = ''unknown upstream '' @ go_quote name"
| "main_error_text jsonText encodeText (CheckFailed e) = e"
| "main_error_text jsonText encodeText EncodeFailed = encodeText"
| "main_error_text jsonText encodeText (StdoutFailed e) = e"
| "main_error_text jsonText encodeText (ServerFailed e) = e"

text \<open>
  \<open>main\<close>: what it writes to the standard error and the exit status of the process; a Go panic exits
  with 2. The usage text that the flag package prints on its own is left out.
\<close>

fun main_stderr :: "(json_error \<Rightarrow> string) \<Rightarrow> string \<Rightarrow> outcome \<Rightarrow> string" where
  "main_stderr jsonText encodeText (Exit out (Some e)) =
     println (''failsafe-dns-proxy: '' @ main_error_text jsonText encodeText e)"
| "main_stderr jsonText encodeText _ = []"

fun exit_status :: "outcome \<Rightarrow> nat" where
  "exit_status (Exit out None) = 0"
| "exit_status (Exit out (Some e)) = 1"
| "exit_status PanicExit = 2"

section \<open>Every published snapshot is consistent\<close>

text \<open>
  A snapshot is consistent when its manager was built for its own configuration: same upstreams,
  same thresholds, and the limit has the configured size.
\<close>

definition runtime_ok :: "Runtime \<Rightarrow> bool" where
  "runtime_ok rt \<longleftrightarrow> valid_config (r_Config rt) \<and> machine_config (r_Config rt) \<and>
     mgr_inv max_int64 max_int64 (r_Manager rt) \<and>
     map e_config (m_heap (r_Manager rt)) = c_Upstreams (r_Config rt) \<and>
     m_failThreshold (r_Manager rt) = c_FailThreshold (r_Config rt) \<and>
     m_recoverThreshold (r_Manager rt) = c_RecoverThreshold (r_Config rt) \<and>
     m_logger (r_Manager rt) \<and> ch_cap (r_Limit rt) = nat (c_MaxConcurrent (r_Config rt))"

definition same_listener :: "Config \<Rightarrow> Config \<Rightarrow> bool" where
  "same_listener a b \<longleftrightarrow> c_ListenAddr b = c_ListenAddr a \<and> c_ListenPort b = c_ListenPort a \<and>
     c_StatusSocket b = c_StatusSocket a"

definition daemon_ok :: "Config \<Rightarrow> Daemon \<Rightarrow> bool" where
  "daemon_ok base d \<longleftrightarrow> store_ok (dm_store d) \<and> dm_probing d = st_current (dm_store d) \<and>
     (\<forall>rt \<in> set (st_heap (dm_store d)). runtime_ok rt \<and> same_listener base (r_Config rt))"

lemma loaded_config:
  assumes "Load fs path = Inr cfg"
  shows "valid_config cfg" "machine_config cfg" "distinct (map u_Name (c_Upstreams cfg))"
    "c_FailThreshold cfg \<le> max_int64" "c_RecoverThreshold cfg \<le> max_int64"
  using Load_valid_config [OF assms] Load_machine [OF assms]
  by (auto simp: valid_config_def machine_config_def in_int64_def)

lemma runtime_ok_start:
  assumes "Load fs path = Inr cfg"
  shows "runtime_ok (newSnapshot cfg (NewManager (c_Upstreams cfg) (c_FailThreshold cfg) (c_RecoverThreshold cfg) True))"
  using loaded_config [OF assms] mgr_inv_mono [OF NewManager_inv, of "c_Upstreams cfg" "c_FailThreshold cfg" "c_RecoverThreshold cfg" True]
    e_config_new [of "c_Upstreams cfg"]
  by (simp add: runtime_ok_def del: NewManager_frame(1))

lemma runtime_ok_reload:
  assumes "Load fs path = Inr cfg" and "\<forall>s \<in> set prev. snap_ok max_int64 max_int64 s"
  shows "runtime_ok (newSnapshot cfg
    (NewManagerFromSnapshots (c_Upstreams cfg) (c_FailThreshold cfg) (c_RecoverThreshold cfg) True prev))"
  using loaded_config [OF assms(1)] reloaded_inv [OF _ _ _ assms(2)]
  by (simp add: runtime_ok_def e_config_reloaded)

lemma runtime_ok_traffic: "runtime_ok rt \<Longrightarrow> runtime_ok (rt\<lparr>r_Manager := mgr_run evs (r_Manager rt)\<rparr>)"
  by (simp add: runtime_ok_def mgr_run_inv)

lemma current_in_heap: "store_ok s \<Longrightarrow> LoadRuntime s \<in> set (st_heap s)"
  by (simp add: store_ok_def LoadRuntime_def)

lemma reload_ok:
  assumes "daemon_ok base d"
  shows "daemon_ok base (reload path fs now d)"
proof (cases "reload_config path fs (dm_store d)")
  case (Inl e)
  with assms show ?thesis by (simp add: reload_def daemon_ok_def)
next
  case (Inr cfg)
  let ?rt = "LoadRuntime (dm_store d)"
  from Inr have l: "Load fs path = Inr cfg" and v: "ValidateReload (r_Config ?rt) cfg = []"
    by (auto simp: reload_config_def split: sum.splits list.splits)
  have cur: "runtime_ok ?rt" "same_listener base (r_Config ?rt)"
    using assms current_in_heap by (auto simp: daemon_ok_def)
  have "same_listener base cfg" using cur(2) v by (auto simp: same_listener_def ValidateReload_def split: if_splits)
  moreover have "\<forall>s \<in> set (Snapshots (r_Manager ?rt)). snap_ok max_int64 max_int64 s"
    using cur(1) by (intro mgr_inv_snapshots) (simp add: runtime_ok_def)
  note runtime_ok_reload [OF l this]
  ultimately show ?thesis
    using assms Inr by (auto simp: reload_def daemon_ok_def Let_def Update_def store_ok_def)
qed

lemma traffic_ok:
  assumes "daemon_ok base d"
  shows "daemon_ok base (d\<lparr>dm_store := traffic i evs (dm_store d)\<rparr>)"
proof (cases "i < length (st_heap (dm_store d))")
  case True
  then have "runtime_ok (st_heap (dm_store d) ! i)" "same_listener base (r_Config (st_heap (dm_store d) ! i))"
    using assms by (simp_all add: daemon_ok_def)
  with assms runtime_ok_traffic show ?thesis
    by (auto simp: daemon_ok_def traffic_def store_ok_def dest!: set_update_subset_insert [THEN subsetD])
next
  case False
  with assms show ?thesis by (simp add: daemon_ok_def traffic_def store_ok_def list_update_beyond)
qed

lemma daemon_step_ok: "daemon_ok base d \<Longrightarrow> daemon_ok base (fst (daemon_step path ev d))"
  by (cases ev) (auto simp: reload_ok traffic_ok)

interpretation daemon: guarded_machine "\<lambda>ev d. fst (daemon_step path ev d)" "daemon_ok base" for path base
  by unfold_locales (rule daemon_step_ok)

lemma daemon_loop_prefix:
  "\<exists>evs'. fst (daemon_loop path evs d) = fold (\<lambda>ev d. fst (daemon_step path ev d)) evs' d"
proof (induction evs arbitrary: d)
  case Nil
  show ?case by (rule exI [of _ "[]"]) simp
next
  case (Cons ev evs)
  obtain d' r where s: "daemon_step path ev d = (d', r)" by fastforce
  show ?case
  proof (cases r)
    case None
    obtain evs' where "fst (daemon_loop path evs d') = fold (\<lambda>ev d. fst (daemon_step path ev d)) evs' d'"
      using Cons.IH by blast
    with s None show ?thesis by (intro exI [of _ "ev # evs'"]) simp
  next
    case (Some x)
    with s show ?thesis by (intro exI [of _ "[ev]"]) simp
  qed
qed

lemma start_daemon_ok:
  assumes "start_daemon version path fs now = Inr d"
  obtains cfg where "Load fs path = Inr cfg" and "daemon_ok cfg d"
proof -
  from assms obtain cfg where l: "Load fs path = Inr cfg" by (auto simp: start_daemon_def split: sum.splits)
  with assms runtime_ok_start [OF l] have "daemon_ok cfg d"
    by (auto simp: start_daemon_def daemon_ok_def Let_def) (simp_all add: NewStore_def same_listener_def)
  with l that show ?thesis by blast
qed

text \<open>
  C8: no request ever sees a mixed configuration. After any sequence of reloads (accepted or
  rejected) and any traffic in between, every snapshot that was ever published is consistent
  (valid configuration, a well-formed manager for exactly its upstreams and thresholds, a
  limit of its size), all of them have the listen address, port and status socket the daemon
  started with, and the scheduler probes the upstreams of the current snapshot.
\<close>

theorem daemon_snapshots_consistent:
  assumes "start_daemon version path fs now = Inr d0" and "Load fs path = Inr cfg0"
    and "daemon_loop path evs d0 = (d, r)"
  shows "(\<forall>rt \<in> set (st_heap (dm_store d)). runtime_ok rt \<and> same_listener cfg0 (r_Config rt)) \<and>
    LoadRuntime (dm_store d) \<in> set (st_heap (dm_store d)) \<and> dm_probing d = st_current (dm_store d)"
proof -
  obtain evs' where "d = fold (\<lambda>ev d. fst (daemon_step path ev d)) evs' d0"
    using daemon_loop_prefix [of path evs d0] assms(3) by auto
  moreover have "daemon_ok cfg0 d0" using start_daemon_ok [OF assms(1)] assms(2) by auto
  ultimately have "daemon_ok cfg0 d" using daemon.run_inv by blast
  then show ?thesis by (auto simp: daemon_ok_def current_in_heap)
qed

section \<open>Reload\<close>

text \<open>
  The event loop takes the snapshots of the current manager some time before it publishes the next
  one, and requests and probes go on in between. What they record goes to the old manager
  only: it is the same as if they had recorded it right after the reload, which is therefore one
  event of \<^const>\<open>daemon_step\<close>. What they record while the entries are read one by one is split the
  same way: what an entry had seen when it was read comes before the reload, the rest after it
  (\<open>entrywise_snapshots\<close>, \<open>entrywise_rest\<close>).
\<close>

lemma evidence_during_reload:
  assumes "store_ok s"
  shows "Update cfg m now (traffic (st_current s) evs s) = traffic (st_current s) evs (Update cfg m now s)"
    and "LoadRuntime (Update cfg m now (traffic (st_current s) evs s)) = newSnapshot cfg m"
  using assms by (simp_all add: traffic_def Update_def store_ok_def list_update_append nth_append LoadRuntime_def)

text \<open>Every error of a reload has a text, so the status document never leaves it out as empty.\<close>

lemma problem_text_not_Nil [simp]: "problem_text p \<noteq> []"
  by (cases p) simp_all

lemma join_not_Nil: "x \<noteq> [] \<Longrightarrow> join sep (x # xs) \<noteq> []"
  by (cases xs) auto

lemma option_error_text_not_Nil [simp]: "option_error_text e \<noteq> []"
  by (cases e) simp_all

lemma config_error_text_not_Nil: "e \<noteq> InvalidConfig [] \<Longrightarrow> config_error_text e \<noteq> []"
proof (cases e)
  case (InvalidConfig ps)
  then show "e \<noteq> InvalidConfig [] \<Longrightarrow> config_error_text e \<noteq> []" by (cases ps) (auto simp: join_not_Nil)
qed auto

lemma wrap_option_error: "wrap_err f (r :: option_error + 'a) = Inl e \<Longrightarrow> \<exists>x. e = f x"
  by (cases r) auto

lemma bind_err_InlE:
  assumes "bind_err r f = Inl e"
  obtains "r = Inl e" | x where "r = Inr x" and "f x = Inl e"
  using assms by (cases r) auto

lemma parse_lines_error: "parse_lines n secs ls = Inl e \<Longrightarrow> e \<noteq> InvalidConfig []"
proof (induction n secs ls rule: parse_lines.induct)
  case (2 n secs l ls)
  then show ?case
    by (auto simp: Let_def directive_def split: if_splits sum.splits)
qed simp

lemma applyProbes_error: "applyProbes ps raws = Inl e \<Longrightarrow> e \<noteq> InvalidConfig []"
  by (induction ps raws rule: applyProbes.induct) (auto split: sum.splits)

lemma apply_sections_error: "apply_sections m cfg ss = Inl e \<Longrightarrow> e \<noteq> InvalidConfig []"
proof (induction m cfg ss rule: apply_sections.induct)
  case (2 m cfg s ss)
  have main: "applyMain cfg s = Inl e' \<Longrightarrow> e' \<noteq> InvalidConfig []" for e'
    by (auto simp: applyMain_def Let_def elim!: bind_err_InlE dest: wrap_option_error applyProbes_error)
  have up: "parseUpstream s = Inl e' \<Longrightarrow> e' \<noteq> InvalidConfig []" for e'
    by (auto simp: parseUpstream_def split: if_splits elim!: bind_err_InlE dest: wrap_option_error)
  from 2 main up show ?case by (auto split: if_splits sum.splits)
qed (auto split: if_splits)

lemma Load_error_text: "Load fs path = Inl e \<Longrightarrow> config_error_text e \<noteq> []"
  by (intro config_error_text_not_Nil)
    (auto simp: Load_def Parse_def Let_def split: sum.splits prod.splits option.splits if_splits list.splits
      elim!: bind_err_InlE dest: parse_lines_error apply_sections_error)

lemma reload_problem_text_not_Nil [simp]: "reload_problem_text p \<noteq> []"
  by (cases p) simp_all

lemma reload_error_shown:
  assumes "reload_config path fs s = Inl e"
  shows "reload_error_text e \<noteq> []"
  using assms Load_error_text
  by (auto simp: reload_config_def join_not_Nil split: sum.splits list.splits)

text \<open>
  C21: a bad configuration never takes the service down. If the file cannot be loaded, or changes
  the listen address, the port or the status socket, the daemon goes on with exactly the
  snapshots, the scheduler and the reload count it had, and the reload status holds the text of
  the error, which is never empty (an empty one would be left out of the status document).
\<close>

theorem rejected_reload_keeps_serving:
  assumes "(\<exists>e. Load fs path = Inl e) \<or>
    (\<exists>next. Load fs path = Inr next \<and> \<not> same_listener (r_Config (LoadRuntime (dm_store d))) next)"
  shows "\<exists>e. reload_config path fs (dm_store d) = Inl e \<and> reload_error_text e \<noteq> [] \<and>
    daemon_step path (ReloadSignal fs now) d =
      (d\<lparr>dm_store := (dm_store d)\<lparr>st_lastAt := now, st_lastErr := reload_error_text e\<rparr>\<rparr>, None) \<and>
    LoadRuntime (dm_store (fst (daemon_step path (ReloadSignal fs now) d))) = LoadRuntime (dm_store d)"
proof -
  from assms obtain e where "reload_config path fs (dm_store d) = Inl e"
    using ValidateReload_iff [of "r_Config (LoadRuntime (dm_store d))"]
    by (fastforce simp: reload_config_def same_listener_def split: list.split)
  with reload_error_shown [OF this] show ?thesis by (auto simp: reload_def RecordReloadError_def LoadRuntime_def)
qed

lemma reload_accepted:
  assumes "Load fs path = Inr cfg" and "same_listener (r_Config (LoadRuntime (dm_store d))) cfg"
  shows "reload_config path fs (dm_store d) = Inr cfg"
  using assms by (simp add: reload_config_def ValidateReload_def same_listener_def)

lemma Snapshots_distinct:
  assumes "mgr_inv B C m"
  shows "distinct (map s_Name (Snapshots m))"
proof -
  have "inj_on (\<lambda>p. u_Name (cfg_at m p)) (set (m_entries m))"
    using assms by (auto simp: mgr_inv_def mgr_shape_def inj_on_def) (metis option.inject)
  then show ?thesis
    using assms unfolding Snapshots_names [OF assms] by (simp add: mgr_inv_def mgr_shape_def distinct_map)
qed

lemma carried_state:
  assumes "distinct (map u_Name us)" and "distinct (map s_Name prev)" and "u \<in> set us" and "s \<in> set prev"
    and "s_Name s = u_Name u" and "s_Endpoint s = Endpoint u" and "s_Protocol s = u_Protocol u"
  shows "StateOf (NewManagerFromSnapshots us ft rt lg prev) (u_Name u) = s_State s"
proof -
  from assms(3) obtain p where p: "p < length us" "us ! p = u" by (auto simp: in_set_conv_nth)
  have "m_byName (NewManagerFromSnapshots us ft rt lg prev) (u_Name u) = Some p"
    using p by (simp add: NewManager_byName assms(1))
  then show ?thesis
    using index_snapshots_distinct [OF assms(2,4)] assms(5-7) p
    by (simp add: StateOf_def reloaded_at(2) carried_def new_entry_def)
qed

text \<open>
  C22: an accepted reload changes the configuration and keeps the health. The new snapshot has the
  loaded configuration and an unused limit of its size, the scheduler works on it, the reload
  is counted, and every upstream that keeps its name, endpoint and protocol keeps its state,
  so a reload neither revives an upstream that is down nor distrusts a healthy one.
\<close>

theorem accepted_reload_keeps_health:
  assumes "daemon_ok base d" and "Load fs path = Inr cfg"
    and "same_listener (r_Config (LoadRuntime (dm_store d))) cfg" and "Suc (st_count (dm_store d)) < 2 ^ 64"
    and "d' = fst (daemon_step path (ReloadSignal fs now) d)"
  shows "r_Config (LoadRuntime (dm_store d')) = cfg \<and> ch_len (r_Limit (LoadRuntime (dm_store d'))) = 0 \<and>
    dm_probing d' = st_current (dm_store d') \<and>
    ReloadStatusOf (dm_store d') = \<lparr>rs_Count = Suc (st_count (dm_store d)), rs_LastAt = now, rs_LastError = []\<rparr> \<and>
    (\<forall>u \<in> set (c_Upstreams cfg). \<forall>s \<in> set (Snapshots (r_Manager (LoadRuntime (dm_store d)))).
       s_Name s = u_Name u \<and> s_Endpoint s = Endpoint u \<and> s_Protocol s = u_Protocol u \<longrightarrow>
       StateOf (r_Manager (LoadRuntime (dm_store d'))) (u_Name u) = s_State s)"
proof -
  let ?m = "r_Manager (LoadRuntime (dm_store d))"
  let ?m' = "NewManagerFromSnapshots (c_Upstreams cfg) (c_FailThreshold cfg) (c_RecoverThreshold cfg) True (Snapshots ?m)"
  have d': "dm_store d' = Update cfg ?m' now (dm_store d)" "dm_probing d' = st_current (Update cfg ?m' now (dm_store d))"
    using assms(5) reload_accepted [OF assms(2,3)] by (simp_all add: reload_def Let_def)
  have "mgr_inv max_int64 max_int64 ?m"
    using assms(1) current_in_heap by (auto simp: daemon_ok_def runtime_ok_def)
  then have dist: "distinct (map s_Name (Snapshots ?m))" by (rule Snapshots_distinct)
  have "StateOf ?m' (u_Name u) = s_State s"
    if "u \<in> set (c_Upstreams cfg)" "s \<in> set (Snapshots ?m)"
      "s_Name s = u_Name u" "s_Endpoint s = Endpoint u" "s_Protocol s = u_Protocol u" for u s
    using carried_state [OF loaded_config(3) [OF assms(2)] dist that] .
  then show ?thesis using d' assms(4) by (auto simp: ReloadStatusOf_def Update_def LoadRuntime_def)
qed

section \<open>The commands\<close>

lemma ask_verdict:
  assumes "client_ok (w_client w)" and "q = l_SetQuestion L (w_id w) (p_Name pr) (p_QType pr)"
  shows "exit_status (ask L w False timeout u pr who label name) =
    (if answers L (Exchange L (w_client w) timeout u q) then 0 else 1)"
proof -
  obtain response lat err where x: "Exchange L (w_client w) timeout u q = XResult response lat err"
    using Exchange_no_panic [OF assms(1)] by (cases "Exchange L (w_client w) timeout u q") auto
  from Exchange_cases [OF x] show ?thesis
    unfolding ask_def assms(2) [symmetric] x
    by (auto simp: summarise_def Let_def report_def empty_result_def answers_def)
qed

text \<open>With \<open>-json\<close> the verdict is in the text, and the exit status tells whether it could be written.\<close>

lemma ask_json:
  assumes "client_ok (w_client w)" and "q = l_SetQuestion L (w_id w) (p_Name pr) (p_QType pr)"
  shows "\<exists>r. ask L w True timeout u pr who label name =
      Exit (println (compact_json (result_json r))) (map_option StdoutFailed (w_stdout w)) \<and>
    (cr_Success r \<longleftrightarrow> answers L (Exchange L (w_client w) timeout u q))"
proof -
  obtain response lat err where x: "Exchange L (w_client w) timeout u q = XResult response lat err"
    using Exchange_no_panic [OF assms(1)] by (cases "Exchange L (w_client w) timeout u q") auto
  obtain r where r: "summarise L who (empty_result name) response lat err = Some r"
    and ok: "cr_Success r \<longleftrightarrow> answers L (XResult response lat err)"
    using Exchange_cases [OF x] by (cases err) (auto simp: summarise_def Let_def empty_result_def answers_def)
  show ?thesis
    unfolding ask_def assms(2) [symmetric] x by (rule exI [of _ r]) (simp add: r ok report_def encode_stdout_def)
qed

text \<open>
  C36: the verdicts of the diagnostic commands, for the default configuration file. If it does not load,
  they all fail with its error, with \<open>-json\<close> or without. If it loads, \<open>check-config\<close> succeeds. Without
  \<open>-json\<close> the exit status is the verdict: \<open>probe\<close> exits with 0 exactly when the named upstream exists and
  gives a valid reply to the first probe question that is neither SERVFAIL nor REFUSED, and
  \<open>self-test\<close> exactly when the proxy's own address does. With \<open>-json\<close> the same verdict is the
  \<open>success\<close> field of the text, and the commands exit with 0 even when it is negative, unless
  the upstream is unknown or the text cannot be written.
\<close>

theorem command_verdicts:
  assumes "client_ok (w_client w)" and "length name < 2 \<or> hd name \<noteq> CHR ''-''"
  shows "(\<forall>e. Load (w_fs w) DefaultPath = Inl e \<longrightarrow>
      checkConfig w [] = Exit [] (Some (ConfigFailed e)) \<and> selfTest L w [] = Exit [] (Some (ConfigFailed e)) \<and>
      probeUpstream L w [name] = Exit [] (Some (ConfigFailed e)) \<and>
      selfTest L w [''-json''] = Exit [] (Some (ConfigFailed e)) \<and>
      probeUpstream L w [''-json'', name] = Exit [] (Some (ConfigFailed e))) \<and>
    (\<forall>cfg. Load (w_fs w) DefaultPath = Inr cfg \<longrightarrow>
      (let q = l_SetQuestion L (w_id w) (p_Name (hd (c_Probes cfg))) (p_QType (hd (c_Probes cfg)));
           proxy_ok = answers L (Exchange L (w_client w) (c_RequestTimeout cfg) (loopback cfg) q);
           upstream_ok = (\<lambda>u. answers L (Exchange L (w_client w) (c_AttemptTimeout cfg) u q)) in
       exit_status (checkConfig w []) = 0 \<and>
       (exit_status (selfTest L w []) = 0 \<longleftrightarrow> proxy_ok) \<and>
       (exit_status (probeUpstream L w [name]) = 0 \<longleftrightarrow>
          (\<exists>u \<in> set (c_Upstreams cfg). u_Name u = name \<and> upstream_ok u)) \<and>
       (\<exists>r. selfTest L w [''-json''] = Exit (println (compact_json (result_json r))) (map_option StdoutFailed (w_stdout w)) \<and>
          (cr_Success r \<longleftrightarrow> proxy_ok)) \<and>
       (if \<exists>u \<in> set (c_Upstreams cfg). u_Name u = name then
          \<exists>r. probeUpstream L w [''-json'', name] =
              Exit (println (compact_json (result_json r))) (map_option StdoutFailed (w_stdout w)) \<and>
            (cr_Success r \<longleftrightarrow> (\<exists>u \<in> set (c_Upstreams cfg). u_Name u = name \<and> upstream_ok u))
        else probeUpstream L w [''-json'', name] = Exit [] (Some (UnknownUpstream name)))))"
proof -
  have fl: "flag_string config_flags ''config'' = DefaultPath" "flag_bool (config_flags(''json'' \<mapsto> BoolFlag False)) ''json'' = False"
    "flag_string (config_flags(''json'' \<mapsto> BoolFlag False)) ''config'' = DefaultPath"
    "flag_bool (config_flags(''json'' \<mapsto> BoolFlag True)) ''json''"
    "flag_string (config_flags(''json'' \<mapsto> BoolFlag True)) ''config'' = DefaultPath"
    by (simp_all add: config_flags_def flag_string_def flag_bool_def)
  have json: "parse_flags (config_flags(''json'' \<mapsto> BoolFlag False)) [''-json''] = Inr (config_flags(''json'' \<mapsto> BoolFlag True), [])"
    "parse_flags (config_flags(''json'' \<mapsto> BoolFlag False)) [''-json'', name] = Inr (config_flags(''json'' \<mapsto> BoolFlag True), [name])"
    using parse_flags_bool [of "config_flags(''json'' \<mapsto> BoolFlag False)" "''json''" False "[]"]
      parse_flags_bool [of "config_flags(''json'' \<mapsto> BoolFlag False)" "''json''" False "[name]"] assms(2)
    by simp_all
  have bad: "checkConfig w [] = Exit [] (Some (ConfigFailed e)) \<and> selfTest L w [] = Exit [] (Some (ConfigFailed e)) \<and>
      probeUpstream L w [name] = Exit [] (Some (ConfigFailed e)) \<and>
      selfTest L w [''-json''] = Exit [] (Some (ConfigFailed e)) \<and>
      probeUpstream L w [''-json'', name] = Exit [] (Some (ConfigFailed e))" if "Load (w_fs w) DefaultPath = Inl e" for e
    using that assms(2) by (simp add: checkConfig_def selfTest_def probeUpstream_def with_flags_def with_config_def fl json)
  have good: "(let q = l_SetQuestion L (w_id w) (p_Name (hd (c_Probes cfg))) (p_QType (hd (c_Probes cfg)));
           proxy_ok = answers L (Exchange L (w_client w) (c_RequestTimeout cfg) (loopback cfg) q);
           upstream_ok = (\<lambda>u. answers L (Exchange L (w_client w) (c_AttemptTimeout cfg) u q)) in
       exit_status (checkConfig w []) = 0 \<and>
       (exit_status (selfTest L w []) = 0 \<longleftrightarrow> proxy_ok) \<and>
       (exit_status (probeUpstream L w [name]) = 0 \<longleftrightarrow>
          (\<exists>u \<in> set (c_Upstreams cfg). u_Name u = name \<and> upstream_ok u)) \<and>
       (\<exists>r. selfTest L w [''-json''] = Exit (println (compact_json (result_json r))) (map_option StdoutFailed (w_stdout w)) \<and>
          (cr_Success r \<longleftrightarrow> proxy_ok)) \<and>
       (if \<exists>u \<in> set (c_Upstreams cfg). u_Name u = name then
          \<exists>r. probeUpstream L w [''-json'', name] =
              Exit (println (compact_json (result_json r))) (map_option StdoutFailed (w_stdout w)) \<and>
            (cr_Success r \<longleftrightarrow> (\<exists>u \<in> set (c_Upstreams cfg). u_Name u = name \<and> upstream_ok u))
        else probeUpstream L w [''-json'', name] = Exit [] (Some (UnknownUpstream name))))"
    if l: "Load (w_fs w) DefaultPath = Inr cfg" for cfg
  proof -
    from loaded_config(1) [OF l] obtain pr prs where pr: "c_Probes cfg = pr # prs"
      by (cases "c_Probes cfg") (auto simp: valid_config_def)
    let ?q = "l_SetQuestion L (w_id w) (p_Name pr) (p_QType pr)"
    note v = ask_verdict [OF assms(1) refl] and j = ask_json [OF assms(1) refl]
    have "exit_status (checkConfig w []) = 0"
      using l by (simp add: checkConfig_def with_flags_def with_config_def fl)
    moreover have "exit_status (selfTest L w []) = 0 \<longleftrightarrow>
        answers L (Exchange L (w_client w) (c_RequestTimeout cfg) (loopback cfg) ?q)"
      using l v by (simp add: selfTest_def with_flags_def with_config_def fl pr)
    moreover have "\<exists>r. selfTest L w [''-json''] =
        Exit (println (compact_json (result_json r))) (map_option StdoutFailed (w_stdout w)) \<and>
        (cr_Success r \<longleftrightarrow> answers L (Exchange L (w_client w) (c_RequestTimeout cfg) (loopback cfg) ?q))"
      using l j by (simp add: selfTest_def with_flags_def with_config_def fl json pr)
    moreover have "(exit_status (probeUpstream L w [name]) = 0 \<longleftrightarrow>
        (\<exists>u \<in> set (c_Upstreams cfg). u_Name u = name \<and> answers L (Exchange L (w_client w) (c_AttemptTimeout cfg) u ?q))) \<and>
      (if \<exists>u \<in> set (c_Upstreams cfg). u_Name u = name then
         \<exists>r. probeUpstream L w [''-json'', name] =
             Exit (println (compact_json (result_json r))) (map_option StdoutFailed (w_stdout w)) \<and>
           (cr_Success r \<longleftrightarrow> (\<exists>u \<in> set (c_Upstreams cfg). u_Name u = name \<and>
              answers L (Exchange L (w_client w) (c_AttemptTimeout cfg) u ?q)))
       else probeUpstream L w [''-json'', name] = Exit [] (Some (UnknownUpstream name)))"
    proof (cases "find (\<lambda>u. u_Name u = name) (c_Upstreams cfg)")
      case None
      then have "\<not> (\<exists>u \<in> set (c_Upstreams cfg). u_Name u = name)" by (auto simp: find_None_iff)
      moreover have "exit_status (probeUpstream L w [name]) \<noteq> 0"
        "probeUpstream L w [''-json'', name] = Exit [] (Some (UnknownUpstream name))"
        using l assms(2) None by (simp_all add: probeUpstream_def with_flags_def with_config_def fl json)
      ultimately show ?thesis by auto
    next
      case (Some u)
      then have u: "u \<in> set (c_Upstreams cfg)" "u_Name u = name" by (auto simp: find_Some_iff)
      then have uniq: "u' = u" if "u' \<in> set (c_Upstreams cfg)" "u_Name u' = name" for u'
        using that loaded_config(3) [OF l] by (simp add: distinct_map inj_on_def)
      let ?ok = "answers L (Exchange L (w_client w) (c_AttemptTimeout cfg) u ?q)"
      have ok: "(\<exists>u' \<in> set (c_Upstreams cfg). u_Name u' = name \<and>
          answers L (Exchange L (w_client w) (c_AttemptTimeout cfg) u' ?q)) \<longleftrightarrow> ?ok"
        using u uniq by metis
      have "\<exists>u \<in> set (c_Upstreams cfg). u_Name u = name" using u by blast
      moreover have "exit_status (probeUpstream L w [name]) = 0 \<longleftrightarrow> ?ok"
        using l assms(2) Some v by (simp add: probeUpstream_def with_flags_def with_config_def fl pr)
      moreover have "\<exists>r. probeUpstream L w [''-json'', name] =
          Exit (println (compact_json (result_json r))) (map_option StdoutFailed (w_stdout w)) \<and> (cr_Success r \<longleftrightarrow> ?ok)"
        using l Some j by (simp add: probeUpstream_def with_flags_def with_config_def fl json pr)
      ultimately show ?thesis by (simp only: ok) simp
    qed
    ultimately show ?thesis by (simp add: pr)
  qed
  show ?thesis using bad good by blast
qed

text \<open>
  C17: \<open>status\<close> shows what the server wrote. When the daemon's document arrives whole, the command
  prints its active upstream and one line per upstream, in order; with \<open>-json\<close> it prints a JSON text
  that, up to the limit of one mebibyte, is read as the same document again.
\<close>

theorem status_command_shows_document:
  assumes "w_dial w ''/var/run/failsafe-dns-proxy.sock'' = Inr (write_status doc, failed)"
    and "write_status doc \<noteq> []" and "length (write_status doc) \<le> Suc (2 ^ 20)"
    and "document_ok doc"
  shows "showStatus w [] = Exit (println (''active: '' @ doc_Active doc) @
      concat (map (\<lambda>s. println (status_line s)) (slice_elems (doc_Upstreams doc)))) None \<and>
    (\<exists>out. showStatus w [''-json''] = Exit out (map_option StdoutFailed (w_stdout w)) \<and>
       (int (length out) \<le> 2 ^ 20 \<longrightarrow> ReadDocument (Inr (out, None)) = Inr doc))"
proof -
  have read: "ReadDocument (Inr (write_status doc, failed)) = Inr doc"
    using read_prefix [OF assms(2,4), of "length (write_status doc)" failed] assms(3)
    by (auto split: if_splits)
  obtain v where v: "document_json doc = Some v"
    using assms(2) by (auto simp: write_status_def split: option.splits)
  have "scan_json (println (indented_json v)) = Inr (v, [CHR 0x0A])"
    unfolding println_def
    by (rule scan_print_json(2) [OF document_json_decodes(2) [OF v assms(4)]]) (simp add: ends_value_def json_space_def)
  from decode_stream_value [OF this document_json_object(2) [OF v]]
  have "ReadDocument (Inr (println (indented_json v), None)) = Inr doc" if "int (length (println (indented_json v))) \<le> 2 ^ 20"
    using that by (simp add: ReadDocument_def limit_reader_def document_json_decodes(1) [OF v assms(4)])
  moreover have fl: "parse_flags status_flags [''-json''] = Inr (status_flags(''json'' \<mapsto> BoolFlag True), [])"
    using parse_flags_bool [of status_flags "''json''" False "[]"] by (simp add: status_flags_def)
  ultimately show ?thesis
    using assms(1) read
    by (auto simp: showStatus_def with_flags_def status_flags_def flag_string_def flag_bool_def encode_stdout_def v)
qed

text \<open>
  The daemon stops only when asked or when a server ends: it returns without an error after a
  stop signal, with a server's error unless that is absent or the cancellation, and reload
  signals and traffic never make it return.
\<close>

lemma daemon_returns_only_when_told:
  "snd (daemon_loop path evs d) =
     (case dropWhile (\<lambda>ev. \<not> (ev = StopSignal \<or> (\<exists>err c. ev = ServerEnded err c))) evs of
        [] \<Rightarrow> None
      | ServerEnded (Some e) False # _ \<Rightarrow> Some (Some (ServerFailed e))
      | _ \<Rightarrow> Some None)"
proof (induction evs arbitrary: d)
  case (Cons ev evs)
  then show ?case by (cases ev) (auto split: option.split bool.split prod.split)
qed simp

section \<open>Witnesses\<close>

definition sample_daemon :: Daemon where
  "sample_daemon =
     \<lparr>dm_store = NewStore sample_config sample_manager,
      dm_status = NewStatus (c_StatusSocket sample_config) ''1'' 0, dm_probing = 0\<rparr>"

lemma sample_start: "start_daemon ''1'' DefaultPath sample_fs 0 = Inr sample_daemon"
proof -
  have "c_FailThreshold sample_config = 3" "c_RecoverThreshold sample_config = 3"
    by (simp_all add: sample_config_def Defaults_def)
  then show ?thesis by (simp add: start_daemon_def sample_loads sample_daemon_def sample_manager_def)
qed

lemma sample_daemon_ok: "daemon_ok sample_config sample_daemon"
proof (rule start_daemon_ok [OF sample_start])
  fix cfg assume "Load sample_fs DefaultPath = Inr cfg" "daemon_ok cfg sample_daemon"
  then show ?thesis by (simp add: sample_loads)
qed

lemma daemon_snapshots_consistent_witness:
  "LoadRuntime (dm_store (fst (daemon_loop DefaultPath
       [Traffic 0 [EvFailure ''primary'' ''timeout'' 3], ReloadSignal sample_fs 5, ReloadSignal (\<lambda>_. Inl []) 6, StopSignal] sample_daemon)))
     \<in> set (st_heap (dm_store (fst (daemon_loop DefaultPath
       [Traffic 0 [EvFailure ''primary'' ''timeout'' 3], ReloadSignal sample_fs 5, ReloadSignal (\<lambda>_. Inl []) 6, StopSignal] sample_daemon))))"
  using daemon_snapshots_consistent [OF sample_start sample_loads prod.collapse [symmetric]] by blast

lemma rejected_reload_keeps_serving_witness:
  "LoadRuntime (dm_store (fst (daemon_step DefaultPath (ReloadSignal (\<lambda>_. Inl []) 6) sample_daemon))) =
   LoadRuntime (dm_store sample_daemon)"
proof -
  have "\<exists>e. Load (\<lambda>_. Inl []) DefaultPath = Inl e" by (simp add: Load_def)
  then show ?thesis
    using rejected_reload_keeps_serving [of "\<lambda>_. Inl []" DefaultPath sample_daemon 6] by blast
qed

lemma accepted_reload_keeps_health_witness:
  "StateOf (r_Manager (LoadRuntime (dm_store (fst (daemon_step DefaultPath (ReloadSignal sample_fs 9)
     (sample_daemon\<lparr>dm_store := NewStore sample_config sample_down\<rparr>)))))) ''primary'' = Down"
proof -
  let ?d = "sample_daemon\<lparr>dm_store := NewStore sample_config sample_down\<rparr>"
  have "?d = sample_daemon\<lparr>dm_store := traffic 0 (replicate 3 (EvFailure ''primary'' ''timeout'' 5)) (dm_store sample_daemon)\<rparr>"
    by (simp add: sample_daemon_def traffic_def NewStore_def newSnapshot_def sample_down_def)
  then have ok: "daemon_ok sample_config ?d" using traffic_ok [OF sample_daemon_ok] by simp
  have same: "same_listener (r_Config (LoadRuntime (dm_store ?d))) sample_config" by (simp add: same_listener_def)
  have c: "Suc (st_count (dm_store ?d)) < 2 ^ 64" by (simp add: NewStore_def)
  let ?u = "sample_upstream ''primary'' 10 ''192.0.2.1''" and ?s = "snap_at sample_down 0"
  have "?u \<in> set (c_Upstreams sample_config)" "u_Name ?u = ''primary''"
    by (simp_all add: sample_upstreams sample_upstream_def)
  moreover have "?s \<in> set (Snapshots sample_down)"
    by (simp add: Snapshots_eq sample_down_def sample_manager_def sample_upstreams)
  moreover have "s_Name ?s = u_Name ?u" "s_Endpoint ?s = Endpoint ?u" "s_Protocol ?s = u_Protocol ?u" "s_State ?s = Down"
    by code_simp+
  ultimately show ?thesis
    using accepted_reload_keeps_health [OF ok sample_loads same c refl, of 9] by force
qed

definition sample_world :: world where
  "sample_world =
     \<lparr>w_fs = sample_fs, w_client = answering False 2, w_id = 7,
      w_dial = (\<lambda>_. Inl ''refused''), w_stdout = None\<rparr>"

lemma command_verdicts_witness:
  "exit_status (checkConfig sample_world []) = 0 \<and> exit_status (probeUpstream sample_lib sample_world [''primary'']) \<noteq> 0 \<and>
   exit_status (selfTest sample_lib sample_world [''-json'']) = 0"
proof -
  have c: "client_ok (w_client sample_world)" by (simp add: sample_world_def client_ok_def answering_def)
  have l: "Load (w_fs sample_world) DefaultPath = Inr sample_config" by (simp add: sample_world_def sample_loads)
  let ?q = "l_SetQuestion sample_lib (w_id sample_world) (p_Name (hd (c_Probes sample_config))) (p_QType (hd (c_Probes sample_config)))"
  have "\<not> answers sample_lib (Exchange sample_lib (w_client sample_world) (c_AttemptTimeout sample_config) u ?q)" for u
    using Exchange_cases [of sample_lib "w_client sample_world" "c_AttemptTimeout sample_config" u ?q]
    by (auto simp: answers_def Exchange_def exchange_def validated_def sample_world_def answering_def sample_lib_def
        transient_def split: xresult.splits option.splits if_splits)
  with command_verdicts [OF c, of "''primary''" sample_lib] l show ?thesis
    by (auto simp: Let_def sample_world_def)
qed

definition status_world :: world where
  "status_world = sample_world\<lparr>w_dial := \<lambda>_. Inr (write_status sample_document, None)\<rparr>"

lemma status_command_shows_document_witness:
  "showStatus status_world [] = Exit (println ''active: a'') None"
proof -
  have "length (write_status sample_document) = 271" "write_status sample_document \<noteq> []"
    unfolding sample_document_text by simp_all
  moreover have "w_dial status_world ''/var/run/failsafe-dns-proxy.sock'' =
      Inr (write_status sample_document, None)" by (simp add: status_world_def)
  moreover have "doc_Active sample_document = ''a''" "slice_elems (doc_Upstreams sample_document) = []"
    by (simp_all add: sample_document_def slice_elems_def)
  ultimately show ?thesis
    using status_command_shows_document [of status_world sample_document None] sample_document_ok by simp
qed

end
