(* ===== verification/Dnsserver.thy ===== *)
theory Dnsserver
  imports Runtimecfg
begin

text \<open>
  \<open>internal/dnsserver/server.go\<close>: the handler of one client query and the resolver loop that walks
  the candidates. Other goroutines run between the resolver's steps: the environment of each
  iteration (\<open>attempt_env\<close>) says what they did to the manager meanwhile, how the context and the
  channel stood when the resolver selected on them, what the clock left of the deadline, and
  how the network behaved. The exchanger is a parameter, as in the source.
\<close>

section \<open>The environment of a request\<close>

record 'net attempt_env =
  ae_ctxErr :: "ctx_error option"
  ae_before :: "mgr_event list"
  ae_ctxDone :: "ctx_error option"
  ae_pickSlot :: bool
  ae_remaining :: "duration option"
  ae_net :: 'net
  ae_during :: "mgr_event list"
  ae_now :: time

datatype failure =
    FailCtx ctx_error
  | FailSlotUnknown string
  | FailSlot string ctx_error
  | FailExchange string string
  | FailRcode string string

text \<open>
  \<open>resolve\<close> returns a message (or nil) and the join of the collected failures, which is a nil
  error when there is none. It may also still be waiting for a slot, or have panicked.
\<close>

datatype resolve_result = Returned "dns_msg option" "failure list" | Waiting | Panicked

section \<open>The resolver\<close>

text \<open>
  The timeout of one attempt: the configured one, cut to what the deadline leaves. \<^const>\<open>None\<close>
  when the deadline has passed, where the source leaves the loop.
\<close>

definition attempt_timeout :: "duration \<Rightarrow> duration option \<Rightarrow> duration option" where
  "attempt_timeout timeout deadline =
     (case deadline of
        None \<Rightarrow> Some timeout
      | Some remaining \<Rightarrow>
          if remaining \<le> 0 then None
          else if remaining < timeout then Some remaining else Some timeout)"

text \<open>
  One pass of the loop body: it leaves the loop with a result, or goes on to the next candidate
  with the failures collected so far. Beside the manager it returns the exchange it made, if
  any, with its timeout.
\<close>

datatype pass = Leave resolve_result | Continue "failure list"

definition attempt ::
  "dns_lib \<Rightarrow> ('net \<Rightarrow> duration \<Rightarrow> Upstream \<Rightarrow> dns_msg \<Rightarrow> xresult) \<Rightarrow> duration \<Rightarrow> bool \<Rightarrow>
   'net attempt_env \<Rightarrow> dns_msg \<Rightarrow> Upstream \<Rightarrow> failure list \<Rightarrow> Manager \<Rightarrow>
   Manager \<times> (Upstream \<times> duration) list \<times> pass" where
  "attempt L xchg timeout emergency env request candidate failures m =
     (case ae_ctxErr env of
        Some e \<Rightarrow> (m, [], Leave (Returned None (failures @ [FailCtx e])))
      | None \<Rightarrow>
          let m1 = mgr_run (ae_before env) m in
          (case BeginAttemptContext (ae_ctxDone env) (ae_pickSlot env) (u_Name candidate) m1 of
             BeginUnknown \<Rightarrow>
               (m1, [], Leave (Returned None (failures @ [FailSlotUnknown (u_Name candidate)])))
           | BeginCtx e \<Rightarrow> (m1, [], Leave (Returned None (failures @ [FailSlot (u_Name candidate) e])))
           | BeginBlocked \<Rightarrow> (m1, [], Leave Waiting)
           | BeginOk m2 p \<Rightarrow>
               (case attempt_timeout timeout (ae_remaining env) of
                  None \<Rightarrow> (m2, [], Leave (Returned None failures))
                | Some t \<Rightarrow>
                    (case xchg (ae_net env) t candidate request of
                       XPanic \<Rightarrow> (m2, [(candidate, t)], Leave Panicked)
                     | XResult response latency err \<Rightarrow>
                         (case release_attempt p (mgr_run (ae_during env) m2) of
                            None \<Rightarrow> (mgr_run (ae_during env) m2, [(candidate, t)], Leave Waiting)
                          | Some m3 \<Rightarrow>
                              (case err of
                                 Some e \<Rightarrow>
                                   (RecordFailure (u_Name candidate) e (ae_now env) m3, [(candidate, t)],
                                    Continue (failures @ [FailExchange (u_Name candidate) e]))
                               | None \<Rightarrow>
                                   (case response of
                                      None \<Rightarrow> (m3, [(candidate, t)], Leave Panicked)
                                    | Some r \<Rightarrow>
                                        if transient L (d_Rcode r) then
                                          (m3, [(candidate, t)],
                                           Continue (failures @ [FailRcode (u_Name candidate)
                                             (l_RcodeToString L (d_Rcode r))]))
                                        else
                                          (RecordSuccess (u_Name candidate) emergency latency
                                             (ae_now env) m3,
                                           [(candidate, t)], Leave (Returned (Some r) [])))))))))"

text \<open>The loop over the candidates; \<open>env i\<close> is the environment of iteration \<open>i\<close>.\<close>

fun resolve_loop ::
  "dns_lib \<Rightarrow> ('net \<Rightarrow> duration \<Rightarrow> Upstream \<Rightarrow> dns_msg \<Rightarrow> xresult) \<Rightarrow> duration \<Rightarrow> bool \<Rightarrow>
   (nat \<Rightarrow> 'net attempt_env) \<Rightarrow> dns_msg \<Rightarrow> nat \<Rightarrow> Upstream list \<Rightarrow> failure list \<Rightarrow> Manager \<Rightarrow>
   Manager \<times> (Upstream \<times> duration) list \<times> resolve_result" where
  "resolve_loop L xchg timeout emergency env request i [] failures m = (m, [], Returned None failures)"
| "resolve_loop L xchg timeout emergency env request i (candidate # rest) failures m =
     (case attempt L xchg timeout emergency (env i) request candidate failures m of
        (m', calls, Leave r) \<Rightarrow> (m', calls, r)
      | (m', calls, Continue failures') \<Rightarrow>
          let (m'', calls', r) =
            resolve_loop L xchg timeout emergency env request (Suc i) rest failures' m'
          in (m'', calls @ calls', r))"

text \<open>
  \<open>resolve\<close>: \<open>seen\<close> is what the candidate selection reads of each entry's state, which other
  goroutines may change between two reads.
\<close>

definition resolve ::
  "dns_lib \<Rightarrow> ('net \<Rightarrow> duration \<Rightarrow> Upstream \<Rightarrow> dns_msg \<Rightarrow> xresult) \<Rightarrow> duration \<Rightarrow>
   (nat \<Rightarrow> 'net attempt_env) \<Rightarrow> (ptr \<Rightarrow> State) \<Rightarrow> dns_msg \<Rightarrow> Manager \<Rightarrow>
   Manager \<times> (Upstream \<times> duration) list \<times> resolve_result" where
  "resolve L xchg timeout env seen request m =
     (let (candidates, emergency) = candidates_seen seen m in
      resolve_loop L xchg timeout emergency env request 0 candidates []
        (RecordSelectionMode emergency m))"

section \<open>The handler\<close>

definition failureResponse :: "dns_lib \<Rightarrow> dns_msg \<Rightarrow> int \<Rightarrow> dns_msg" where
  "failureResponse L request rcode = l_SetRcode L request rcode"

text \<open>
  How a call of the handler ends: it has written one message (possibly nil) and returned, it is
  still waiting inside the resolver, or it has panicked. The deferred receive from the limit
  runs when the handler returns or panics.
\<close>

datatype handled = Wrote "dns_msg option" | InFlight | Crashed

definition leave_limit :: "Runtime \<Rightarrow> Runtime" where
  "leave_limit rt = (case leave rt of None \<Rightarrow> rt | Some rt' \<Rightarrow> rt')"

definition handle ::
  "dns_lib \<Rightarrow> ('net \<Rightarrow> duration \<Rightarrow> Upstream \<Rightarrow> dns_msg \<Rightarrow> xresult) \<Rightarrow>
   (nat \<Rightarrow> 'net attempt_env) \<Rightarrow> (ptr \<Rightarrow> State) \<Rightarrow> dns_msg \<Rightarrow> Runtime \<Rightarrow> Runtime \<times> handled" where
  "handle L xchg env seen request rt =
     (case enter rt of
        None \<Rightarrow> (rt, Wrote (Some (failureResponse L request (l_ServerFailure L))))
      | Some rt1 \<Rightarrow>
          if d_Question request = [] then
            (leave_limit rt1, Wrote (Some (failureResponse L request (l_FormatError L))))
          else
            (case resolve L xchg (c_AttemptTimeout (r_Config rt1)) env seen request (r_Manager rt1) of
               (m, calls, Returned response failures) \<Rightarrow>
                 (leave_limit (rt1\<lparr>r_Manager := m\<rparr>),
                  Wrote (if failures \<noteq> [] then Some (failureResponse L request (l_ServerFailure L))
                         else response))
             | (m, calls, Waiting) \<Rightarrow> (rt1\<lparr>r_Manager := m\<rparr>, InFlight)
             | (m, calls, Panicked) \<Rightarrow> (leave_limit (rt1\<lparr>r_Manager := m\<rparr>), Crashed)))"

section \<open>One pass of the loop\<close>

lemmas attempt_splits =
  option.splits begin_result.splits xresult.splits if_splits prod.splits

lemma attempt_timeout_bounds:
  assumes "attempt_timeout timeout deadline = Some t"
  shows "t \<le> timeout" and "deadline = Some remaining \<Longrightarrow> t \<le> remaining \<and> 0 < remaining"
    and "0 < timeout \<Longrightarrow> 0 < t"
  using assms by (auto simp: attempt_timeout_def split: attempt_splits)

lemma attempt_inv [wf_intros]:
  assumes "mgr_inv B C m" and "attempt L xchg T em env req c fs m = (m', calls, r)"
  shows "mgr_inv B C m'"
proof -
  have m1: "mgr_inv B C (mgr_run (ae_before env) m)" using assms(1) by (rule mgr_run_inv)
  have m2: "mgr_inv B C m2 \<and> mgr_inv B C (mgr_run (ae_during env) m2)"
    if "BeginAttemptContext (ae_ctxDone env) (ae_pickSlot env) (u_Name c) (mgr_run (ae_before env) m) = BeginOk m2 p"
    for m2 p using BeginAttemptContext_inv [OF m1 that] mgr_run_inv by blast
  have m3: "mgr_inv B C m3"
    if "BeginAttemptContext (ae_ctxDone env) (ae_pickSlot env) (u_Name c) (mgr_run (ae_before env) m) = BeginOk m2 p"
      and "release_attempt p (mgr_run (ae_during env) m2) = Some m3" for m2 m3 p
    using release_attempt_inv [OF _ that(2)] m2 [OF that(1)] by blast
  show ?thesis
    using assms(2) assms(1) m1 m2 m3
    by (auto simp: attempt_def Let_def RecordSuccess_inv RecordFailure_inv split: attempt_splits)
qed

lemma attempt_calls:
  assumes "attempt L xchg T em env req c fs m = (m', calls, r)"
  shows "calls = [] \<or> (\<exists>t. calls = [(c, t)] \<and> attempt_timeout T (ae_remaining env) = Some t)"
  using assms by (auto simp: attempt_def Let_def split: attempt_splits)

lemma attempt_Continue:
  assumes "attempt L xchg T em env req c fs m = (m', calls, Continue fs')"
  shows "calls \<noteq> [] \<and> fs' \<noteq> []"
  using assms by (auto simp: attempt_def Let_def split: attempt_splits)

lemma attempt_answer:
  assumes "attempt L xchg T em env req c fs m = (m', calls, Leave (Returned (Some r) fs'))"
  shows "fs' = [] \<and> \<not> transient L (d_Rcode r) \<and>
    (\<exists>t lat. calls = [(c, t)] \<and> xchg (ae_net env) t c req = XResult (Some r) lat None)"
  using assms by (auto simp: attempt_def Let_def split: attempt_splits)

section \<open>The whole loop\<close>

lemma resolve_loop_inv [wf_intros]:
  "mgr_inv B C m \<Longrightarrow> resolve_loop L xchg T em env req i cs fs m = (m', calls, r) \<Longrightarrow> mgr_inv B C m'"
proof (induction cs arbitrary: i fs m m' calls r)
  case Nil
  then show ?case by simp
next
  case (Cons c cs)
  obtain m1 calls1 o1 where a: "attempt L xchg T em (env i) req c fs m = (m1, calls1, o1)"
    by (cases "attempt L xchg T em (env i) req c fs m") auto
  have "mgr_inv B C m1" using attempt_inv [OF Cons.prems(1) a] .
  with Cons.prems(2) a Cons.IH show ?case
    by (cases o1) (auto split: prod.splits)
qed

lemma resolve_loop_calls:
  "resolve_loop L xchg T em env req i cs fs m = (m', calls, r) \<Longrightarrow>
   map fst calls = take (length calls) cs \<and>
   (\<forall>k < length calls. attempt_timeout T (ae_remaining (env (i + k))) = Some (snd (calls ! k)))"
proof (induction cs arbitrary: i fs m m' calls r)
  case Nil
  then show ?case by simp
next
  case (Cons c cs)
  obtain m1 calls1 o1 where a: "attempt L xchg T em (env i) req c fs m = (m1, calls1, o1)"
    by (cases "attempt L xchg T em (env i) req c fs m") auto
  show ?case
  proof (cases o1)
    case (Leave r1)
    with Cons.prems a attempt_calls [OF a] show ?thesis by auto
  next
    case (Continue fs1)
    with a attempt_Continue [of L xchg T em "env i" req c fs m m1 calls1 fs1] attempt_calls [OF a]
    obtain t where t: "calls1 = [(c, t)]" "attempt_timeout T (ae_remaining (env i)) = Some t" by auto
    obtain m2 calls2 r2 where l: "resolve_loop L xchg T em env req (Suc i) cs fs1 m1 = (m2, calls2, r2)"
      by (cases "resolve_loop L xchg T em env req (Suc i) cs fs1 m1") auto
    from Cons.prems a Continue l t have c: "calls = (c, t) # calls2" by auto
    from Cons.IH [OF l] t show ?thesis by (auto simp: c nth_Cons split: nat.splits)
  qed
qed

lemma resolve_loop_answer:
  "resolve_loop L xchg T em env req i cs fs m = (m', calls, Returned (Some r) fs') \<Longrightarrow>
   fs' = [] \<and> \<not> transient L (d_Rcode r) \<and> calls \<noteq> [] \<and>
   (\<exists>lat. xchg (ae_net (env (i + (length calls - 1)))) (snd (last calls)) (fst (last calls)) req =
      XResult (Some r) lat None)"
proof (induction cs arbitrary: i fs m m' calls)
  case Nil
  then show ?case by simp
next
  case (Cons c cs)
  obtain m1 calls1 o1 where a: "attempt L xchg T em (env i) req c fs m = (m1, calls1, o1)"
    by (cases "attempt L xchg T em (env i) req c fs m") auto
  show ?case
  proof (cases o1)
    case (Leave r1)
    with Cons.prems a have "o1 = Leave (Returned (Some r) fs')" "calls = calls1" by auto
    with attempt_answer a show ?thesis by fastforce
  next
    case (Continue fs1)
    with a attempt_Continue [of L xchg T em "env i" req c fs m m1 calls1 fs1] attempt_calls [OF a]
    obtain t where t: "calls1 = [(c, t)]" by auto
    obtain m2 calls2 r2 where l: "resolve_loop L xchg T em env req (Suc i) cs fs1 m1 = (m2, calls2, r2)"
      by (cases "resolve_loop L xchg T em env req (Suc i) cs fs1 m1") auto
    from Cons.prems a Continue l t have c: "calls = (c, t) # calls2" and r2: "r2 = Returned (Some r) fs'" by auto
    from Cons.IH l r2 have IH: "fs' = [] \<and> \<not> transient L (d_Rcode r) \<and> calls2 \<noteq> [] \<and>
      (\<exists>lat. xchg (ae_net (env (Suc i + (length calls2 - 1)))) (snd (last calls2)) (fst (last calls2)) req =
        XResult (Some r) lat None)" by blast
    then have idx: "Suc i + (length calls2 - 1) = i + length calls2" by (cases calls2) auto
    show ?thesis using IH [unfolded idx] by (simp add: c)
  qed
qed

section \<open>The client of the exchanger interface\<close>

context exchanger
begin

lemma resolve_loop_good:
  "resolve_loop L xchg T em env req i cs fs m = (m', calls, Returned (Some r) fs') \<Longrightarrow> good req r"
  using resolve_loop_answer response_good by fastforce

lemma attempt_no_panic:
  assumes "\<And>t u q. xchg (ae_net env) t u q \<noteq> XPanic"
    and "attempt L xchg T em env req c fs m = (m', calls, Leave r)"
  shows "r \<noteq> Panicked"
  using assms(2) assms(1) ok_good
  by (fastforce simp: attempt_def Let_def split: attempt_splits)

end

section \<open>The reference: one request with nobody in the way\<close>

text \<open>
  An iteration that is not disturbed: the context is alive, no other goroutine touches the
  manager, and the deadline, if there is one, has not passed.
\<close>

definition quiet :: "'net attempt_env \<Rightarrow> bool" where
  "quiet env \<longleftrightarrow> ae_ctxErr env = None \<and> ae_before env = [] \<and> ae_ctxDone env = None \<and>
     ae_during env = [] \<and> (\<forall>remaining. ae_remaining env = Some remaining \<longrightarrow> 0 < remaining)"

definition budget :: "duration \<Rightarrow> 'net attempt_env \<Rightarrow> duration" where
  "budget T env = (case ae_remaining env of None \<Rightarrow> T | Some remaining \<Rightarrow> min remaining T)"

text \<open>
  What an undisturbed request does, as a recursion over the candidates: which evidence it
  records, which upstreams it asks, and the answer.
\<close>

fun walk ::
  "dns_lib \<Rightarrow> ('net \<Rightarrow> duration \<Rightarrow> Upstream \<Rightarrow> dns_msg \<Rightarrow> xresult) \<Rightarrow> duration \<Rightarrow> bool \<Rightarrow>
   (nat \<Rightarrow> 'net attempt_env) \<Rightarrow> dns_msg \<Rightarrow> nat \<Rightarrow> Upstream list \<Rightarrow>
   mgr_event list \<times> (Upstream \<times> duration) list \<times> dns_msg option" where
  "walk L xchg T em env req i [] = ([], [], None)"
| "walk L xchg T em env req i (c # cs) =
     (case xchg (ae_net (env i)) (budget T (env i)) c req of
        XResult (Some r) lat None \<Rightarrow>
          if transient L (d_Rcode r) then
            (let (evs, calls, a) = walk L xchg T em env req (Suc i) cs in (evs, (c, budget T (env i)) # calls, a))
          else ([EvSuccess (u_Name c) em lat (ae_now (env i))], [(c, budget T (env i))], Some r)
      | XResult _ _ (Some e) \<Rightarrow>
          (let (evs, calls, a) = walk L xchg T em env req (Suc i) cs
           in (EvFailure (u_Name c) e (ae_now (env i)) # evs, (c, budget T (env i)) # calls, a))
      | _ \<Rightarrow> ([], [(c, budget T (env i))], None))"

lemma quiet_timeout: "quiet env \<Longrightarrow> attempt_timeout T (ae_remaining env) = Some (budget T env)"
  by (auto simp: quiet_def attempt_timeout_def budget_def split: option.split)

lemma set_attempts_back:
  assumes "p < length (m_heap m)" and "chan_send (attempts_at m p) = Some c"
  shows "release_attempt p (set_attempts m p c) = Some m"
proof -
  have c: "c = (attempts_at m p)\<lparr>ch_len := Suc (ch_len (attempts_at m p))\<rparr>"
    using assms(2) by (simp add: chan_simps)
  have "set_attempts (set_attempts m p c) p (attempts_at m p) = m"
    using assms(1) by (simp add: set_attempts_def attempts_at_def)
  with assms(1) show ?thesis by (simp add: release_attempt_def chan_recv_def c)
qed

text \<open>A slot of the candidate is free: taking and releasing it leaves the manager as it was.\<close>

definition slot_free :: "Manager \<Rightarrow> Upstream \<Rightarrow> bool" where
  "slot_free m c \<longleftrightarrow> m_byName m (u_Name c) \<noteq> None \<and> slots_used (u_Name c) m < slots_limit (u_Name c) m"

lemma slot_free_begin:
  assumes "ptrs_ok m" and "slot_free m c"
  obtains m2 p where "BeginAttemptContext None pick (u_Name c) m = BeginOk m2 p"
    and "release_attempt p m2 = Some m"
proof -
  from assms(2) obtain p where p: "m_byName m (u_Name c) = Some p"
    and l: "ch_len (attempts_at m p) < ch_cap (attempts_at m p)"
    by (auto simp: slot_free_def slots_used_def slots_limit_def)
  then obtain ch where ch: "chan_send (attempts_at m p) = Some ch" by (auto simp: chan_send_def)
  have "p < length (m_heap m)" using assms(1) p by (rule ptrs_ok_lt)
  from set_attempts_back [OF this ch] that p ch show ?thesis
    by (auto simp: BeginAttemptContext_def)
qed

lemma attempt_quiet:
  assumes "quiet env" and "ptrs_ok m" and "slot_free m c"
    and "xchg (ae_net env) (budget T env) c req = XResult response lat err"
    and "err = None \<Longrightarrow> response \<noteq> None"
  shows "attempt L xchg T em env req c fs m =
    (case err of
       Some e \<Rightarrow> (RecordFailure (u_Name c) e (ae_now env) m, [(c, budget T env)],
                  Continue (fs @ [FailExchange (u_Name c) e]))
     | None \<Rightarrow>
         (let r = the response in
          if transient L (d_Rcode r) then
            (m, [(c, budget T env)], Continue (fs @ [FailRcode (u_Name c) (l_RcodeToString L (d_Rcode r))]))
          else (RecordSuccess (u_Name c) em lat (ae_now env) m, [(c, budget T env)], Leave (Returned (Some r) []))))"
proof -
  obtain m2 p where "BeginAttemptContext None (ae_pickSlot env) (u_Name c) m = BeginOk m2 p"
    and "release_attempt p m2 = Some m"
    using slot_free_begin [OF assms(2,3)] .
  with assms show ?thesis
    by (auto simp: attempt_def quiet_timeout [OF assms(1)] Let_def quiet_def split: option.split)
qed

lemma slot_free_record [simp]:
  "slot_free (RecordFailure n e t m) c = slot_free m c"
  by (simp add: slot_free_def slots_used_def slots_limit_def split: option.split)

lemma ptrs_ok_record [simp]: "ptrs_ok (RecordFailure n e t m) = ptrs_ok m"
  by (simp add: ptrs_ok_def)

context exchanger
begin

lemma resolve_loop_walk:
  assumes "\<And>k. quiet (env k)" and "\<And>k t u q. xchg (ae_net (env k)) t u q \<noteq> XPanic"
    and "ptrs_ok m" and "\<forall>c \<in> set cs. slot_free m c"
    and "walk L xchg T em env req i cs = (evs, calls, a)"
  shows "\<exists>fs'. resolve_loop L xchg T em env req i cs fs m =
      (mgr_run evs m, calls, Returned a (if a = None then fs @ fs' else [])) \<and>
    (a = None \<longrightarrow> length fs' = length cs)"
  using assms(3-5)
proof (induction cs arbitrary: i fs m evs calls a)
  case Nil
  then show ?case by simp
next
  case (Cons c cs)
  obtain response lat err where x: "xchg (ae_net (env i)) (budget T (env i)) c req = XResult response lat err"
    using assms(2) by (cases "xchg (ae_net (env i)) (budget T (env i)) c req") auto
  have nn: "err = None \<Longrightarrow> response \<noteq> None" and en: "err = Some e \<Longrightarrow> response = None" for e
    using ok_good x error_nil by blast+
  note att = attempt_quiet [where xchg = xchg, OF assms(1) Cons.prems(1) _ x nn, of L em fs]
  have free: "slot_free m c" using Cons.prems(2) by simp
  obtain evs1 calls1 a1 where w: "walk L xchg T em env req (Suc i) cs = (evs1, calls1, a1)"
    by (cases "walk L xchg T em env req (Suc i) cs") auto
  show ?case
  proof (cases err)
    case (Some e)
    let ?m = "RecordFailure (u_Name c) e (ae_now (env i)) m"
    obtain fs' where "resolve_loop L xchg T em env req (Suc i) cs (fs @ [FailExchange (u_Name c) e]) ?m =
      (mgr_run evs1 ?m, calls1, Returned a1 (if a1 = None then (fs @ [FailExchange (u_Name c) e]) @ fs' else []))"
      and "a1 = None \<longrightarrow> length fs' = length cs"
      using Cons.IH [of ?m "Suc i" evs1 calls1 a1 "fs @ [FailExchange (u_Name c) e]"] Cons.prems w by auto
    with Some x en w att free Cons.prems(3) show ?thesis
      by (intro exI [of _ "FailExchange (u_Name c) e # fs'"]) auto
  next
    case None
    with nn obtain r where r: "response = Some r" by auto
    show ?thesis
    proof (cases "transient L (d_Rcode r)")
      case True
      let ?f = "FailRcode (u_Name c) (l_RcodeToString L (d_Rcode r))"
      obtain fs' where "resolve_loop L xchg T em env req (Suc i) cs (fs @ [?f]) m =
        (mgr_run evs1 m, calls1, Returned a1 (if a1 = None then (fs @ [?f]) @ fs' else []))"
        and "a1 = None \<longrightarrow> length fs' = length cs"
        using Cons.IH [of m "Suc i" evs1 calls1 a1 "fs @ [?f]"] Cons.prems w by auto
      with True None r x w att free Cons.prems(3) show ?thesis
        by (intro exI [of _ "?f # fs'"]) auto
    next
      case False
      with None r x att free Cons.prems(3) show ?thesis by auto
    qed
  qed
qed

end

section \<open>Which candidate answers\<close>

context exchanger
begin

lemma walk_skip:
  assumes "xchg (ae_net (env i)) (budget T (env i)) c req \<noteq> XPanic"
    and "\<not> answers L (xchg (ae_net (env i)) (budget T (env i)) c req)"
    and "walk L xchg T em env req (Suc i) cs = (evs, calls, a)"
  shows "\<exists>evs'. walk L xchg T em env req i (c # cs) = (evs', (c, budget T (env i)) # calls, a)"
proof (cases "xchg (ae_net (env i)) (budget T (env i)) c req")
  case (XResult response lat err)
  show ?thesis
  proof (cases err)
    case None
    with XResult ok_good [of "ae_net (env i)" "budget T (env i)" c req response lat]
    obtain r where "response = Some r" by auto
    with None XResult assms show ?thesis by (auto simp: answers_def)
  next
    case (Some e)
    with XResult error_nil [of "ae_net (env i)" "budget T (env i)" c req response lat e] assms
    show ?thesis by auto
  qed
qed (use assms in simp)

lemma walk_first_good:
  assumes "\<And>k t u q. xchg (ae_net (env k)) t u q \<noteq> XPanic"
  shows "k < length cs \<Longrightarrow>
    (\<forall>j < k. \<not> answers L (xchg (ae_net (env (i + j))) (budget T (env (i + j))) (cs ! j) req)) \<Longrightarrow>
    xchg (ae_net (env (i + k))) (budget T (env (i + k))) (cs ! k) req = XResult (Some r) lat None \<Longrightarrow>
    \<not> transient L (d_Rcode r) \<Longrightarrow>
    \<exists>evs calls. walk L xchg T em env req i cs = (evs, calls, Some r) \<and> map fst calls = take (Suc k) cs"
proof (induction k arbitrary: i cs)
  case 0
  then show ?case by (cases cs) auto
next
  case (Suc k)
  then obtain c cs' where cs: "cs = c # cs'" by (cases cs) auto
  have "\<not> answers L (xchg (ae_net (env (Suc i + j))) (budget T (env (Suc i + j))) (cs' ! j) req)"
    if "j < k" for j using Suc.prems(2) [rule_format, of "Suc j"] that by (simp add: cs)
  with Suc.IH [of cs' "Suc i"] Suc.prems obtain evs calls where
    w: "walk L xchg T em env req (Suc i) cs' = (evs, calls, Some r)" and "map fst calls = take (Suc k) cs'"
    by (auto simp: cs)
  moreover have "\<not> answers L (xchg (ae_net (env i)) (budget T (env i)) c req)"
    using Suc.prems(2) [rule_format, of 0] by (simp add: cs)
  ultimately show ?case
    using walk_skip [of env i T c req L em cs' evs calls "Some r"] assms by (auto simp: cs)
qed

lemma walk_none_good:
  assumes "\<And>k t u q. xchg (ae_net (env k)) t u q \<noteq> XPanic"
  shows "(\<forall>j < length cs. \<not> answers L (xchg (ae_net (env (i + j))) (budget T (env (i + j))) (cs ! j) req)) \<Longrightarrow>
    \<exists>evs calls. walk L xchg T em env req i cs = (evs, calls, None) \<and> map fst calls = cs"
proof (induction cs arbitrary: i)
  case (Cons c cs)
  have "\<not> answers L (xchg (ae_net (env (Suc i + j))) (budget T (env (Suc i + j))) (cs ! j) req)"
    if "j < length cs" for j using Cons.prems [rule_format, of "Suc j"] that by simp
  with Cons.IH [of "Suc i"] obtain evs calls where
    w: "walk L xchg T em env req (Suc i) cs = (evs, calls, None)" and "map fst calls = cs" by auto
  moreover have "\<not> answers L (xchg (ae_net (env i)) (budget T (env i)) c req)"
    using Cons.prems [rule_format, of 0] by simp
  ultimately show ?case using walk_skip [of env i T c req L em cs evs calls None] assms by auto
qed simp

end

section \<open>The resolver on the real exchanger\<close>

lemma slot_free_selection [simp]: "slot_free (RecordSelectionMode e m) c = slot_free m c"
  by (simp add: slot_free_def slots_used_def slots_limit_def split: option.split)

lemma ptrs_ok_selection [simp]: "ptrs_ok (RecordSelectionMode e m) = ptrs_ok m"
  by (simp add: ptrs_ok_def)

lemma resolve_walk:
  assumes "\<And>k. quiet (env k)" and "\<And>k. client_ok (ae_net (env k))" and "mgr_inv B C m"
    and "candidates_seen seen m = (cs, emergency)" and "\<forall>c \<in> set cs. slot_free m c"
    and "walk L (Exchange L) T emergency env request 0 cs = (evs, calls, answer)"
  shows "\<exists>failures. resolve L (Exchange L) T env seen request m =
      (mgr_run (EvSelection emergency # evs) m, calls, Returned answer failures) \<and>
    length failures = (if answer = None then length cs else 0)"
proof -
  have "ptrs_ok (RecordSelectionMode emergency m)" using mgr_inv_ptrs_ok [OF assms(3)] by simp
  from dnsx.resolve_loop_walk [where env = env, OF assms(1) _ this _ assms(6), of "[]"] assms(2,4,5)
  obtain fs' where "resolve_loop L (Exchange L) T emergency env request 0 cs [] (RecordSelectionMode emergency m) =
      (mgr_run evs (RecordSelectionMode emergency m), calls, Returned answer (if answer = None then [] @ fs' else []))"
    "answer = None \<longrightarrow> length fs' = length cs"
    by (auto simp: Exchange_no_panic)
  then show ?thesis by (intro exI [of _ "if answer = None then fs' else []"]) (simp add: resolve_def assms(4))
qed

text \<open>
  C6: the resolver implements the reference walk. Assume that nobody else acts on the manager during
  the request, that its context does not end and its deadline does not pass (\<open>quiet\<close>), that every
  candidate has a free slot, and that the DNS client never returns no reply without an error
  (\<open>client_ok\<close>). Then the request asks the candidates in order as the recursion \<open>walk\<close> does, ends
  with the manager in the state that \<open>walk\<close>'s evidence produces (all slots given back), and
  returns its answer, or no answer and one failure per candidate.
\<close>

theorem resolve_refines_walk:
  assumes "\<And>k. quiet (env k)" and "\<And>k. client_ok (ae_net (env k))" and "mgr_inv B C m"
    and "candidates_seen seen m = (cs, emergency)" and "\<forall>c \<in> set cs. slot_free m c"
    and "walk L (Exchange L) T emergency env request 0 cs = (evs, calls, answer)"
  shows "\<exists>failures. resolve L (Exchange L) T env seen request m =
      (mgr_run (EvSelection emergency # evs) m, calls, Returned answer failures) \<and>
    length failures = (if answer = None then length cs else 0)"
  by (rule resolve_walk [where env = env, OF assms])

text \<open>
  C5: failover within a request. When nobody interferes and slots are free, the client gets the
  answer of the first candidate in priority order that gives a valid reply other than
  SERVFAIL or REFUSED: every candidate before it has been asked, none after it is, and the
  manager's evidence is that of the walk. If no candidate gives such a reply, all have been
  asked and the request fails.
\<close>

theorem first_usable_candidate_answers:
  assumes "\<And>k. quiet (env k)" and "\<And>k. client_ok (ae_net (env k))" and "mgr_inv B C m"
    and "candidates_seen seen m = (cs, emergency)" and "\<forall>c \<in> set cs. slot_free m c"
  shows "(\<forall>k r lat. k < length cs \<and>
       (\<forall>j < k. \<not> answers L (Exchange L (ae_net (env j)) (budget T (env j)) (cs ! j) request)) \<and>
       Exchange L (ae_net (env k)) (budget T (env k)) (cs ! k) request = XResult (Some r) lat None \<and>
       \<not> transient L (d_Rcode r) \<longrightarrow>
       (\<exists>m' calls. resolve L (Exchange L) T env seen request m = (m', calls, Returned (Some r) []) \<and>
          map fst calls = take (Suc k) cs)) \<and>
    ((\<forall>j < length cs. \<not> answers L (Exchange L (ae_net (env j)) (budget T (env j)) (cs ! j) request)) \<longrightarrow>
       (\<exists>m' calls fs. resolve L (Exchange L) T env seen request m = (m', calls, Returned None fs) \<and>
          map fst calls = cs \<and> length fs = length cs))"
proof (intro conjI allI impI)
  have np: "\<And>k t u q. Exchange L (ae_net (env k)) t u q \<noteq> XPanic"
    using Exchange_no_panic assms(2) by blast
  note ref = resolve_walk [where env = env, OF assms, of L T request]
  fix k r lat
  assume "k < length cs \<and>
       (\<forall>j < k. \<not> answers L (Exchange L (ae_net (env j)) (budget T (env j)) (cs ! j) request)) \<and>
       Exchange L (ae_net (env k)) (budget T (env k)) (cs ! k) request = XResult (Some r) lat None \<and>
       \<not> transient L (d_Rcode r)"
  with dnsx.walk_first_good [where env = env, OF np, of k cs L 0 T request r lat emergency] ref
  show "\<exists>m' calls. resolve L (Exchange L) T env seen request m = (m', calls, Returned (Some r) []) \<and>
          map fst calls = take (Suc k) cs" by fastforce
next
  have np: "\<And>k t u q. Exchange L (ae_net (env k)) t u q \<noteq> XPanic"
    using Exchange_no_panic assms(2) by blast
  assume "\<forall>j < length cs. \<not> answers L (Exchange L (ae_net (env j)) (budget T (env j)) (cs ! j) request)"
  with dnsx.walk_none_good [where env = env, OF np, of cs L 0 T request emergency]
    resolve_walk [where env = env, OF assms, of L T request]
  show "\<exists>m' calls fs. resolve L (Exchange L) T env seen request m = (m', calls, Returned None fs) \<and>
          map fst calls = cs \<and> length fs = length cs" by fastforce
qed

section \<open>Under any interference\<close>

lemma resolve_loop_safe:
  assumes "resolve_loop L (Exchange L) T em env req i cs fs m = (m', calls, Returned (Some r) fs')"
  shows "valid_reply L req r \<and> d_Rcode r \<noteq> l_ServerFailure L \<and> d_Rcode r \<noteq> l_Refused L"
  using resolve_loop_answer [OF assms] dnsx.resolve_loop_good [OF assms] by (auto simp: transient_def)

text \<open>
  C18: whatever other goroutines do meanwhile and however the network behaves, an answer the
  resolver returns is a valid reply to the client's own question, is neither SERVFAIL nor
  REFUSED, is what the exchange with the last upstream asked reported, and comes with no
  failure.
\<close>

theorem resolve_answer_is_valid:
  assumes "resolve L (Exchange L) T env seen request m = (m', calls, Returned (Some r) failures)"
  shows "valid_reply L request r \<and> d_Rcode r \<noteq> l_ServerFailure L \<and> d_Rcode r \<noteq> l_Refused L \<and>
    failures = [] \<and>
    (\<exists>u t lat. last calls = (u, t) \<and>
       Exchange L (ae_net (env (length calls - 1))) t u request = XResult (Some r) lat None)"
proof -
  obtain cs em where c: "candidates_seen seen m = (cs, em)" by (cases "candidates_seen seen m") auto
  with assms have l: "resolve_loop L (Exchange L) T em env request 0 cs [] (RecordSelectionMode em m) =
    (m', calls, Returned (Some r) failures)" by (simp add: resolve_def)
  from resolve_loop_answer [OF l] resolve_loop_safe [OF l] show ?thesis
    by (cases "last calls") auto
qed

text \<open>
  C19: the order and the time of the attempts, under any interference: the upstreams asked are a
  prefix of the candidates, so no candidate is skipped or asked twice; each attempt gets a
  positive timeout of at most the configured attempt timeout and at most what is left of the
  request's deadline; and the manager stays well-formed.
\<close>

theorem resolve_attempts_in_order:
  assumes "mgr_inv B C m" and "0 < T"
    and "resolve L xchg T env seen request m = (m', calls, result)"
  shows "map fst calls = take (length calls) (fst (candidates_seen seen m)) \<and>
    (\<forall>k < length calls. 0 < snd (calls ! k) \<and> snd (calls ! k) \<le> T \<and>
       (\<forall>remaining. ae_remaining (env k) = Some remaining \<longrightarrow> snd (calls ! k) \<le> remaining)) \<and>
    mgr_inv B C m'"
proof -
  obtain cs em where c: "candidates_seen seen m = (cs, em)" by (cases "candidates_seen seen m") auto
  with assms(3) have l: "resolve_loop L xchg T em env request 0 cs [] (RecordSelectionMode em m) =
    (m', calls, result)" by (simp add: resolve_def)
  have "mgr_inv B C m'" using resolve_loop_inv [OF RecordSelectionMode_inv [OF assms(1)] l] .
  moreover note resolve_loop_calls [OF l]
  ultimately show ?thesis
    using attempt_timeout_bounds [OF _] assms(2) by (fastforce simp: c)
qed

section \<open>Health evidence of a request\<close>

text \<open>
  C30: SERVFAIL and REFUSED pass the request on and say nothing about the upstream's health: an
  undisturbed attempt that gets such a reply leaves the manager exactly as it was and goes on
  to the next candidate.
\<close>

theorem transient_rcode_keeps_health:
  assumes "quiet env" and "mgr_inv B C m" and "slot_free m candidate"
    and "Exchange L (ae_net env) (budget T env) candidate request = XResult (Some r) lat None"
    and "d_Rcode r = l_ServerFailure L \<or> d_Rcode r = l_Refused L"
  shows "attempt L (Exchange L) T emergency env request candidate failures m =
    (m, [(candidate, budget T env)],
     Continue (failures @ [FailRcode (u_Name candidate) (l_RcodeToString L (d_Rcode r))]))"
  using attempt_quiet [where xchg = "Exchange L", OF assms(1) mgr_inv_ptrs_ok [OF assms(2)] assms(3,4)] assms(5)
  by (simp add: transient_def)



section \<open>Slots\<close>

text \<open>
  A saturated upstream holds requests back instead of passing them on. If all slots of the
  first candidate are taken and nobody releases one, the request makes no exchange at all:
  it waits while its context is alive, and fails on the slot once the context has ended,
  even when other candidates are free.
\<close>

lemma saturated_candidate_blocks:
  assumes "mgr_inv B C m" and "candidates_seen seen m = (c # cs, emergency)"
    and "slots_used (u_Name c) m = 16" and "m_byName m (u_Name c) \<noteq> None"
    and "ae_ctxErr (env 0) = None" and "ae_before (env 0) = []"
  shows "resolve L xchg T env seen request m =
    (RecordSelectionMode emergency m, [],
     (case ae_ctxDone (env 0) of None \<Rightarrow> Waiting | Some e \<Rightarrow> Returned None [FailSlot (u_Name c) e]))"
proof -
  from assms(4) obtain p where p: "m_byName m (u_Name c) = Some p" by auto
  have "p < length (m_heap m)" using mgr_inv_byName [OF assms(1) p] by simp
  from mgr_inv_chan [OF assms(1) this] assms(3) p
  have "chan_send (attempts_at m p) = None"
    by (simp add: slots_used_def chan_simps max_attempts_def)
  then show ?thesis
    using assms p by (simp add: resolve_def attempt_def BeginAttemptContext_def Let_def split: option.split)
qed

section \<open>The handler\<close>

lemma attempt_failures:
  assumes "attempt L xchg T em env req c fs m = (m', calls, Leave (Returned None fs'))"
  shows "fs' = [] \<longrightarrow> fs = [] \<and> attempt_timeout T (ae_remaining env) = None"
  using assms by (auto simp: attempt_def Let_def split: attempt_splits)

lemma resolve_loop_failures:
  "resolve_loop L xchg T em env req i cs fs m = (m', calls, Returned None []) \<Longrightarrow>
   fs = [] \<and> (cs = [] \<or> attempt_timeout T (ae_remaining (env i)) = None)"
proof (induction cs arbitrary: i fs m m' calls)
  case (Cons c cs)
  obtain m1 calls1 o1 where a: "attempt L xchg T em (env i) req c fs m = (m1, calls1, o1)"
    by (cases "attempt L xchg T em (env i) req c fs m") auto
  show ?case
  proof (cases o1)
    case (Leave r1)
    with Cons.prems a have "o1 = Leave (Returned None [])" by simp
    with attempt_failures a show ?thesis by fastforce
  next
    case (Continue fs1)
    with Cons.prems a Cons.IH attempt_Continue [of L xchg T em "env i" req c fs m m1 calls1 fs1]
    show ?thesis by (fastforce split: prod.splits)
  qed
qed simp

lemma attempt_no_answer_calls:
  assumes "attempt L xchg T em env req c fs m = (m', calls, Leave (Returned None fs'))"
  shows "calls = []"
  using assms by (auto simp: attempt_def Let_def split: attempt_splits)

text \<open>The loop goes on behind candidates that have all been asked in vain.\<close>

lemma resolve_loop_append:
  assumes "resolve_loop L xchg T em env req i pre fs m = (m1, calls, Returned None fs1)" and "length calls = length pre"
  shows "resolve_loop L xchg T em env req i (pre @ rest) fs m =
    (case resolve_loop L xchg T em env req (i + length pre) rest fs1 m1 of (m2, calls2, r) \<Rightarrow> (m2, calls @ calls2, r))"
  using assms
proof (induction pre arbitrary: i fs m calls)
  case Nil
  then show ?case by (simp split: prod.split)
next
  case (Cons c pre)
  obtain m' calls' o' where a: "attempt L xchg T em (env i) req c fs m = (m', calls', o')"
    by (cases "attempt L xchg T em (env i) req c fs m") auto
  show ?case
  proof (cases o')
    case (Leave r)
    with Cons.prems a attempt_no_answer_calls [of L xchg T em "env i" req c fs m m' calls' fs1] show ?thesis by auto
  next
    case (Continue fs')
    obtain m2 calls2 r2 where l: "resolve_loop L xchg T em env req (Suc i) pre fs' m' = (m2, calls2, r2)"
      by (cases "resolve_loop L xchg T em env req (Suc i) pre fs' m'") auto
    have "length calls' = 1"
      using attempt_calls [OF a] attempt_Continue [OF a [unfolded Continue]] by auto
    with Cons.prems a l Continue have "length calls2 = length pre" "m2 = m1" "r2 = Returned None fs1" "calls = calls' @ calls2"
      by auto
    with Cons.IH [of "Suc i" fs' m' calls2] l a Continue show ?thesis by (simp split: prod.split)
  qed
qed

text \<open>
  C34: a request whose deadline passes between taking a slot and reading the clock keeps the slot
  forever. Let the candidates before \<open>c\<close> have been asked in vain, let \<open>c\<close> have a free slot when the
  request comes to it with its context still alive, and let the deadline have passed when the clock
  is read. Then the resolver makes no further exchange and returns no answer, one more slot of \<open>c\<close>
  is taken afterwards, and the error it returns is only that of the candidates before \<open>c\<close>: if
  \<open>c\<close> is the first candidate, it returns a nil message with a nil error.
\<close>

theorem expired_deadline_leaks_slot:
  assumes "mgr_inv B C m" and "candidates_seen seen m = (pre @ c # post, emergency)"
    and "resolve_loop L xchg T emergency env request 0 pre [] (RecordSelectionMode emergency m) = (m1, calls, Returned None fs)"
    and "length calls = length pre" and "ae_ctxErr (env (length pre)) = None"
    and "ae_ctxDone (env (length pre)) = None \<or> ae_pickSlot (env (length pre))"
    and "slot_free (mgr_run (ae_before (env (length pre))) m1) c"
    and "ae_remaining (env (length pre)) = Some remaining" and "remaining \<le> 0"
  shows "\<exists>m'. resolve L xchg T env seen request m = (m', calls, Returned None fs) \<and>
    slots_used (u_Name c) m' = Suc (slots_used (u_Name c) (mgr_run (ae_before (env (length pre))) m1)) \<and>
    (fs = [] \<longleftrightarrow> pre = [])"
proof -
  let ?env = "env (length pre)"
  let ?m = "mgr_run (ae_before ?env) m1"
  have inv: "mgr_inv B C ?m"
    by (rule mgr_run_inv [OF resolve_loop_inv [OF RecordSelectionMode_inv [OF assms(1)] assms(3)]])
  from assms(7) obtain p where p: "m_byName ?m (u_Name c) = Some p" by (auto simp: slot_free_def)
  have lt: "p < length (m_heap ?m)" using mgr_inv_byName [OF inv p] by simp
  from assms(7) p obtain ch where ch: "chan_send (attempts_at ?m p) = Some ch"
    by (auto simp: slot_free_def slots_used_def slots_limit_def chan_send_def)
  have "attempt L xchg T emergency ?env request c fs m1 = (set_attempts ?m p ch, [], Leave (Returned None fs))"
    using assms(5,6,8,9) p ch
    by (auto simp: attempt_def BeginAttemptContext_def Let_def attempt_timeout_def split: option.split)
  then have "resolve_loop L xchg T emergency env request (length pre) (c # post) fs m1 =
      (set_attempts ?m p ch, [], Returned None fs)" by simp
  then have "resolve L xchg T env seen request m = (set_attempts ?m p ch, calls, Returned None fs)"
    using resolve_loop_append [OF assms(3,4), of "c # post"] by (simp add: resolve_def assms(2))
  moreover have "slots_used (u_Name c) (set_attempts ?m p ch) = Suc (slots_used (u_Name c) ?m)"
    using p lt ch by (simp add: slots_used_def chan_simps)
  moreover have "fs = [] \<longleftrightarrow> pre = []"
  proof
    assume "fs = []"
    with resolve_loop_failures [OF assms(3) [unfolded \<open>fs = []\<close>]] resolve_loop_calls [OF assms(3)] assms(4)
    show "pre = []" by (cases calls) fastforce+
  qed (use assms(3) in simp)
  ultimately show ?thesis by blast
qed

lemma leave_limit_enter:
  assumes "enter rt = Some rt1"
  shows "r_Limit (leave_limit (rt1\<lparr>r_Manager := m\<rparr>)) = r_Limit rt" "r_Limit (leave_limit rt1) = r_Limit rt"
    "r_Config rt1 = r_Config rt" "r_Manager rt1 = r_Manager rt"
    "r_Manager (leave_limit (rt1\<lparr>r_Manager := m\<rparr>)) = m" "r_Manager (leave_limit rt1) = r_Manager rt"
  using assms by (auto simp: enter_def leave_limit_def leave_def chan_simps split: option.splits)

text \<open>
  A request over the limit is answered SERVFAIL and one without a question FORMERR, at once
  and without touching the manager or the limit.
\<close>

lemma handle_rejects:
  "(ch_cap (r_Limit rt) \<le> ch_len (r_Limit rt) \<longrightarrow>
     handle L xchg env seen request rt = (rt, Wrote (Some (failureResponse L request (l_ServerFailure L))))) \<and>
   (ch_len (r_Limit rt) < ch_cap (r_Limit rt) \<and> d_Question request = [] \<longrightarrow>
     handle L xchg env seen request rt = (rt, Wrote (Some (failureResponse L request (l_FormatError L)))))"
  by (auto simp: handle_def enter_def leave_limit_def leave_def chan_send_def chan_recv_def)

text \<open>
  What a client can receive, under any interference. When the handler returns, the place it
  took in the limit is free again, and it has written SERVFAIL, or FORMERR to a request with
  no question, or a valid reply to the client's question that is neither SERVFAIL nor
  REFUSED. It writes a nil message only if the deadline had passed when the first attempt
  read the clock (or there is no upstream at all).
\<close>

lemma handle_writes:
  assumes "handle L (Exchange L) env seen request rt = (rt', Wrote w)"
  shows "r_Limit rt' = r_Limit rt \<and>
    (case w of
       Some r \<Rightarrow> r = failureResponse L request (l_ServerFailure L) \<or>
         d_Question request = [] \<and> r = failureResponse L request (l_FormatError L) \<or>
         valid_reply L request r \<and> d_Rcode r \<noteq> l_ServerFailure L \<and> d_Rcode r \<noteq> l_Refused L
     | None \<Rightarrow> m_entries (r_Manager rt) = [] \<or> (\<exists>remaining \<le> 0. ae_remaining (env 0) = Some remaining))"
proof (cases "enter rt")
  case None
  with assms show ?thesis by (auto simp: handle_def)
next
  case (Some rt1)
  note lim = leave_limit_enter [OF Some]
  obtain cs em where c: "candidates_seen seen (r_Manager rt) = (cs, em)"
    by (cases "candidates_seen seen (r_Manager rt)") auto
  let ?T = "c_AttemptTimeout (r_Config rt)" and ?m = "RecordSelectionMode em (r_Manager rt)"
  show ?thesis
  proof (cases "d_Question request = []")
    case True
    with assms Some lim show ?thesis by (auto simp: handle_def)
  next
    case False
    obtain m calls res where l: "resolve_loop L (Exchange L) ?T em env request 0 cs [] ?m = (m, calls, res)"
      by (cases "resolve_loop L (Exchange L) ?T em env request 0 cs [] ?m") auto
    with assms Some False c lim obtain response failures where res: "res = Returned response failures"
      and w: "w = (if failures \<noteq> [] then Some (failureResponse L request (l_ServerFailure L)) else response)"
      and rt': "rt' = leave_limit (rt1\<lparr>r_Manager := m\<rparr>)"
      by (auto simp: handle_def resolve_def split: resolve_result.splits)
    have "m_entries (r_Manager rt) = [] \<or> (\<exists>remaining \<le> 0. ae_remaining (env 0) = Some remaining)"
      if "response = None" "failures = []"
    proof -
      from l res that have "cs = [] \<or> attempt_timeout ?T (ae_remaining (env 0)) = None"
        using resolve_loop_failures [of L "Exchange L" ?T em env request 0 cs "[]" ?m m calls] by simp
      with candidates_seen_nonempty [of "r_Manager rt" seen] show ?thesis
        by (auto simp: c attempt_timeout_def split: attempt_splits)
    qed
    moreover have "valid_reply L request r \<and> d_Rcode r \<noteq> l_ServerFailure L \<and> d_Rcode r \<noteq> l_Refused L"
      if "response = Some r" for r
      using resolve_loop_safe l unfolding res that by blast
    ultimately show ?thesis by (auto simp: w rt' lim split: option.splits)
  qed
qed

section \<open>Witnesses\<close>

definition sample_env :: "client \<Rightarrow> client attempt_env" where
  "sample_env client =
     \<lparr>ae_ctxErr = None, ae_before = [], ae_ctxDone = None, ae_pickSlot = True, ae_remaining = Some 5,
      ae_net = client, ae_during = [], ae_now = 7\<rparr>"

text \<open>The primary upstream does not answer, the backup does.\<close>

definition primary_fails :: client where
  "primary_fails ctx network endpoint query =
     (if endpoint = ''192.0.2.1:53'' then failing ctx network endpoint query
      else answering False 0 ctx network endpoint query)"

definition sample_seen :: "ptr \<Rightarrow> State" where
  "sample_seen p = s_State (snap_at sample_manager p)"

definition sample_primary :: Upstream where
  "sample_primary = sample_upstream ''primary'' 10 ''192.0.2.1''"

definition sample_backup :: Upstream where
  "sample_backup = sample_upstream ''backup'' 20 ''192.0.2.2''"

definition sample_reply :: dns_msg where
  "sample_reply = sample_query\<lparr>d_Response := True, d_Rcode := 0, d_Truncated := False\<rparr>"

lemma sample_env_quiet: "quiet (sample_env client)"
  by (simp add: quiet_def sample_env_def)

lemma sample_clients_ok:
  "client_ok (ae_net (sample_env primary_fails))" "client_ok (ae_net (sample_env (answering b rc)))"
  by (simp_all add: client_ok_def sample_env_def primary_fails_def failing_def answering_def)

lemma sample_candidates: "candidates_seen sample_seen sample_manager = ([sample_primary, sample_backup], False)"
  by code_simp

lemma sample_free: "\<forall>c \<in> set [sample_primary, sample_backup]. slot_free sample_manager c"
proof -
  have "m_byName sample_manager ''backup'' = Some 1" by code_simp
  moreover have "slots_used ''primary'' sample_manager = 0" "slots_limit ''primary'' sample_manager = 16"
    "slots_used ''backup'' sample_manager = 0" "slots_limit ''backup'' sample_manager = 16"
    by code_simp+
  moreover have "u_Name sample_primary = ''primary''" "u_Name sample_backup = ''backup''" by code_simp+
  ultimately show ?thesis using sample_byName by (simp add: slot_free_def)
qed

lemma sample_exchanges:
  "Exchange sample_lib (ae_net (sample_env primary_fails)) 5 sample_primary sample_query =
     XResult None 3 (Some ''udp exchange with 192.0.2.1:53: timeout'')"
  "Exchange sample_lib (ae_net (sample_env primary_fails)) 5 sample_backup sample_query = XResult (Some sample_reply) 3 None"
  "Exchange sample_lib (ae_net (sample_env (answering False 0))) 5 sample_primary sample_query = XResult (Some sample_reply) 3 None"
  by code_simp+

lemma sample_budget: "budget 9 (sample_env client) = 5"
  by (simp add: budget_def sample_env_def)

lemma sample_reply_final: "\<not> transient sample_lib (d_Rcode sample_reply)"
  by code_simp

lemma sample_resolve:
  "\<exists>m. resolve sample_lib (Exchange sample_lib) 9 (\<lambda>k. sample_env primary_fails) sample_seen sample_query sample_manager =
     (m, [(sample_primary, 5), (sample_backup, 5)], Returned (Some sample_reply) [])"
proof -
  let ?w = "walk sample_lib (Exchange sample_lib) 9 False (\<lambda>k. sample_env primary_fails) sample_query 0 [sample_primary, sample_backup]"
  obtain evs where w: "?w = (evs, [(sample_primary, 5), (sample_backup, 5)], Some sample_reply)"
    by (simp add: sample_budget sample_exchanges sample_reply_final)
  from resolve_walk [OF sample_env_quiet sample_clients_ok(1) sample_manager_inv sample_candidates sample_free w]
  show ?thesis by auto
qed

lemma resolve_refines_walk_witness:
  "\<exists>m. resolve sample_lib (Exchange sample_lib) 9 (\<lambda>k. sample_env primary_fails) sample_seen sample_query sample_manager =
     (m, [(sample_primary, 5), (sample_backup, 5)], Returned (Some sample_reply) [])"
proof -
  let ?w = "walk sample_lib (Exchange sample_lib) 9 False (\<lambda>k. sample_env primary_fails) sample_query 0 [sample_primary, sample_backup]"
  obtain evs where w: "?w = (evs, [(sample_primary, 5), (sample_backup, 5)], Some sample_reply)"
    by (simp add: sample_budget sample_exchanges sample_reply_final)
  from resolve_refines_walk [OF sample_env_quiet sample_clients_ok(1) sample_manager_inv sample_candidates sample_free w]
  show ?thesis by auto
qed

lemma first_usable_candidate_answers_witness:
  "\<exists>m calls. resolve sample_lib (Exchange sample_lib) 9 (\<lambda>k. sample_env primary_fails) sample_seen sample_query sample_manager =
     (m, calls, Returned (Some sample_reply) []) \<and> map fst calls = [sample_primary, sample_backup]"
proof -
  have "\<not> answers sample_lib (Exchange sample_lib (ae_net (sample_env primary_fails)) 5 sample_primary sample_query)"
    by (simp add: sample_exchanges answers_def)
  with first_usable_candidate_answers [OF sample_env_quiet sample_clients_ok(1) sample_manager_inv
      sample_candidates sample_free, of sample_lib 9 sample_query, THEN conjunct1, rule_format,
      of 1 sample_reply 3] sample_reply_final
  show ?thesis by (simp add: sample_budget sample_exchanges)
qed

lemma resolve_answer_is_valid_witness: "valid_reply sample_lib sample_query sample_reply"
proof -
  obtain m where r: "resolve sample_lib (Exchange sample_lib) 9 (\<lambda>k. sample_env primary_fails) sample_seen sample_query
      sample_manager = (m, [(sample_primary, 5), (sample_backup, 5)], Returned (Some sample_reply) [])"
    using sample_resolve by blast
  show ?thesis using resolve_answer_is_valid [OF r] by blast
qed

lemma resolve_attempts_in_order_witness:
  "\<exists>m calls. resolve sample_lib (Exchange sample_lib) 9 (\<lambda>k. sample_env primary_fails) sample_seen sample_query
     sample_manager = (m, calls, Returned (Some sample_reply) []) \<and>
   map fst calls = take (length calls) [sample_primary, sample_backup] \<and> mgr_inv 3 3 m"
proof -
  obtain m where r: "resolve sample_lib (Exchange sample_lib) 9 (\<lambda>k. sample_env primary_fails) sample_seen sample_query
      sample_manager = (m, [(sample_primary, 5), (sample_backup, 5)], Returned (Some sample_reply) [])"
    using sample_resolve by blast
  show ?thesis
    using resolve_attempts_in_order [OF sample_manager_inv _ r] r by (fastforce simp: sample_candidates)
qed

lemma transient_rcode_keeps_health_witness:
  "fst (attempt sample_lib (Exchange sample_lib) 9 False (sample_env (answering False 2)) sample_query sample_primary []
     sample_manager) = sample_manager"
proof -
  let ?env = "sample_env (answering False 2)" and ?r = "sample_reply\<lparr>d_Rcode := 2\<rparr>"
  have x: "Exchange sample_lib (ae_net ?env) (budget 9 ?env) sample_primary sample_query = XResult (Some ?r) 3 None"
    by (simp only: sample_budget) code_simp
  have rc: "d_Rcode ?r = l_ServerFailure sample_lib \<or> d_Rcode ?r = l_Refused sample_lib" by code_simp
  have f: "slot_free sample_manager sample_primary" using sample_free by simp
  show ?thesis using transient_rcode_keeps_health [OF sample_env_quiet sample_manager_inv f x rc] by simp
qed




definition sample_full :: Manager where
  "sample_full = mgr_run (replicate 16 (EvBegin ''primary'')) sample_manager"

lemma saturated_candidate_blocks_witness:
  "resolve sample_lib (Exchange sample_lib) 9 (\<lambda>k. sample_env (answering False 0)) sample_seen sample_query sample_full =
     (RecordSelectionMode False sample_full, [], Waiting)"
proof -
  have i: "mgr_inv 3 3 sample_full" unfolding sample_full_def by (rule mgr_run_inv [OF sample_manager_inv])
  have c: "candidates_seen sample_seen sample_full = ([sample_primary, sample_backup], False)" by code_simp
  have s: "slots_used (u_Name sample_primary) sample_full = 16" by code_simp
  have "m_byName sample_full (u_Name sample_primary) = Some 0" by code_simp
  then have n: "m_byName sample_full (u_Name sample_primary) \<noteq> None" by simp
  show ?thesis
    using saturated_candidate_blocks [OF i c s n, of "\<lambda>k. sample_env (answering False 0)"]
    by (simp add: sample_env_def)
qed

text \<open>The first candidate fails; the deadline passes after the slot of the second has been taken.\<close>

definition sample_late :: "nat \<Rightarrow> client attempt_env" where
  "sample_late k = (sample_env failing)\<lparr>ae_remaining := (if k = 0 then None else Some 0)\<rparr>"

lemma expired_deadline_leaks_slot_witness:
  "\<exists>m' m1 call f. resolve sample_lib (Exchange sample_lib) 9 sample_late sample_seen sample_query sample_manager =
      (m', [call], Returned None [f]) \<and>
    slots_used (u_Name sample_backup) m' = Suc (slots_used (u_Name sample_backup) m1)"
proof -
  let ?l = "resolve_loop sample_lib (Exchange sample_lib) 9 False sample_late sample_query 0 [sample_primary] []
    (RecordSelectionMode False sample_manager)"
  have "snd ?l = ([(sample_primary, 9)], Returned None [FailExchange ''primary'' ''udp exchange with 192.0.2.1:53: timeout''])" by code_simp
  then have l: "?l = (fst ?l, [(sample_primary, 9)], Returned None [FailExchange ''primary'' ''udp exchange with 192.0.2.1:53: timeout''])"
    by (metis prod.collapse)
  have f: "slot_free (mgr_run [] (fst ?l)) sample_backup" by code_simp
  show ?thesis
    using expired_deadline_leaks_slot [OF sample_manager_inv, where pre = "[sample_primary]", OF _ l, where remaining = 0,
        of sample_seen sample_backup "[]"] sample_candidates f
    by (auto simp: sample_late_def sample_env_def)
qed

definition sample_runtime :: Runtime where
  "sample_runtime = newSnapshot sample_config sample_manager"

lemma handle_rejects_witness:
  "handle sample_lib (Exchange sample_lib) (\<lambda>k. sample_env failing) sample_seen (sample_query\<lparr>d_Question := []\<rparr>) sample_runtime =
     (sample_runtime, Wrote (Some (failureResponse sample_lib (sample_query\<lparr>d_Question := []\<rparr>) 1)))"
proof -
  have "ch_len (r_Limit sample_runtime) < ch_cap (r_Limit sample_runtime)" by code_simp
  with handle_rejects [of sample_runtime sample_lib "Exchange sample_lib" "\<lambda>k. sample_env failing" sample_seen
      "sample_query\<lparr>d_Question := []\<rparr>"]
  show ?thesis by (simp add: sample_lib_def)
qed

end
