(* ===== verification/Requests.thy ===== *)
theory Requests
  imports Dnsserver
begin

text \<open>
  The handler of \<open>internal/dnsserver/server.go\<close> once more, now with any number of requests at the
  same time: every atomic operation of a handler (a channel operation, one locked call of the
  manager, one exchange) is one step of a transition system, and the steps of different
  requests interleave in any order. The invariant accounts for every place in the limit and
  every attempt slot. The log lines of a recorded result are part of its step here; that they come
  later in the program only shows in the log (\<open>log_run_core\<close> in the theory on logging).
\<close>

section \<open>States and steps\<close>

text \<open>
  Where a request is: before the limit, inside the resolver, before its deferred receive, or gone.
  \<open>Waiting\<close> is the select of \<open>BeginAttemptContext\<close>, after the check of the context at the
  head of the loop.
\<close>

datatype pc =
    Arrived dns_msg
  | Selecting dns_msg
  | Walking dns_msg bool "Upstream list" "failure list"
  | Waiting dns_msg bool Upstream "Upstream list" "failure list"
  | Holding dns_msg bool Upstream "Upstream list" "failure list" ptr
  | Asking dns_msg bool Upstream "Upstream list" "failure list" ptr duration
  | Recording dns_msg bool Upstream "Upstream list" "failure list" "dns_msg option" duration "string option"
  | Replying "dns_msg option"
  | Finished "dns_msg option"

text \<open>\<open>sy_done\<close> are the requests whose context has ended.\<close>

record system =
  sy_rt :: Runtime
  sy_reqs :: "pc list"
  sy_leaked :: "ptr list"
  sy_done :: "nat set"

fun inside :: "pc \<Rightarrow> bool" where
  "inside (Arrived q) = False"
| "inside (Finished w) = False"
| "inside _ = True"

text \<open>The requests that have a context: from its creation before \<open>resolve\<close> to the end of \<open>resolve\<close>.\<close>

fun has_ctx :: "pc \<Rightarrow> bool" where
  "has_ctx (Arrived q) = False"
| "has_ctx (Selecting q) = False"
| "has_ctx (Replying w) = False"
| "has_ctx (Finished w) = False"
| "has_ctx _ = True"

definition ended :: "system \<Rightarrow> nat \<Rightarrow> ctx_error option" where
  "ended s i = (if i \<in> sy_done s then Some DeadlineExceeded else None)"

fun holds :: "ptr \<Rightarrow> pc \<Rightarrow> bool" where
  "holds p (Holding q em c cs fs p') = (p' = p)"
| "holds p (Asking q em c cs fs p' t) = (p' = p)"
| "holds p _ = False"

definition goto :: "nat \<Rightarrow> pc \<Rightarrow> Runtime \<Rightarrow> system \<Rightarrow> system" where
  "goto i c rt s = s\<lparr>sy_reqs := (sy_reqs s)[i := c], sy_rt := rt\<rparr>"

definition servfail :: "dns_lib \<Rightarrow> dns_msg \<Rightarrow> dns_msg option" where
  "servfail L q = Some (failureResponse L q (l_ServerFailure L))"

definition give_up :: "dns_lib \<Rightarrow> dns_msg \<Rightarrow> failure list \<Rightarrow> dns_msg option" where
  "give_up L q failures = (if failures = [] then None else servfail L q)"

inductive step ::
  "dns_lib \<Rightarrow> ('net \<Rightarrow> duration \<Rightarrow> Upstream \<Rightarrow> dns_msg \<Rightarrow> xresult) \<Rightarrow> system \<Rightarrow> system \<Rightarrow> bool"
  for L xchg where
  arrive: "step L xchg s (s\<lparr>sy_reqs := sy_reqs s @ [Arrived q]\<rparr>)"
| refuse: "\<lbrakk>i < length (sy_reqs s); sy_reqs s ! i = Arrived q; enter (sy_rt s) = None\<rbrakk> \<Longrightarrow>
    step L xchg s (goto i (Finished (servfail L q)) (sy_rt s) s)"
| admit: "\<lbrakk>i < length (sy_reqs s); sy_reqs s ! i = Arrived q; enter (sy_rt s) = Some rt\<rbrakk> \<Longrightarrow>
    step L xchg s (goto i (Selecting q) rt s)"
| no_question: "\<lbrakk>i < length (sy_reqs s); sy_reqs s ! i = Selecting q; d_Question q = []\<rbrakk> \<Longrightarrow>
    step L xchg s (goto i (Replying (Some (failureResponse L q (l_FormatError L)))) (sy_rt s) s)"
| select: "\<lbrakk>i < length (sy_reqs s); sy_reqs s ! i = Selecting q; d_Question q \<noteq> [];
      candidates_seen seen (r_Manager (sy_rt s)) = (cs, em)\<rbrakk> \<Longrightarrow>
    step L xchg s (goto i (Walking q em cs [])
      ((sy_rt s)\<lparr>r_Manager := RecordSelectionMode em (r_Manager (sy_rt s))\<rparr>) s)"
| exhausted: "\<lbrakk>i < length (sy_reqs s); sy_reqs s ! i = Walking q em [] fs\<rbrakk> \<Longrightarrow>
    step L xchg s (goto i (Replying (give_up L q fs)) (sy_rt s) s)"
| ctx_ends: "\<lbrakk>i < length (sy_reqs s); has_ctx (sy_reqs s ! i); i \<notin> sy_done s\<rbrakk> \<Longrightarrow>
    step L xchg s (s\<lparr>sy_done := insert i (sy_done s)\<rparr>)"
| ctx_ended: "\<lbrakk>i < length (sy_reqs s); sy_reqs s ! i = Walking q em (c # cs) fs; ended s i = Some e\<rbrakk> \<Longrightarrow>
    step L xchg s (goto i (Replying (servfail L q)) (sy_rt s) s)"
| wait: "\<lbrakk>i < length (sy_reqs s); sy_reqs s ! i = Walking q em (c # cs) fs; ended s i = None\<rbrakk> \<Longrightarrow>
    step L xchg s (goto i (Waiting q em c cs fs) (sy_rt s) s)"
| no_slot: "\<lbrakk>i < length (sy_reqs s); sy_reqs s ! i = Waiting q em c cs fs;
      BeginAttemptContext (ended s i) pick (u_Name c) (r_Manager (sy_rt s)) \<in> {BeginUnknown, BeginCtx e}\<rbrakk> \<Longrightarrow>
    step L xchg s (goto i (Replying (servfail L q)) (sy_rt s) s)"
| take_slot: "\<lbrakk>i < length (sy_reqs s); sy_reqs s ! i = Waiting q em c cs fs;
      BeginAttemptContext (ended s i) pick (u_Name c) (r_Manager (sy_rt s)) = BeginOk m p\<rbrakk> \<Longrightarrow>
    step L xchg s (goto i (Holding q em c cs fs p) ((sy_rt s)\<lparr>r_Manager := m\<rparr>) s)"
| expired: "\<lbrakk>i < length (sy_reqs s); sy_reqs s ! i = Holding q em c cs fs p; i \<in> sy_done s \<longrightarrow> remaining \<le> 0;
      attempt_timeout (c_AttemptTimeout (r_Config (sy_rt s))) (Some remaining) = None\<rbrakk> \<Longrightarrow>
    step L xchg s ((goto i (Replying (give_up L q fs)) (sy_rt s) s)\<lparr>sy_leaked := p # sy_leaked s\<rparr>)"
| ask: "\<lbrakk>i < length (sy_reqs s); sy_reqs s ! i = Holding q em c cs fs p; i \<in> sy_done s \<longrightarrow> remaining \<le> 0;
      attempt_timeout (c_AttemptTimeout (r_Config (sy_rt s))) (Some remaining) = Some t\<rbrakk> \<Longrightarrow>
    step L xchg s (goto i (Asking q em c cs fs p t) (sy_rt s) s)"
| release: "\<lbrakk>i < length (sy_reqs s); sy_reqs s ! i = Asking q em c cs fs p t;
      xchg net t c q = XResult response lat err; release_attempt p (r_Manager (sy_rt s)) = Some m\<rbrakk> \<Longrightarrow>
    step L xchg s (goto i (Recording q em c cs fs response lat err) ((sy_rt s)\<lparr>r_Manager := m\<rparr>) s)"
| record_failure: "\<lbrakk>i < length (sy_reqs s); sy_reqs s ! i = Recording q em c cs fs response lat (Some e)\<rbrakk> \<Longrightarrow>
    step L xchg s (goto i (Walking q em cs (fs @ [FailExchange (u_Name c) e]))
      ((sy_rt s)\<lparr>r_Manager := RecordFailure (u_Name c) e now (r_Manager (sy_rt s))\<rparr>) s)"
| pass_on: "\<lbrakk>i < length (sy_reqs s); sy_reqs s ! i = Recording q em c cs fs (Some r) lat None; transient L (d_Rcode r)\<rbrakk> \<Longrightarrow>
    step L xchg s (goto i (Walking q em cs (fs @ [FailRcode (u_Name c) (l_RcodeToString L (d_Rcode r))])) (sy_rt s) s)"
| record_success: "\<lbrakk>i < length (sy_reqs s); sy_reqs s ! i = Recording q em c cs fs (Some r) lat None; \<not> transient L (d_Rcode r)\<rbrakk> \<Longrightarrow>
    step L xchg s (goto i (Replying (Some r))
      ((sy_rt s)\<lparr>r_Manager := RecordSuccess (u_Name c) em lat now (r_Manager (sy_rt s))\<rparr>) s)"
| depart: "\<lbrakk>i < length (sy_reqs s); sy_reqs s ! i = Replying w; leave (sy_rt s) = Some rt\<rbrakk> \<Longrightarrow>
    step L xchg s (goto i (Finished w) rt s)"

definition start_system :: "Config \<Rightarrow> Manager \<Rightarrow> system" where
  "start_system cfg m = \<lparr>sy_rt = newSnapshot cfg m, sy_reqs = [], sy_leaked = [], sy_done = {}\<rparr>"

definition reaches ::
  "dns_lib \<Rightarrow> ('net \<Rightarrow> duration \<Rightarrow> Upstream \<Rightarrow> dns_msg \<Rightarrow> xresult) \<Rightarrow> system \<Rightarrow> system \<Rightarrow> bool" where
  "reaches L xchg = (step L xchg)\<^sup>*\<^sup>*"

section \<open>Counting requests\<close>

definition how_many :: "('a \<Rightarrow> bool) \<Rightarrow> 'a list \<Rightarrow> nat" where
  "how_many P xs = length (filter P xs)"

lemma how_many_simps [simp]:
  "how_many P [] = 0" "how_many P (x # xs) = (if P x then 1 else 0) + how_many P xs"
  "how_many P (xs @ ys) = how_many P xs + how_many P ys"
  by (simp_all add: how_many_def)

lemma how_many_update:
  assumes "i < length xs"
  shows "how_many P (xs[i := y]) + (if P (xs ! i) then 1 else 0) = how_many P xs + (if P y then 1 else 0)"
  using assms
proof (induction xs arbitrary: i)
  case (Cons x xs)
  show ?case
  proof (cases i)
    case (Suc j)
    with Cons.IH [of j] Cons.prems show ?thesis by simp
  qed simp
qed simp

lemma how_many_pos: "i < length xs \<Longrightarrow> P (xs ! i) \<Longrightarrow> 0 < how_many P xs"
  by (auto simp: how_many_def filter_empty_conv dest: nth_mem)

section \<open>The invariant\<close>

definition slots_accounted :: "system \<Rightarrow> ptr \<Rightarrow> bool" where
  "slots_accounted s p \<longleftrightarrow>
     ch_len (attempts_at (r_Manager (sy_rt s)) p) = how_many (holds p) (sy_reqs s) + count_list (sy_leaked s) p"

definition system_inv :: "int \<Rightarrow> int \<Rightarrow> nat \<Rightarrow> system \<Rightarrow> bool" where
  "system_inv B C n s \<longleftrightarrow>
     mgr_inv B C (r_Manager (sy_rt s)) \<and> ch_cap (r_Limit (sy_rt s)) = n \<and>
     ch_len (r_Limit (sy_rt s)) = how_many inside (sy_reqs s) \<and> how_many inside (sy_reqs s) \<le> n \<and>
     (\<forall>p < length (m_heap (r_Manager (sy_rt s))). slots_accounted s p) \<and>
     (\<forall>p. \<forall>c \<in> set (sy_reqs s). holds p c \<longrightarrow> p < length (m_heap (r_Manager (sy_rt s))))"

text \<open>
  What one request's move does to the counters, whatever the move: the limit and the slots of
  every entry have to change by exactly what the request gains or gives back.
\<close>

lemma goto_inv:
  assumes "system_inv B C n s" and "i < length (sy_reqs s)" and "mgr_inv B C (r_Manager rt)"
    and "ch_cap (r_Limit rt) = n" and "ch_len (r_Limit rt) \<le> n"
    and "ch_len (r_Limit rt) + (if inside (sy_reqs s ! i) then 1 else 0) =
         ch_len (r_Limit (sy_rt s)) + (if inside c then 1 else 0)"
    and "length (m_heap (r_Manager rt)) = length (m_heap (r_Manager (sy_rt s)))"
    and "\<And>p. p < length (m_heap (r_Manager (sy_rt s))) \<Longrightarrow>
         ch_len (attempts_at (r_Manager rt) p) + (if holds p (sy_reqs s ! i) then 1 else 0) + count_list (sy_leaked s) p =
         ch_len (attempts_at (r_Manager (sy_rt s)) p) + (if holds p c then 1 else 0) + count_list lk p"
    and "\<And>p. holds p c \<Longrightarrow> p < length (m_heap (r_Manager (sy_rt s)))"
  shows "system_inv B C n ((goto i c rt s)\<lparr>sy_leaked := lk\<rparr>)"
proof -
  have "ch_len (r_Limit rt) = how_many inside ((sy_reqs s)[i := c])"
    using how_many_update [OF assms(2), of inside c] assms(1,6) by (simp add: system_inv_def)
  moreover have "ch_len (attempts_at (r_Manager rt) p) = how_many (holds p) ((sy_reqs s)[i := c]) + count_list lk p"
    if "p < length (m_heap (r_Manager rt))" for p
    using how_many_update [OF assms(2), of "holds p" c] assms(1,7) assms(8) [of p] that
    by (simp add: system_inv_def slots_accounted_def)
  moreover have "p < length (m_heap (r_Manager rt))" if "x \<in> set ((sy_reqs s)[i := c])" "holds p x" for p x
  proof -
    from that(1) set_update_subset_insert [of "sy_reqs s" i c] have "x = c \<or> x \<in> set (sy_reqs s)" by blast
    with that(2) assms(1,7,9) show ?thesis by (auto simp: system_inv_def)
  qed
  ultimately show ?thesis
    using assms(3-5) by (auto simp: system_inv_def slots_accounted_def goto_def)
qed

text \<open>A move that neither takes nor gives back anything.\<close>

lemma goto_plain:
  assumes "system_inv B C n s" and "i < length (sy_reqs s)" and "mgr_inv B C (r_Manager rt)"
    and "r_Limit rt = r_Limit (sy_rt s)" and "inside c = inside (sy_reqs s ! i)"
    and "length (m_heap (r_Manager rt)) = length (m_heap (r_Manager (sy_rt s)))"
    and "\<And>p. attempts_at (r_Manager rt) p = attempts_at (r_Manager (sy_rt s)) p"
    and "\<And>p. holds p c = holds p (sy_reqs s ! i)"
  shows "system_inv B C n (goto i c rt s)"
proof -
  have "system_inv B C n ((goto i c rt s)\<lparr>sy_leaked := sy_leaked s\<rparr>)"
  proof (rule goto_inv [OF assms(1,2,3)])
    show "p < length (m_heap (r_Manager (sy_rt s)))" if "holds p c" for p
      using that assms(1,2,8) nth_mem [OF assms(2)] unfolding system_inv_def by blast
  qed (use assms in \<open>auto simp: system_inv_def\<close>)
  then show ?thesis by (simp add: goto_def)
qed

lemma goto_leaked [simp]: "(goto i c rt s)\<lparr>sy_leaked := sy_leaked s\<rparr> = goto i c rt s"
  by (simp add: goto_def)

lemma begin_ok_facts:
  assumes "mgr_inv B C m" and "BeginAttemptContext dn pick n m = BeginOk m' p"
  shows "p < length (m_heap m)" and "length (m_heap m') = length (m_heap m)"
    and "ch_len (attempts_at m' q) = ch_len (attempts_at m q) + (if q = p then 1 else 0)"
proof -
  from assms(2) obtain c where b: "m_byName m n = Some p" "chan_send (attempts_at m p) = Some c" "m' = set_attempts m p c"
    by (auto simp: BeginAttemptContext_def split: option.splits if_splits)
  show p: "p < length (m_heap m)" using mgr_inv_byName [OF assms(1) b(1)] by simp
  show "length (m_heap m') = length (m_heap m)"
    and "ch_len (attempts_at m' q) = ch_len (attempts_at m q) + (if q = p then 1 else 0)"
    using b p by (auto simp: chan_simps)
qed

lemma release_facts:
  assumes "p < length (m_heap m)" and "release_attempt p m = Some m'"
  shows "length (m_heap m') = length (m_heap m)"
    and "ch_len (attempts_at m q) = ch_len (attempts_at m' q) + (if q = p then 1 else 0)"
  using assms by (auto simp: release_attempt_def chan_simps split: option.splits)

lemma enter_facts:
  "enter rt = Some rt' \<Longrightarrow> r_Manager rt' = r_Manager rt \<and> ch_cap (r_Limit rt') = ch_cap (r_Limit rt) \<and>
     ch_len (r_Limit rt') = Suc (ch_len (r_Limit rt)) \<and> ch_len (r_Limit rt) < ch_cap (r_Limit rt)"
  "leave rt = Some rt' \<Longrightarrow> r_Manager rt' = r_Manager rt \<and> ch_cap (r_Limit rt') = ch_cap (r_Limit rt) \<and>
     Suc (ch_len (r_Limit rt')) = ch_len (r_Limit rt)"
  by (auto simp: enter_def leave_def chan_simps split: option.splits)

lemma step_inv:
  assumes "step L xchg s s'" and "system_inv B C n s"
  shows "system_inv B C n s'"
  using assms
proof (induction rule: step.induct)
  case (arrive s q)
  then show ?case by (auto simp: system_inv_def slots_accounted_def)
next
  case (ctx_ends i s)
  then show ?case by (simp add: system_inv_def slots_accounted_def)
next
  case (admit i s q rt)
  have "system_inv B C n ((goto i (Selecting q) rt s)\<lparr>sy_leaked := sy_leaked s\<rparr>)"
    using admit enter_facts(1) [OF admit(3)] by (intro goto_inv) (auto simp: system_inv_def)
  then show ?case by simp
next
  case (take_slot i s q em c cs fs pick m p)
  have inv: "mgr_inv B C (r_Manager (sy_rt s))" using take_slot(4) by (simp add: system_inv_def)
  note f = begin_ok_facts [OF inv take_slot(3)]
  have "system_inv B C n ((goto i (Holding q em c cs fs p) ((sy_rt s)\<lparr>r_Manager := m\<rparr>) s)\<lparr>sy_leaked := sy_leaked s\<rparr>)"
    using take_slot f BeginAttemptContext_inv [OF inv take_slot(3)]
    by (intro goto_inv) (auto simp: system_inv_def)
  then show ?case by simp
next
  case (expired i s q em c cs fs p remaining)
  then show ?case by (intro goto_inv) (auto simp: system_inv_def)
next
  case (release i s q em c cs fs p t net response lat err m)
  have p: "p < length (m_heap (r_Manager (sy_rt s)))"
    using release(1,2,5) nth_mem [OF release(1)] unfolding system_inv_def by (metis holds.simps(2))
  have inv: "mgr_inv B C (r_Manager (sy_rt s))" using release(5) by (simp add: system_inv_def)
  note f = release_facts [OF p release(4)]
  have "system_inv B C n ((goto i (Recording q em c cs fs response lat err) ((sy_rt s)\<lparr>r_Manager := m\<rparr>) s)\<lparr>sy_leaked := sy_leaked s\<rparr>)"
    using release(1-3,5) release_attempt_inv [OF inv release(4)] by (intro goto_inv) (auto simp: system_inv_def f)
  then show ?case by simp
next
  case (depart i s w rt)
  have "system_inv B C n ((goto i (Finished w) rt s)\<lparr>sy_leaked := sy_leaked s\<rparr>)"
    using depart enter_facts(2) [OF depart(3)] by (intro goto_inv) (auto simp: system_inv_def)
  then show ?case by simp
qed (intro goto_plain; auto simp: system_inv_def intro!: wf_intros)+

lemma reaches_inv: "reaches L xchg s s' \<Longrightarrow> system_inv B C n s \<Longrightarrow> system_inv B C n s'"
  unfolding reaches_def by (induction rule: rtranclp_induct) (auto intro: step_inv)

lemma start_inv:
  assumes "mgr_inv B C m" and "\<And>p. p < length (m_heap m) \<Longrightarrow> ch_len (attempts_at m p) = 0"
  shows "system_inv B C (nat (c_MaxConcurrent cfg)) (start_system cfg m)"
  using assms by (simp add: system_inv_def start_system_def slots_accounted_def)

lemma started_inv:
  assumes "distinct (map u_Name us)" and "ft \<le> max_int64" and "rt \<le> max_int64"
    and "reaches L xchg (start_system cfg (NewManager us ft rt lg)) s"
  shows "system_inv ft rt (nat (c_MaxConcurrent cfg)) s"
  by (rule reaches_inv [OF assms(4) start_inv]) (use assms(1-3) in \<open>auto intro: NewManager_inv\<close>)

lemma begin_frame:
  "BeginAttemptContext dn pick n m = BeginOk m' p \<Longrightarrow> m_byName m' = m_byName m \<and> length (m_heap m') = length (m_heap m)"
  "release_attempt p m = Some m' \<Longrightarrow> m_byName m' = m_byName m \<and> length (m_heap m') = length (m_heap m)"
  by (auto simp: BeginAttemptContext_def release_attempt_def split: option.splits if_splits)

lemma step_frame:
  assumes "step L xchg s s'"
  shows "m_byName (r_Manager (sy_rt s')) = m_byName (r_Manager (sy_rt s)) \<and>
    length (m_heap (r_Manager (sy_rt s'))) = length (m_heap (r_Manager (sy_rt s)))"
  using assms by cases (auto simp: goto_def dest: begin_frame enter_facts)

lemma reaches_frame:
  "reaches L xchg s s' \<Longrightarrow> m_byName (r_Manager (sy_rt s')) = m_byName (r_Manager (sy_rt s)) \<and>
    length (m_heap (r_Manager (sy_rt s'))) = length (m_heap (r_Manager (sy_rt s)))"
  unfolding reaches_def by (induction rule: rtranclp_induct) (auto dest: step_frame)

section \<open>What holds of every interleaving\<close>

text \<open>
  C9: the two resource bounds, for any number of concurrent requests in any interleaving: never
  more than the configured number of requests are being resolved, never more than sixteen
  attempts run against one upstream, and the taken slots of an upstream are exactly those of
  its running attempts and those lost to an expired deadline.
\<close>

theorem concurrent_requests_bounded:
  assumes "distinct (map u_Name us)" and "ft \<le> max_int64" and "rt \<le> max_int64"
    and "reaches L xchg (start_system cfg (NewManager us ft rt lg)) s"
  shows "how_many inside (sy_reqs s) \<le> nat (c_MaxConcurrent cfg) \<and>
    (\<forall>p < length us. how_many (holds p) (sy_reqs s) \<le> 16 \<and>
       slots_used (u_Name (us ! p)) (r_Manager (sy_rt s)) = how_many (holds p) (sy_reqs s) + count_list (sy_leaked s) p)"
proof -
  have inv: "system_inv ft rt (nat (c_MaxConcurrent cfg)) s" using started_inv [OF assms] .
  have frame: "m_byName (r_Manager (sy_rt s)) = m_byName (NewManager us ft rt lg) \<and>
      length (m_heap (r_Manager (sy_rt s))) = length us"
    using reaches_frame [OF assms(4)] by (simp add: start_system_def newSnapshot_def)
  have "how_many (holds p) (sy_reqs s) \<le> 16 \<and>
      slots_used (u_Name (us ! p)) (r_Manager (sy_rt s)) = how_many (holds p) (sy_reqs s) + count_list (sy_leaked s) p"
    if "p < length us" for p
  proof -
    have m: "mgr_inv ft rt (r_Manager (sy_rt s))" and a: "slots_accounted s p"
      using inv frame that by (simp_all add: system_inv_def)
    have "m_byName (r_Manager (sy_rt s)) (u_Name (us ! p)) = Some p"
      using that by (simp add: frame NewManager_byName [OF assms(1)])
    with mgr_inv_chan [OF m, of p] a that frame show ?thesis
      by (simp add: slots_accounted_def slots_used_def max_attempts_def)
  qed
  with inv show ?thesis by (auto simp: system_inv_def)
qed

lemma release_enabled:
  assumes "system_inv B C n s" and "i < length (sy_reqs s)" and "holds p (sy_reqs s ! i)"
  shows "release_attempt p (r_Manager (sy_rt s)) \<noteq> None"
proof -
  have "p < length (m_heap (r_Manager (sy_rt s)))"
    using assms(1,3) nth_mem [OF assms(2)] unfolding system_inv_def by blast
  with assms(1) have "slots_accounted s p" by (simp add: system_inv_def)
  with how_many_pos [where P = "holds p", OF assms(2,3)] show ?thesis
    by (simp add: slots_accounted_def release_attempt_def chan_recv_def split: option.split)
qed

lemma leave_enabled:
  assumes "system_inv B C n s" and "i < length (sy_reqs s)" and "inside (sy_reqs s ! i)"
  shows "leave (sy_rt s) \<noteq> None"
  using assms(1) how_many_pos [OF assms(2), of inside] assms(3)
  by (simp add: system_inv_def leave_def chan_recv_def split: option.split)

text \<open>
  No request blocks on giving back what it holds. In every reachable state, the release of a
  slot by a request that holds it and the deferred receive from the limit go through at once.
\<close>

lemma giving_back_never_blocks:
  assumes "distinct (map u_Name us)" and "ft \<le> max_int64" and "rt \<le> max_int64"
    and "reaches L xchg (start_system cfg (NewManager us ft rt lg)) s" and "i < length (sy_reqs s)"
  shows "(\<forall>p. holds p (sy_reqs s ! i) \<longrightarrow> release_attempt p (r_Manager (sy_rt s)) \<noteq> None) \<and>
    (inside (sy_reqs s ! i) \<longrightarrow> leave (sy_rt s) \<noteq> None)"
  using release_enabled [OF started_inv [OF assms(1-4)] assms(5)] leave_enabled [OF started_inv [OF assms(1-4)] assms(5)] by blast

lemma leaked_grows: "reaches L xchg s s' \<Longrightarrow> count_list (sy_leaked s) p \<le> count_list (sy_leaked s') p"
  unfolding reaches_def
proof (induction rule: rtranclp_induct)
  case (step y z)
  have "count_list (sy_leaked y) p \<le> count_list (sy_leaked z) p"
    using step(2) by cases (auto simp: goto_def)
  with step.IH show ?case by (rule le_trans)
qed simp

text \<open>
  C33: sixteen requests whose deadline passes at the wrong moment disable an upstream for good.
  Once sixteen slots of an upstream are lost, then in every later state an attempt to take a
  slot of it blocks until the request's own context ends.
\<close>

theorem leaked_slots_disable_upstream:
  assumes "distinct (map u_Name us)" and "ft \<le> max_int64" and "rt \<le> max_int64"
    and "reaches L xchg (start_system cfg (NewManager us ft rt lg)) s"
    and "p < length us" and "count_list (sy_leaked s) p = 16" and "reaches L xchg s s'"
  shows "BeginAttemptContext dn pick (u_Name (us ! p)) (r_Manager (sy_rt s')) =
    (case dn of None \<Rightarrow> BeginBlocked | Some e \<Rightarrow> BeginCtx e)"
proof -
  have r: "reaches L xchg (start_system cfg (NewManager us ft rt lg)) s'"
    using assms(4,7) unfolding reaches_def by (rule rtranclp_trans)
  note inv = started_inv [OF assms(1-3) r]
  have frame: "m_byName (r_Manager (sy_rt s')) = m_byName (NewManager us ft rt lg) \<and>
      length (m_heap (r_Manager (sy_rt s'))) = length us"
    using reaches_frame [OF r] by (simp add: start_system_def newSnapshot_def)
  have m: "mgr_inv ft rt (r_Manager (sy_rt s'))" and a: "slots_accounted s' p"
    using inv frame assms(5) by (simp_all add: system_inv_def)
  have "16 \<le> count_list (sy_leaked s') p" using leaked_grows [OF assms(7), of p] assms(6) by simp
  with a mgr_inv_chan [OF m, of p] assms(5) frame
  have "chan_send (attempts_at (r_Manager (sy_rt s')) p) = None"
    by (simp add: slots_accounted_def chan_simps max_attempts_def)
  moreover have "m_byName (r_Manager (sy_rt s')) (u_Name (us ! p)) = Some p"
    using assms(5) by (simp add: frame NewManager_byName [OF assms(1)])
  ultimately show ?thesis by (simp add: BeginAttemptContext_def split: option.split)
qed

section \<open>Every request comes to an end\<close>

lemma goto_simps [simp]:
  "sy_reqs (goto i c rt s) = (sy_reqs s)[i := c]" "sy_rt (goto i c rt s) = rt" "sy_leaked (goto i c rt s) = sy_leaked s"
  "sy_done (goto i c rt s) = sy_done s"
  by (simp_all add: goto_def)

text \<open>
  How many steps a request can still make, with \<open>n\<close> upstreams: at most five for every candidate
  it has not tried yet. Besides, its context can end once.
\<close>

fun rank :: "nat \<Rightarrow> pc \<Rightarrow> nat" where
  "rank n (Arrived q) = 5 * n + 4"
| "rank n (Selecting q) = 5 * n + 3"
| "rank n (Walking q em cs fs) = 5 * length cs + 2"
| "rank n (Waiting q em c cs fs) = 5 * length cs + 6"
| "rank n (Holding q em c cs fs p) = 5 * length cs + 5"
| "rank n (Asking q em c cs fs p t) = 5 * length cs + 4"
| "rank n (Recording q em c cs fs response lat err) = 5 * length cs + 3"
| "rank n (Replying w) = 1"
| "rank n (Finished w) = 0"

definition steps_left :: "nat \<Rightarrow> system \<Rightarrow> nat" where
  "steps_left n s = sum_list (map (rank n) (sy_reqs s)) + card ({..<length (sy_reqs s)} - sy_done s)"

lemma sum_list_map_update:
  fixes f :: "'a \<Rightarrow> nat"
  shows "i < length xs \<Longrightarrow> sum_list (map f (xs[i := y])) + f (xs ! i) = sum_list (map f xs) + f y"
proof (induction xs arbitrary: i)
  case (Cons x xs)
  then show ?case by (cases i) auto
qed simp

lemma goto_steps_left:
  assumes "i < length (sy_reqs s)" and "rank n c < rank n (sy_reqs s ! i)"
  shows "length (sy_reqs (goto i c rt s)) = length (sy_reqs s) \<and> steps_left n (goto i c rt s) < steps_left n s"
  using sum_list_map_update [OF assms(1), of "rank n" c] assms(2) by (simp add: steps_left_def goto_def)

lemma candidates_length:
  assumes "mgr_inv B C m" and "candidates_seen seen m = (cs, em)"
  shows "length cs \<le> length (m_heap m)"
proof -
  have shape: "distinct (m_entries m)" "set (m_entries m) = {..<length (m_heap m)}"
    using assms(1) by (simp_all add: mgr_inv_def mgr_shape_def)
  have "length (m_entries m) = card (set (m_entries m))" using shape(1) by (simp only: distinct_card)
  also have "\<dots> = length (m_heap m)" by (simp add: shape(2))
  finally show ?thesis
    using assms(2) length_filter_le [of "\<lambda>p. eligible (seen p)" "m_entries m"]
    by (auto simp: candidates_seen_cases split: if_splits)
qed

text \<open>Every step either lets a new request in or brings one of the requests closer to its end.\<close>

lemma step_decreases:
  assumes "step L xchg s s'" and "system_inv B C k s" and "n = length (m_heap (r_Manager (sy_rt s)))"
  shows "(\<exists>q. s' = s\<lparr>sy_reqs := sy_reqs s @ [Arrived q]\<rparr>) \<or>
    length (sy_reqs s') = length (sy_reqs s) \<and> steps_left n s' < steps_left n s"
  using assms(1)
proof cases
  case (select i q seen cs em)
  have "mgr_inv B C (r_Manager (sy_rt s))" using assms(2) by (simp add: system_inv_def)
  then have "length cs \<le> n" using candidates_length [OF _ select(5)] assms(3) by simp
  with select show ?thesis using goto_steps_left [OF select(2), of n "Walking q em cs []"] by simp
next
  case (expired i q em c cs fs p remaining)
  then show ?thesis
    using goto_steps_left [of i s n "Replying (give_up L q fs)"] by (simp add: steps_left_def)
next
  case (ctx_ends i)
  have "{..<length (sy_reqs s)} - insert i (sy_done s) \<subset> {..<length (sy_reqs s)} - sy_done s" using ctx_ends by auto
  then have "card ({..<length (sy_reqs s)} - insert i (sy_done s)) < card ({..<length (sy_reqs s)} - sy_done s)"
    by (intro psubset_card_mono) simp_all
  with ctx_ends(1) show ?thesis by (simp add: steps_left_def)
qed (auto intro!: goto_steps_left [THEN conjunct2])

lemma steps_bound:
  assumes "(step L xchg ^^ k) s0 s" and "system_inv B C c s0" and "n = length (m_heap (r_Manager (sy_rt s0)))"
    and "sy_reqs s0 = []"
  shows "k + steps_left n s \<le> length (sy_reqs s) * (5 * n + 6)"
  using assms(1)
proof (induction k arbitrary: s)
  case 0
  with assms(4) show ?case by (simp add: steps_left_def)
next
  case (Suc k)
  then obtain t where t: "(step L xchg ^^ k) s0 t" "step L xchg t s" by auto
  have r: "reaches L xchg s0 t" unfolding reaches_def using t(1) by (rule relpowp_imp_rtranclp)
  have "system_inv B C c t" "n = length (m_heap (r_Manager (sy_rt t)))"
    using reaches_inv [OF r assms(2)] reaches_frame [OF r] assms(3) by simp_all
  from step_decreases [OF t(2) this] show ?case
  proof
    assume "\<exists>q. s = t\<lparr>sy_reqs := sy_reqs t @ [Arrived q]\<rparr>"
    moreover have "card ({..<Suc k} - D) \<le> Suc (card ({..<k} - D))" for k and D :: "nat set"
      by (simp add: lessThan_Suc insert_Diff_if card_insert_if)
    from this [of "length (sy_reqs t)" "sy_done t"] Suc.IH [OF t(1)] have
      "Suc k + (steps_left n t - card ({..<length (sy_reqs t)} - sy_done t) + (5 * n + 4) +
         card ({..<Suc (length (sy_reqs t))} - sy_done t)) \<le> Suc (length (sy_reqs t)) * (5 * n + 6)"
      by (simp add: steps_left_def)
    ultimately show ?thesis by (auto simp: steps_left_def)
  qed (use Suc.IH [OF t(1)] in simp)
qed

text \<open>
  C12: the resolver always terminates. In any interleaving of any number of requests, the number of
  steps made, the ends of the requests' contexts included, is at most \<open>5 * n + 6\<close> per request that
  arrived, with \<open>n\<close> upstreams: no request retries for ever, and once no new requests arrive the steps
  run out.
\<close>

theorem resolver_steps_bounded:
  assumes "distinct (map u_Name us)" and "ft \<le> max_int64" and "rt \<le> max_int64"
    and "(step L xchg ^^ k) (start_system cfg (NewManager us ft rt lg)) s"
  shows "k \<le> length (sy_reqs s) * (5 * length us + 6)"
proof -
  have "system_inv ft rt (nat (c_MaxConcurrent cfg)) (start_system cfg (NewManager us ft rt lg))"
    by (rule start_inv) (use assms(1-3) in \<open>auto intro: NewManager_inv\<close>)
  from steps_bound [OF assms(4) this refl] show ?thesis by (simp add: start_system_def newSnapshot_def)
qed

definition finished :: "pc \<Rightarrow> bool" where
  "finished c \<longleftrightarrow> (\<exists>w. c = Finished w)"

text \<open>An exchange without an error has a reply, so a request is never stuck with neither.\<close>

definition recorded_ok :: "pc \<Rightarrow> bool" where
  "recorded_ok c \<longleftrightarrow> (case c of Recording q em u cs fs response lat err \<Rightarrow> err = None \<longrightarrow> response \<noteq> None | _ \<Rightarrow> True)"

lemma step_recorded:
  assumes "step L (Exchange L) s s'" and "list_all recorded_ok (sy_reqs s)"
  shows "list_all recorded_ok (sy_reqs s')"
proof -
  have upd: "list_all recorded_ok (xs[i := c])" if "list_all recorded_ok xs" "recorded_ok c" for xs i c
    using that by (auto simp: list_all_iff dest!: set_update_subset_insert [THEN subsetD])
  show ?thesis
    using assms
  proof cases
    case (release i q em c cs fs p t net response lat err m)
    have "recorded_ok (Recording q em c cs fs response lat err)"
      using Exchange_cases [OF release(4)] by (auto simp: recorded_ok_def)
    with release assms(2) show ?thesis by (simp add: goto_def upd)
  qed (use assms(2) in \<open>auto simp: goto_def recorded_ok_def intro!: upd\<close>)
qed

lemma reaches_recorded:
  "reaches L (Exchange L) s s' \<Longrightarrow> list_all recorded_ok (sy_reqs s) \<Longrightarrow> list_all recorded_ok (sy_reqs s')"
  unfolding reaches_def by (induction rule: rtranclp_induct) (auto intro: step_recorded)

text \<open>A request makes a move that brings it closer to its end.\<close>

definition moves :: "dns_lib \<Rightarrow> nat \<Rightarrow> nat \<Rightarrow> system \<Rightarrow> bool" where
  "moves L n i s \<longleftrightarrow> (\<exists>s'. step L (Exchange L) s s' \<and> length (sy_reqs s') = length (sy_reqs s) \<and>
     rank n (sy_reqs s' ! i) < rank n (sy_reqs s ! i))"

lemma movesI:
  assumes "step L (Exchange L) s (goto i c rt s)" and "i < length (sy_reqs s)" and "rank n c < rank n (sy_reqs s ! i)"
  shows "moves L n i s"
  unfolding moves_def by (rule exI, rule conjI [OF assms(1)]) (use assms(2,3) in \<open>simp add: goto_def\<close>)

lemma arrived_moves:
  assumes "i < length (sy_reqs s)" and "sy_reqs s ! i = Arrived q"
  shows "moves L n i s"
proof (cases "enter (sy_rt s)")
  case None
  from movesI [OF step.refuse [OF assms None] assms(1)] assms show ?thesis by simp
next
  case (Some rt)
  from movesI [OF step.admit [OF assms Some] assms(1)] assms show ?thesis by simp
qed

lemma selecting_moves:
  assumes "system_inv B C k s" and "i < length (sy_reqs s)" and "sy_reqs s ! i = Selecting q"
    and "n = length (m_heap (r_Manager (sy_rt s)))"
  shows "moves L n i s"
proof (cases "d_Question q = []")
  case True
  from movesI [OF step.no_question [OF assms(2,3) True] assms(2)] assms(3) show ?thesis by simp
next
  case False
  obtain cs em where c: "candidates_seen (\<lambda>_. Unknown) (r_Manager (sy_rt s)) = (cs, em)"
    by (cases "candidates_seen (\<lambda>_. Unknown) (r_Manager (sy_rt s))")
  have "mgr_inv B C (r_Manager (sy_rt s))" using assms(1) by (simp add: system_inv_def)
  then have "length cs \<le> n" using candidates_length [OF _ c] assms(4) by simp
  with movesI [OF step.select [OF assms(2,3) False c] assms(2)] assms(3) show ?thesis by simp
qed

lemma holding_moves:
  assumes "i < length (sy_reqs s)" and "sy_reqs s ! i = Holding q em c cs fs p"
  shows "moves L n i s"
proof -
  have "attempt_timeout (c_AttemptTimeout (r_Config (sy_rt s))) (Some 0) = None" by (simp add: attempt_timeout_def)
  then have "step L (Exchange L) s ((goto i (Replying (give_up L q fs)) (sy_rt s) s)\<lparr>sy_leaked := p # sy_leaked s\<rparr>)"
    by (intro step.expired [OF assms, of 0]) simp_all
  with assms show ?thesis unfolding moves_def by (intro exI conjI) (assumption, simp_all add: goto_def)
qed

lemma asking_moves:
  assumes "system_inv B C k s" and "i < length (sy_reqs s)" and "sy_reqs s ! i = Asking q em c cs fs p t"
  shows "moves L n i s"
proof -
  let ?net = "(\<lambda>_ _ _ _. (None, 0, Some ''timeout'')) :: client"
  obtain response lat err where x: "Exchange L ?net t c q = XResult response lat err"
    using Exchange_no_panic [of ?net L t c q] by (cases "Exchange L ?net t c q") (auto simp: client_ok_def)
  obtain m where "release_attempt p (r_Manager (sy_rt s)) = Some m"
    using release_enabled [OF assms(1,2), of p] assms(3) by auto
  from movesI [OF step.release [where xchg = "Exchange L" and net = ?net, OF assms(2,3) x this] assms(2)] assms(3) show ?thesis by simp
qed

lemma recording_moves:
  assumes "recorded_ok (sy_reqs s ! i)" and "i < length (sy_reqs s)"
    and "sy_reqs s ! i = Recording q em c cs fs response lat err"
  shows "moves L n i s"
proof (cases err)
  case (Some e)
  from movesI [OF step.record_failure [OF assms(2), of q em c cs fs response lat e L "Exchange L" 0] assms(2)] assms(3) Some
  show ?thesis by simp
next
  case None
  with assms(1,3) obtain r where "response = Some r" by (auto simp: recorded_ok_def)
  with assms(3) None have pc: "sy_reqs s ! i = Recording q em c cs fs (Some r) lat None" by simp
  show ?thesis
  proof (cases "transient L (d_Rcode r)")
    case True
    from movesI [OF step.pass_on [OF assms(2) pc True] assms(2)] pc show ?thesis by simp
  next
    case False
    from movesI [OF step.record_success [OF assms(2) pc False, of "Exchange L" 0] assms(2)] pc show ?thesis by simp
  qed
qed

lemma replying_moves:
  assumes "system_inv B C k s" and "i < length (sy_reqs s)" and "sy_reqs s ! i = Replying w"
  shows "moves L n i s"
proof -
  obtain rt where "leave (sy_rt s) = Some rt" using leave_enabled [OF assms(1,2)] assms(3) by auto
  from movesI [OF step.depart [OF assms(2,3) this] assms(2)] assms(3) show ?thesis by simp
qed

text \<open>
  A request waits in the select only while its context lasts and all sixteen slots of its candidate
  are taken.
\<close>

definition blocked :: "nat \<Rightarrow> ptr \<Rightarrow> system \<Rightarrow> bool" where
  "blocked i p s \<longleftrightarrow> (\<exists>q em c cs fs. sy_reqs s ! i = Waiting q em c cs fs \<and>
     m_byName (r_Manager (sy_rt s)) (u_Name c) = Some p) \<and> i \<notin> sy_done s \<and>
     how_many (holds p) (sy_reqs s) + count_list (sy_leaked s) p = 16"

lemma waiting_moves:
  assumes "i < length (sy_reqs s)" and "sy_reqs s ! i = Waiting q em c cs fs"
    and "BeginAttemptContext (ended s i) True (u_Name c) (r_Manager (sy_rt s)) \<noteq> BeginBlocked"
  shows "moves L n i s"
proof (cases "BeginAttemptContext (ended s i) True (u_Name c) (r_Manager (sy_rt s))")
  case (BeginOk m p)
  from movesI [OF step.take_slot [OF assms(1,2) BeginOk] assms(1)] assms(2) show ?thesis by simp
next
  case BeginUnknown
  from movesI [OF step.no_slot [OF assms(1,2), of True DeadlineExceeded] assms(1)] assms(2) BeginUnknown
  show ?thesis by simp
next
  case (BeginCtx e)
  from movesI [OF step.no_slot [OF assms(1,2), of True e] assms(1)] assms(2) BeginCtx show ?thesis by simp
qed (use assms(3) in simp)

lemma ended_waiting_moves:
  assumes "i < length (sy_reqs s)" and "sy_reqs s ! i = Waiting q em c cs fs" and "i \<in> sy_done s"
  shows "moves L n i s"
  by (rule waiting_moves [OF assms(1,2)])
    (use assms(3) in \<open>simp add: BeginAttemptContext_def ended_def split: option.split\<close>)

lemma waiting_blocked:
  assumes "system_inv B C k s" and "i < length (sy_reqs s)" and "sy_reqs s ! i = Waiting q em c cs fs"
    and "\<not> moves L n i s"
  shows "\<exists>p. blocked i p s"
proof -
  let ?m = "r_Manager (sy_rt s)"
  have m: "mgr_inv B C ?m" using assms(1) by (simp add: system_inv_def)
  from assms(4) have "BeginAttemptContext (ended s i) True (u_Name c) ?m = BeginBlocked"
    using waiting_moves [OF assms(2,3)] by blast
  then obtain p where p: "m_byName ?m (u_Name c) = Some p" "chan_send (attempts_at ?m p) = None" "ended s i = None"
    by (auto simp: BeginAttemptContext_def split: option.splits if_splits)
  have h: "p < length (m_heap ?m)" using mgr_inv_byName [OF m p(1)] by simp
  then have "slots_accounted s p" using assms(1) by (simp add: system_inv_def)
  with mgr_inv_chan [OF m h] p(2) have "how_many (holds p) (sy_reqs s) + count_list (sy_leaked s) p = 16"
    by (simp add: slots_accounted_def chan_simps max_attempts_def)
  with p assms(3) show ?thesis by (auto simp: blocked_def ended_def split: if_splits)
qed

lemma unfinished_moves:
  assumes "system_inv B C k s" and "list_all recorded_ok (sy_reqs s)" and "i < length (sy_reqs s)"
    and "n = length (m_heap (r_Manager (sy_rt s)))" and "\<not> finished (sy_reqs s ! i)"
  shows "moves L n i s \<or> (\<exists>p. blocked i p s)"
proof (cases "sy_reqs s ! i")
  case (Walking q em cs fs)
  show ?thesis
  proof (cases cs)
    case Nil
    with Walking have pc: "sy_reqs s ! i = Walking q em [] fs" by simp
    from movesI [OF step.exhausted [OF assms(3) pc] assms(3)] pc show ?thesis by simp
  next
    case (Cons c cs')
    with Walking have pc: "sy_reqs s ! i = Walking q em (c # cs') fs" by simp
    show ?thesis
    proof (cases "ended s i")
      case None
      from movesI [OF step.wait [OF assms(3) pc None] assms(3)] pc show ?thesis by simp
    next
      case (Some e)
      from movesI [OF step.ctx_ended [OF assms(3) pc Some] assms(3)] pc show ?thesis by simp
    qed
  qed
next
  case (Waiting q em c cs fs)
  from waiting_blocked [OF assms(1,3) this] show ?thesis by blast
next
  case (Recording q em c cs fs response lat err)
  with assms(2,3) show ?thesis by (intro disjI1 recording_moves) (auto simp: list_all_length)
qed (use assms in \<open>auto simp: finished_def intro: arrived_moves selecting_moves holding_moves asking_moves replying_moves\<close>)

lemma holder_moves:
  assumes "system_inv B C k s" and "0 < how_many (holds p) (sy_reqs s)"
  shows "\<exists>j < length (sy_reqs s). holds p (sy_reqs s ! j) \<and> moves L n j s"
proof -
  from assms(2) obtain j where j: "j < length (sy_reqs s)" "holds p (sy_reqs s ! j)"
    by (auto simp: how_many_def filter_empty_conv in_set_conv_nth)
  have "moves L n j s"
    using j holding_moves [OF j(1)] asking_moves [OF assms(1) j(1)] by (cases "sy_reqs s ! j") auto
  with j show ?thesis by blast
qed

text \<open>
  C13: no request gets stuck. In every reachable state, every request that has not been answered
  has a step of its own that brings it closer to its end, unless its context has not ended
  and all sixteen slots of the candidate it waits for are taken. Such a request goes on once
  its context ends; and as long as one of the sixteen slots is not lost but held by a
  request, such a request has a step of its own. Together with the bound on the steps, every
  request whose context ends is answered.
\<close>

theorem requests_never_stuck:
  assumes "distinct (map u_Name us)" and "ft \<le> max_int64" and "rt \<le> max_int64"
    and "reaches L (Exchange L) (start_system cfg (NewManager us ft rt lg)) s"
    and "i < length (sy_reqs s)" and "\<not> finished (sy_reqs s ! i)"
  shows "moves L (length us) i s \<or>
    (\<exists>p. blocked i p s \<and> moves L (length us) i (s\<lparr>sy_done := insert i (sy_done s)\<rparr>) \<and>
      (count_list (sy_leaked s) p < 16 \<longrightarrow>
        (\<exists>j < length (sy_reqs s). holds p (sy_reqs s ! j) \<and> moves L (length us) j s)))"
proof (cases "moves L (length us) i s")
  case False
  note inv = started_inv [OF assms(1-4)]
  have "list_all recorded_ok (sy_reqs s)"
    by (rule reaches_recorded [OF assms(4)]) (simp add: start_system_def)
  moreover have "length us = length (m_heap (r_Manager (sy_rt s)))"
    using reaches_frame [OF assms(4)] by (simp add: start_system_def newSnapshot_def)
  ultimately obtain p where p: "blocked i p s" using unfinished_moves [OF inv _ assms(5) _ assms(6)] False by blast
  then obtain q em c cs fs where w: "sy_reqs s ! i = Waiting q em c cs fs" by (auto simp: blocked_def)
  have "moves L (length us) i (s\<lparr>sy_done := insert i (sy_done s)\<rparr>)"
    by (rule ended_waiting_moves) (use assms(5) w in simp_all)
  moreover have "\<exists>j < length (sy_reqs s). holds p (sy_reqs s ! j) \<and> moves L (length us) j s"
    if "count_list (sy_leaked s) p < 16"
    by (rule holder_moves [OF inv]) (use that p in \<open>simp add: blocked_def\<close>)
  ultimately show ?thesis using p by blast
qed simp

section \<open>Witnesses\<close>

text \<open>One request that takes a slot of the first candidate and then finds its deadline passed.\<close>

lemma lose_one:
  fixes s :: system and q :: dns_msg
  defines "m \<equiv> r_Manager (sy_rt s)"
  assumes "ch_len (r_Limit (sy_rt s)) < ch_cap (r_Limit (sy_rt s))" and "d_Question q \<noteq> []"
    and "candidates_seen seen m = (c # cs, False)" and "\<not> m_emergencyActive m"
    and "m_byName m (u_Name c) = Some p" and "chan_send (attempts_at m p) = Some ch" and "length (sy_reqs s) \<notin> sy_done s"
  shows "\<exists>s'. reaches L xchg s s' \<and> sy_leaked s' = p # sy_leaked s \<and> sy_done s' = sy_done s \<and>
    r_Manager (sy_rt s') = set_attempts m p ch \<and> r_Limit (sy_rt s') = r_Limit (sy_rt s)"
proof -
  let ?i = "length (sy_reqs s)"
  let ?s1 = "s\<lparr>sy_reqs := sy_reqs s @ [Arrived q]\<rparr>"
  obtain rt where rt: "enter (sy_rt s) = Some rt" using assms(2) by (auto simp: enter_def chan_send_def)
  have rtm: "r_Manager rt = m" using enter_facts(1) [OF rt] by (simp add: m_def)
  have rtu: "rt\<lparr>r_Manager := m\<rparr> = rt" using rtm by (cases rt) simp
  let ?s2 = "goto ?i (Selecting q) rt ?s1"
  let ?s3 = "goto ?i (Walking q False (c # cs) []) rt ?s2"
  let ?rt = "rt\<lparr>r_Manager := set_attempts m p ch\<rparr>"
  let ?sw = "goto ?i (Waiting q False c cs []) rt ?s3"
  let ?s4 = "goto ?i (Holding q False c cs [] p) ?rt ?sw"
  let ?s5 = "(goto ?i (Replying (give_up L q [])) ?rt ?s4)\<lparr>sy_leaked := p # sy_leaked s\<rparr>"
  have sel: "RecordSelectionMode False m = m" using assms(5) by (simp add: RecordSelectionMode_def)
  have "step L xchg s ?s1" by (rule step.arrive)
  moreover have "step L xchg ?s1 ?s2" by (rule step.admit) (simp_all add: rt)
  moreover have "step L xchg ?s2 ?s3"
    using step.select [of ?i ?s2 q seen "c # cs" False L xchg] assms(3,4) sel rtm by (simp add: rtu)
  moreover have "step L xchg ?s3 ?sw"
    using step.wait [of ?i ?s3 q False c cs "[]" L xchg] assms(8) by (simp add: ended_def)
  moreover have "step L xchg ?sw ?s4"
    using step.take_slot [of ?i ?sw q False c cs "[]" True "set_attempts m p ch" p L xchg] assms(6-8) rtm
    by (simp add: BeginAttemptContext_def ended_def)
  moreover have "step L xchg ?s4 ?s5"
    using step.expired [of ?i ?s4 q False c cs "[]" p 0 L xchg] by (simp add: attempt_timeout_def)
  moreover obtain rt' where rt': "leave ?rt = Some rt'" and lim: "r_Limit rt' = r_Limit (sy_rt s)"
    and man: "r_Manager rt' = set_attempts m p ch"
    using rt by (auto simp: enter_def leave_def chan_simps split: option.splits)
  moreover have "step L xchg ?s5 (goto ?i (Finished (give_up L q [])) rt' ?s5)"
    by (rule step.depart) (simp_all add: rt')
  ultimately have "reaches L xchg s (goto ?i (Finished (give_up L q [])) rt' ?s5)"
    unfolding reaches_def by (meson converse_rtranclp_into_rtranclp rtranclp.rtrancl_refl)
  with lim man show ?thesis
    by (intro exI [of _ "goto ?i (Finished (give_up L q [])) rt' ?s5"]) simp
qed

definition sample_start_system :: system where
  "sample_start_system = start_system sample_config sample_manager"

lemma set_attempts_emergency [simp]: "m_emergencyActive (set_attempts m p c) = m_emergencyActive m"
  by (simp add: set_attempts_def)

lemma lose_many:
  "k \<le> 16 \<Longrightarrow> \<exists>s. reaches sample_lib (Exchange sample_lib) sample_start_system s \<and> sy_leaked s = replicate k 0 \<and> sy_done s = {} \<and>
     r_Limit (sy_rt s) = make_chan 128 \<and> attempts_at (r_Manager (sy_rt s)) 0 = \<lparr>ch_len = k, ch_cap = 16\<rparr> \<and>
     candidates_seen sample_seen (r_Manager (sy_rt s)) = ([sample_primary, sample_backup], False) \<and>
     \<not> m_emergencyActive (r_Manager (sy_rt s)) \<and> m_byName (r_Manager (sy_rt s)) ''primary'' = Some 0 \<and>
     0 < length (m_heap (r_Manager (sy_rt s)))"
proof (induction k)
  case 0
  have "r_Limit (sy_rt sample_start_system) = make_chan 128" "attempts_at sample_manager 0 = \<lparr>ch_len = 0, ch_cap = 16\<rparr>"
    "\<not> m_emergencyActive sample_manager" "0 < length (m_heap sample_manager)" by code_simp+
  then show ?case
    using sample_candidates sample_byName
    by (intro exI [of _ sample_start_system]) (auto simp: reaches_def sample_start_system_def start_system_def)
next
  case (Suc k)
  then obtain s where s: "reaches sample_lib (Exchange sample_lib) sample_start_system s" "sy_leaked s = replicate k 0"
     "sy_done s = {}"
     "r_Limit (sy_rt s) = make_chan 128" "attempts_at (r_Manager (sy_rt s)) 0 = \<lparr>ch_len = k, ch_cap = 16\<rparr>"
     "candidates_seen sample_seen (r_Manager (sy_rt s)) = ([sample_primary, sample_backup], False)"
     "\<not> m_emergencyActive (r_Manager (sy_rt s))" "m_byName (r_Manager (sy_rt s)) ''primary'' = Some 0"
     "0 < length (m_heap (r_Manager (sy_rt s)))" by auto
  have n: "u_Name sample_primary = ''primary''" "d_Question sample_query \<noteq> []" by code_simp+
  have send: "chan_send (attempts_at (r_Manager (sy_rt s)) 0) = Some \<lparr>ch_len = Suc k, ch_cap = 16\<rparr>"
    using s(5) Suc.prems by (simp add: chan_send_def)
  obtain s' where s': "reaches sample_lib (Exchange sample_lib) s s'" "sy_leaked s' = 0 # sy_leaked s"
    "sy_done s' = sy_done s"
    "r_Manager (sy_rt s') = set_attempts (r_Manager (sy_rt s)) 0 \<lparr>ch_len = Suc k, ch_cap = 16\<rparr>"
    "r_Limit (sy_rt s') = r_Limit (sy_rt s)"
    using lose_one [OF _ n(2) s(6,7) _ send] s(3,4,8) n(1) by simp blast
  have "candidates_seen sample_seen (set_attempts (r_Manager (sy_rt s)) 0 \<lparr>ch_len = Suc k, ch_cap = 16\<rparr>) =
    candidates_seen sample_seen (r_Manager (sy_rt s))" by (simp add: candidates_seen_def cong: map_cong)
  with s s' show ?case
    by (intro exI [of _ s']) (auto simp: reaches_def intro: rtranclp_trans)
qed

lemma sample_start_system_eq:
  "sample_start_system = start_system sample_config (NewManager (c_Upstreams sample_config) 3 3 True)"
  by (simp add: sample_start_system_def sample_manager_def)

lemma concurrent_requests_bounded_witness:
  "\<exists>s. reaches sample_lib (Exchange sample_lib) sample_start_system s \<and> count_list (sy_leaked s) 0 = 3 \<and>
     how_many inside (sy_reqs s) \<le> 128 \<and> slots_used ''primary'' (r_Manager (sy_rt s)) = how_many (holds 0) (sy_reqs s) + 3"
proof -
  obtain s where s: "reaches sample_lib (Exchange sample_lib) sample_start_system s" "sy_leaked s = replicate 3 0"
    using lose_many [of 3] by auto
  have "c_MaxConcurrent sample_config = 128" "u_Name (c_Upstreams sample_config ! 0) = ''primary''"
    "length (c_Upstreams sample_config) = 2" by code_simp+
  moreover have "count_list (replicate 3 (0 :: nat)) 0 = 3" by code_simp
  ultimately show ?thesis
    using s concurrent_requests_bounded [OF sample_names three_le_max three_le_max s(1) [unfolded sample_start_system_eq],
        THEN conjunct1] concurrent_requests_bounded [OF sample_names three_le_max three_le_max
        s(1) [unfolded sample_start_system_eq], THEN conjunct2, rule_format, of 0]
    by (intro exI [of _ s]) simp
qed

lemma sample_admitted:
  "\<exists>s. reaches sample_lib (Exchange sample_lib) sample_start_system s \<and> sy_reqs s = [Selecting sample_query]"
proof -
  let ?s1 = "sample_start_system\<lparr>sy_reqs := [Arrived sample_query]\<rparr>"
  obtain rt where rt: "enter (sy_rt sample_start_system) = Some rt"
    by (auto simp: sample_start_system_def start_system_def enter_def chan_send_def sample_config_def Defaults_def)
  let ?s2 = "goto 0 (Selecting sample_query) rt ?s1"
  have "step sample_lib (Exchange sample_lib) sample_start_system ?s1"
    using step.arrive [of sample_lib "Exchange sample_lib" sample_start_system sample_query]
    by (simp add: sample_start_system_def start_system_def)
  moreover have "step sample_lib (Exchange sample_lib) ?s1 ?s2" by (rule step.admit) (simp_all add: rt)
  ultimately have "reaches sample_lib (Exchange sample_lib) sample_start_system ?s2"
    unfolding reaches_def by (meson rtranclp.rtrancl_into_rtrancl rtranclp.rtrancl_refl)
  then show ?thesis by (intro exI [of _ ?s2]) simp
qed

lemma giving_back_never_blocks_witness:
  "\<exists>s. reaches sample_lib (Exchange sample_lib) sample_start_system s \<and> inside (sy_reqs s ! 0) \<and> leave (sy_rt s) \<noteq> None"
proof -
  obtain s where s: "reaches sample_lib (Exchange sample_lib) sample_start_system s" "sy_reqs s = [Selecting sample_query]"
    using sample_admitted by blast
  with giving_back_never_blocks [OF sample_names three_le_max three_le_max s(1) [unfolded sample_start_system_eq], of 0]
  show ?thesis by (intro exI [of _ s]) (simp add: sample_start_system_eq)
qed

lemma requests_never_stuck_witness:
  "\<exists>s. reaches sample_lib (Exchange sample_lib) sample_start_system s \<and> sy_reqs s = [Selecting sample_query] \<and>
     moves sample_lib 2 0 s"
proof -
  obtain s where s: "reaches sample_lib (Exchange sample_lib) sample_start_system s" "sy_reqs s = [Selecting sample_query]"
    using sample_admitted by blast
  have "length (c_Upstreams sample_config) = 2" by code_simp
  with requests_never_stuck [OF sample_names three_le_max three_le_max s(1) [unfolded sample_start_system_eq], of 0] s
  have "moves sample_lib 2 0 s" by (auto simp: finished_def blocked_def)
  with s show ?thesis by blast
qed

lemma resolver_steps_bounded_witness:
  "\<exists>k s. (step sample_lib (Exchange sample_lib) ^^ k) sample_start_system s \<and> sy_leaked s = replicate 3 0 \<and>
     k \<le> length (sy_reqs s) * 16"
proof -
  obtain s where s: "reaches sample_lib (Exchange sample_lib) sample_start_system s" "sy_leaked s = replicate 3 0"
    using lose_many [of 3] by auto
  then obtain k where k: "(step sample_lib (Exchange sample_lib) ^^ k) sample_start_system s"
    unfolding reaches_def by (auto dest: rtranclp_imp_relpowp)
  have "length (c_Upstreams sample_config) = 2" by code_simp
  with resolver_steps_bounded [OF sample_names three_le_max three_le_max k [unfolded sample_start_system_eq]] k s
  show ?thesis by auto
qed

lemma leaked_slots_disable_upstream_witness:
  "\<exists>s. reaches sample_lib (Exchange sample_lib) sample_start_system s \<and>
     BeginAttemptContext None True ''primary'' (r_Manager (sy_rt s)) = BeginBlocked"
proof -
  obtain s where s: "reaches sample_lib (Exchange sample_lib) sample_start_system s" "sy_leaked s = replicate 16 0"
    using lose_many [of 16] by auto
  have "u_Name (c_Upstreams sample_config ! 0) = ''primary''" "0 < length (c_Upstreams sample_config)" by code_simp+
  moreover have "count_list (replicate 16 (0 :: nat)) 0 = 16" by code_simp
  moreover have "reaches sample_lib (Exchange sample_lib) s s" by (simp add: reaches_def)
  ultimately show ?thesis
    using s leaked_slots_disable_upstream [OF sample_names three_le_max three_le_max s(1) [unfolded sample_start_system_eq], of 0 s None True]
    by (intro exI [of _ s]) simp
qed

end
