(* ===== verification/Listener.thy ===== *)
theory Listener
  imports Runtimecfg
begin

text \<open>
  \<open>New\<close>, \<open>Run\<close> and \<open>Shutdown\<close> of \<open>internal/dnsserver/server.go\<close>: the life of the UDP and the TCP
  listener. The two goroutines that serve, the caller's context and \<open>Run\<close> itself interleave, so
  the model is a step relation, in two parts: the steps of \<open>Run\<close> and the steps that happen to it.
  What \<open>Shutdown\<close> of the DNS library does to a listener is a parameter.
\<close>

section \<open>Construction\<close>

record listener =
  ln_Addr :: string
  ln_Net :: string
  ln_UDPSize :: nat

definition NewServer :: "Store \<Rightarrow> listener \<times> listener" where
  "NewServer store =
     (let cfg = r_Config (LoadRuntime store);
          addr = join_host_port (c_ListenAddr cfg) (itoa (c_ListenPort cfg))
      in (\<lparr>ln_Addr = addr, ln_Net = ''udp'', ln_UDPSize = 4096\<rparr>,
          \<lparr>ln_Addr = addr, ln_Net = ''tcp'', ln_UDPSize = 0\<rparr>))"

section \<open>Shutdown\<close>

text \<open>A listener that has been asked to serve but is not bound yet, one that serves, one that has returned.\<close>

datatype lstate = Starting | Serving | Ended

type_synonym shutdown_fun = "lstate \<Rightarrow> lstate \<times> string option"

text \<open>\<open>strings.Contains\<close>.\<close>

fun contains :: "string \<Rightarrow> string \<Rightarrow> bool" where
  "contains sub [] = (sub = [])"
| "contains sub (c # s) = (take (length sub) (c # s) = sub \<or> contains sub s)"

definition shutdown_problem :: "string option \<Rightarrow> string list" where
  "shutdown_problem err =
     (case err of
        None \<Rightarrow> []
      | Some e \<Rightarrow> if contains ''server not started'' e then [] else [e])"

text \<open>
  What the DNS library documents: a serving listener is stopped, and asking to stop one that has not
  started is an error that says so and changes nothing. Of a listener that has ended only that
  it stays ended.
\<close>

definition shutdown_ok :: "shutdown_fun \<Rightarrow> bool" where
  "shutdown_ok sh \<longleftrightarrow> sh Serving = (Ended, None) \<and> fst (sh Ended) = Ended \<and>
     fst (sh Starting) = Starting \<and> shutdown_problem (snd (sh Starting)) = []"

section \<open>Run\<close>

datatype cause = CtxEnded | ListenerErr string

datatype run_pc =
    RunSelecting
  | RunShutUdp cause
  | RunShutTcp cause "string list"
  | RunWaiting "string option"
  | RunDone "string list"

record server =
  sv_udp :: lstate
  sv_tcp :: lstate
  sv_errs :: "string list"
  sv_ctx :: bool
  sv_pc :: run_pc

definition start_server :: server where
  "start_server = \<lparr>sv_udp = Starting, sv_tcp = Starting, sv_errs = [], sv_ctx = False, sv_pc = RunSelecting\<rparr>"

text \<open>A listener's goroutine reports its error only while the context is alive.\<close>

definition report_err :: "string \<Rightarrow> string \<Rightarrow> server \<Rightarrow> string list" where
  "report_err network e s = (if sv_ctx s then sv_errs s else sv_errs s @ [network @ '' listener: '' @ e])"

text \<open>
  \<open>RunDone\<close> holds the errors that \<open>Run\<close> returns joined; none is a nil error. \<open>Shutdown\<close> stops UDP, then
  TCP; its own error is dropped after a listener's error and returned at once after the end of
  the context; otherwise \<open>Run\<close> waits for both goroutines.
\<close>

inductive run_step :: "shutdown_fun \<Rightarrow> server \<Rightarrow> server \<Rightarrow> bool" for sh where
  see_ctx: "\<lbrakk>sv_pc s = RunSelecting; sv_ctx s\<rbrakk> \<Longrightarrow> run_step sh s (s\<lparr>sv_pc := RunShutUdp CtxEnded\<rparr>)"
| see_err: "\<lbrakk>sv_pc s = RunSelecting; sv_errs s = e # es\<rbrakk> \<Longrightarrow>
    run_step sh s (s\<lparr>sv_errs := es, sv_pc := RunShutUdp (ListenerErr e)\<rparr>)"
| shut_udp: "\<lbrakk>sv_pc s = RunShutUdp c; sh (sv_udp s) = (l, err)\<rbrakk> \<Longrightarrow>
    run_step sh s (s\<lparr>sv_udp := l, sv_pc := RunShutTcp c (shutdown_problem err)\<rparr>)"
| shut_tcp_err: "\<lbrakk>sv_pc s = RunShutTcp (ListenerErr e) problems; sh (sv_tcp s) = (l, err)\<rbrakk> \<Longrightarrow>
    run_step sh s (s\<lparr>sv_tcp := l, sv_pc := RunWaiting (Some e)\<rparr>)"
| shut_tcp_ctx: "\<lbrakk>sv_pc s = RunShutTcp CtxEnded problems; sh (sv_tcp s) = (l, err);
      all = problems @ shutdown_problem err\<rbrakk> \<Longrightarrow>
    run_step sh s (s\<lparr>sv_tcp := l, sv_pc := (if all \<noteq> [] then RunDone all else RunWaiting None)\<rparr>)"
| waited: "\<lbrakk>sv_pc s = RunWaiting r; sv_udp s = Ended; sv_tcp s = Ended\<rbrakk> \<Longrightarrow>
    run_step sh s (s\<lparr>sv_pc := RunDone (case r of None \<Rightarrow> [] | Some e \<Rightarrow> [e])\<rparr>)"

text \<open>What happens to \<open>Run\<close>: its listeners come up or fail, its context ends.\<close>

inductive env_step :: "server \<Rightarrow> server \<Rightarrow> bool" where
  udp_started: "sv_udp s = Starting \<Longrightarrow> env_step s (s\<lparr>sv_udp := Serving\<rparr>)"
| tcp_started: "sv_tcp s = Starting \<Longrightarrow> env_step s (s\<lparr>sv_tcp := Serving\<rparr>)"
| udp_failed: "sv_udp s \<noteq> Ended \<Longrightarrow> env_step s (s\<lparr>sv_udp := Ended, sv_errs := report_err ''udp'' e s\<rparr>)"
| tcp_failed: "sv_tcp s \<noteq> Ended \<Longrightarrow> env_step s (s\<lparr>sv_tcp := Ended, sv_errs := report_err ''tcp'' e s\<rparr>)"
| cancel: "env_step s (s\<lparr>sv_ctx := True\<rparr>)"

definition lstep :: "shutdown_fun \<Rightarrow> server \<Rightarrow> server \<Rightarrow> bool" where
  "lstep sh s t \<longleftrightarrow> run_step sh s t \<or> env_step s t"

lemmas lstep_intros = run_step.intros [THEN disjI1, folded lstep_def] env_step.intros [THEN disjI2, folded lstep_def]

lemma lstep_cases: "lstep sh s t \<Longrightarrow> (run_step sh s t \<Longrightarrow> P) \<Longrightarrow> (env_step s t \<Longrightarrow> P) \<Longrightarrow> P"
  by (auto simp: lstep_def)

definition lreaches :: "shutdown_fun \<Rightarrow> server \<Rightarrow> server \<Rightarrow> bool" where
  "lreaches sh = (lstep sh)\<^sup>*\<^sup>*"

lemma lreaches_refl [simp, intro]: "lreaches sh s s"
  by (simp add: lreaches_def)

lemma lreaches_step: "lstep sh s t \<Longrightarrow> lreaches sh t u \<Longrightarrow> lreaches sh s u"
  unfolding lreaches_def by (rule converse_rtranclp_into_rtranclp)

lemma lreaches_induct [consumes 1, case_names base step]:
  assumes "lreaches sh s t" and "P s" and "\<And>u v. lreaches sh s u \<Longrightarrow> lstep sh u v \<Longrightarrow> P u \<Longrightarrow> P v"
  shows "P t"
  using assms unfolding lreaches_def by (rule rtranclp_induct)

section \<open>When Run returns\<close>

text \<open>
  The two listeners share an address, so it is \<open>Run\<close> that has to bring both down. \<open>server_inv\<close> is
  what holds at each of its places.
\<close>

definition server_inv :: "server \<Rightarrow> bool" where
  "server_inv s \<longleftrightarrow>
     (case sv_pc s of
        RunSelecting \<Rightarrow> True
      | RunShutUdp c \<Rightarrow> c = CtxEnded \<longrightarrow> sv_ctx s
      | RunShutTcp c problems \<Rightarrow> c = CtxEnded \<longrightarrow> sv_ctx s
      | RunWaiting r \<Rightarrow> r = None \<longrightarrow> sv_ctx s
      | RunDone errs \<Rightarrow> errs = [] \<longrightarrow> sv_ctx s \<and> sv_udp s = Ended \<and> sv_tcp s = Ended)"

lemma lstep_inv:
  assumes "lstep sh s t" and "server_inv s"
  shows "server_inv t"
  using assms(1)
proof (rule lstep_cases)
  assume "run_step sh s t"
  then show ?thesis using assms(2) by cases (auto simp: server_inv_def split: run_pc.splits option.splits)
next
  assume "env_step s t"
  then show ?thesis using assms(2) by cases (auto simp: server_inv_def split: run_pc.splits option.splits)
qed

lemma server_inv_reachable: "lreaches sh start_server s \<Longrightarrow> server_inv s"
proof (induction rule: lreaches_induct)
  case base
  show ?case by (simp add: server_inv_def start_server_def)
next
  case (step u v)
  then show ?case by (blast intro: lstep_inv)
qed

text \<open>When \<open>Run\<close> returns without an error, its context has ended and so have both listeners.\<close>

lemma server_returns_after_both_listeners:
  assumes "lreaches sh start_server s" and "sv_pc s = RunDone []"
  shows "sv_ctx s \<and> sv_udp s = Ended \<and> sv_tcp s = Ended"
  using server_inv_reachable [OF assms(1)] assms(2) by (simp add: server_inv_def)

lemma shutdown_ends:
  assumes "shutdown_ok sh" and "l \<noteq> Starting"
  obtains err where "sh l = (Ended, err)" and "l = Serving \<Longrightarrow> err = None"
  using assms by (cases l) (auto simp: shutdown_ok_def, metis prod.collapse)

lemma shut_both:
  assumes "shutdown_ok sh" and "sv_pc s = RunShutUdp c" and "sv_udp s \<noteq> Starting" and "sv_tcp s \<noteq> Starting"
  shows "\<exists>t errs. (run_step sh)\<^sup>*\<^sup>* s t \<and> sv_pc t = RunDone errs \<and> sv_udp t = Ended \<and> sv_tcp t = Ended \<and>
    (\<forall>e. c = ListenerErr e \<longrightarrow> errs = [e]) \<and>
    (c = CtxEnded \<and> sv_udp s = Serving \<and> sv_tcp s = Serving \<longrightarrow> errs = [])"
proof -
  obtain e1 where u: "sh (sv_udp s) = (Ended, e1)" "sv_udp s = Serving \<Longrightarrow> e1 = None"
    using shutdown_ends [OF assms(1,3)] by blast
  obtain e2 where t: "sh (sv_tcp s) = (Ended, e2)" "sv_tcp s = Serving \<Longrightarrow> e2 = None"
    using shutdown_ends [OF assms(1,4)] by blast
  let ?s1 = "s\<lparr>sv_udp := Ended, sv_pc := RunShutTcp c (shutdown_problem e1)\<rparr>"
  have st1: "run_step sh s ?s1" using assms(2) u(1) by (rule run_step.shut_udp)
  show ?thesis
  proof (cases c)
    case (ListenerErr e)
    let ?s2 = "?s1\<lparr>sv_tcp := Ended, sv_pc := RunWaiting (Some e)\<rparr>"
    have "run_step sh ?s1 ?s2" using run_step.shut_tcp_err [of ?s1 e "shutdown_problem e1" sh Ended e2] ListenerErr t(1) by simp
    moreover have "run_step sh ?s2 (?s2\<lparr>sv_pc := RunDone [e]\<rparr>)" using run_step.waited [of ?s2 "Some e" sh] by simp
    ultimately have "(run_step sh)\<^sup>*\<^sup>* s (?s2\<lparr>sv_pc := RunDone [e]\<rparr>)" using st1 by (meson converse_rtranclp_into_rtranclp rtranclp.rtrancl_refl)
    with ListenerErr show ?thesis by (intro exI [of _ "?s2\<lparr>sv_pc := RunDone [e]\<rparr>"]) auto
  next
    case CtxEnded
    let ?all = "shutdown_problem e1 @ shutdown_problem e2"
    let ?s2 = "?s1\<lparr>sv_tcp := Ended, sv_pc := (if ?all \<noteq> [] then RunDone ?all else RunWaiting None)\<rparr>"
    have st2: "run_step sh ?s1 ?s2"
      using run_step.shut_tcp_ctx [of ?s1 "shutdown_problem e1" sh Ended e2 ?all] CtxEnded t(1) by simp
    show ?thesis
    proof (cases "?all = []")
      case True
      then have "run_step sh ?s2 (?s2\<lparr>sv_pc := RunDone []\<rparr>)" using run_step.waited [of ?s2 None sh] by simp
      then have "(run_step sh)\<^sup>*\<^sup>* s (?s2\<lparr>sv_pc := RunDone []\<rparr>)" using st1 st2 by (meson converse_rtranclp_into_rtranclp rtranclp.rtrancl_refl)
      with CtxEnded show ?thesis by (intro exI [of _ "?s2\<lparr>sv_pc := RunDone []\<rparr>"]) auto
    next
      case False
      have "(run_step sh)\<^sup>*\<^sup>* s ?s2" using st1 st2 by (meson converse_rtranclp_into_rtranclp rtranclp.rtrancl_refl)
      with False CtxEnded u(2) t(2) show ?thesis
        by (intro exI [of _ ?s2] exI [of _ ?all]) (auto simp: shutdown_problem_def)
    qed
  qed
qed

text \<open>
  An execution with the number of steps that \<open>Run\<close> itself made.
\<close>

inductive runs :: "shutdown_fun \<Rightarrow> server \<Rightarrow> nat \<Rightarrow> server \<Rightarrow> bool" for sh s where
  runs_start: "runs sh s 0 s"
| runs_own: "runs sh s k t \<Longrightarrow> run_step sh t u \<Longrightarrow> runs sh s (Suc k) u"
| runs_env: "runs sh s k t \<Longrightarrow> env_step t u \<Longrightarrow> runs sh s k u"

text \<open>Where \<open>Run\<close> is after \<open>k\<close> steps of its own, once it has decided to stop.\<close>

definition shutting :: "cause \<Rightarrow> nat \<Rightarrow> server \<Rightarrow> bool" where
  "shutting c k s \<longleftrightarrow>
     (case sv_pc s of
        RunSelecting \<Rightarrow> False
      | RunShutUdp c' \<Rightarrow> c' = c \<and> k = 0 \<and> sv_udp s \<noteq> Starting \<and> sv_tcp s \<noteq> Starting
      | RunShutTcp c' problems \<Rightarrow> c' = c \<and> k = 1 \<and> sv_udp s = Ended \<and> sv_tcp s \<noteq> Starting
      | RunWaiting r \<Rightarrow> k = 2 \<and> r = (case c of CtxEnded \<Rightarrow> None | ListenerErr e \<Rightarrow> Some e) \<and> sv_udp s = Ended \<and> sv_tcp s = Ended
      | RunDone errs \<Rightarrow> k \<le> 3 \<and> sv_udp s = Ended \<and> sv_tcp s = Ended \<and> (\<forall>e. c = ListenerErr e \<longrightarrow> errs = [e]))"

lemma shutting_runs:
  assumes "shutdown_ok sh" and "runs sh s k t" and "shutting c 0 s"
  shows "shutting c k t"
  using assms(2)
proof induction
  case runs_start
  show ?case by (rule assms(3))
next
  case (runs_own k t u)
  have ended: "sh l = (l', err) \<Longrightarrow> l \<noteq> Starting \<Longrightarrow> l' = Ended" for l l' err
    using shutdown_ends [OF assms(1), of l] by auto
  from runs_own.hyps(2) runs_own.IH show ?case
    by cases (auto simp: shutting_def ended split: cause.splits)
next
  case (runs_env k t u)
  from runs_env.hyps(2) runs_env.IH show ?case by cases (auto simp: shutting_def split: run_pc.splits)
qed

lemma shutting_goes_on:
  assumes "shutting c k t"
  shows "(\<exists>errs. sv_pc t = RunDone errs \<and> sv_udp t = Ended \<and> sv_tcp t = Ended \<and> (\<forall>e. c = ListenerErr e \<longrightarrow> errs = [e])) \<or>
    (\<exists>u. run_step sh t u)"
proof (cases "sv_pc t")
  case (RunShutUdp c')
  obtain l err where l: "sh (sv_udp t) = (l, err)" by fastforce
  show ?thesis by (rule disjI2, rule exI, rule run_step.shut_udp [where sh = sh and s = t, OF RunShutUdp l])
next
  case (RunShutTcp c' problems)
  obtain l err where l: "sh (sv_tcp t) = (l, err)" by fastforce
  show ?thesis
  proof (cases c')
    case CtxEnded
    show ?thesis by (rule disjI2, rule exI, rule run_step.shut_tcp_ctx [where sh = sh and s = t, OF RunShutTcp [unfolded CtxEnded] l refl])
  next
    case (ListenerErr e)
    show ?thesis by (rule disjI2, rule exI, rule run_step.shut_tcp_err [where sh = sh and s = t, OF RunShutTcp [unfolded ListenerErr] l])
  qed
next
  case (RunWaiting r)
  with assms have "sv_udp t = Ended" "sv_tcp t = Ended" by (simp_all add: shutting_def)
  then show ?thesis by (intro disjI2 exI) (rule run_step.waited [OF RunWaiting])
qed (use assms in \<open>auto simp: shutting_def\<close>)

text \<open>
  C31: a shutdown completes once both listeners have started. Take any state in which \<open>Run\<close> has
  decided to stop and no listener is still starting. By its own steps \<open>Run\<close> returns with both
  listeners ended: with the error of the listener that failed, or without an error after the end of
  the context if both were serving. And in every execution from there, whatever happens to the
  listeners in between, \<open>Run\<close> makes at most three more steps and is never blocked before it has
  returned with both listeners ended.
\<close>

theorem started_server_shuts_down:
  assumes "shutdown_ok sh" and "sv_pc s = RunShutUdp c" and "sv_udp s \<noteq> Starting" and "sv_tcp s \<noteq> Starting"
  shows "(\<exists>t errs. (run_step sh)\<^sup>*\<^sup>* s t \<and> sv_pc t = RunDone errs \<and> sv_udp t = Ended \<and> sv_tcp t = Ended \<and>
      (\<forall>e. c = ListenerErr e \<longrightarrow> errs = [e]) \<and>
      (c = CtxEnded \<and> sv_udp s = Serving \<and> sv_tcp s = Serving \<longrightarrow> errs = [])) \<and>
    (\<forall>k t. runs sh s k t \<longrightarrow> k \<le> 3 \<and>
      ((\<exists>errs. sv_pc t = RunDone errs \<and> sv_udp t = Ended \<and> sv_tcp t = Ended \<and> (\<forall>e. c = ListenerErr e \<longrightarrow> errs = [e])) \<or>
       (\<exists>u. run_step sh t u)))"
proof (rule conjI [OF shut_both [OF assms]], intro allI impI)
  fix k t assume r: "runs sh s k t"
  have "shutting c 0 s" using assms by (simp add: shutting_def)
  from shutting_runs [OF assms(1) r this] have i: "shutting c k t" .
  then have "k \<le> 3" by (simp add: shutting_def split: run_pc.splits)
  with shutting_goes_on [OF i] show "k \<le> 3 \<and>
      ((\<exists>errs. sv_pc t = RunDone errs \<and> sv_udp t = Ended \<and> sv_tcp t = Ended \<and> (\<forall>e. c = ListenerErr e \<longrightarrow> errs = [e])) \<or>
       (\<exists>u. run_step sh t u))" by blast
qed

section \<open>A shutdown that comes too early\<close>

definition stuck :: "string \<Rightarrow> server \<Rightarrow> bool" where
  "stuck e s \<longleftrightarrow> sv_pc s = RunWaiting (Some e) \<and> sv_udp s = Serving"

lemma stuck_stays:
  assumes "shutdown_ok sh" and "lreaches sh s t" and "stuck e s"
  shows "stuck e t \<or> sv_udp t = Ended"
  using assms(2)
proof (induction rule: lreaches_induct)
  case base
  show ?case using assms(3) by simp
next
  case (step u v)
  from step.hyps(2) show ?case
  proof (rule lstep_cases)
    assume "run_step sh u v"
    then show ?thesis using step.IH assms(1) by cases (auto simp: stuck_def shutdown_ok_def dest: arg_cong [where f = fst])
  next
    assume "env_step u v"
    then show ?thesis using step.IH by cases (auto simp: stuck_def)
  qed
qed

lemma stuck_blocked: "stuck e t \<Longrightarrow> \<not> run_step sh t u"
  by (auto simp: stuck_def elim: run_step.cases)

text \<open>
  C38: a listener that fails while the other one is still starting can leave the daemon half alive.
  There is an execution in which the TCP listener cannot be bound, \<open>Run\<close> shuts down before the
  UDP listener has started, and UDP then starts to serve: its shutdown was lost. \<open>Run\<close> waits with the
  error in hand and has no step to make, whatever happens, unless the UDP listener ends
  on its own.
\<close>

theorem early_failure_is_lost:
  assumes "shutdown_ok sh"
  shows "\<exists>s. lreaches sh start_server s \<and> stuck (''tcp listener: '' @ e) s \<and>
    (\<forall>t. lreaches sh s t \<longrightarrow>
       stuck (''tcp listener: '' @ e) t \<and> (\<forall>u. \<not> run_step sh t u) \<or> sv_udp t = Ended)"
proof -
  let ?e = "''tcp listener: '' @ e"
  let ?s1 = "start_server\<lparr>sv_tcp := Ended, sv_errs := [?e]\<rparr>"
  let ?s2 = "?s1\<lparr>sv_errs := [], sv_pc := RunShutUdp (ListenerErr ?e)\<rparr>"
  let ?s3 = "?s2\<lparr>sv_pc := RunShutTcp (ListenerErr ?e) []\<rparr>"
  let ?s4 = "?s3\<lparr>sv_pc := RunWaiting (Some ?e)\<rparr>"
  let ?s5 = "?s4\<lparr>sv_udp := Serving\<rparr>"
  have "fst (sh Starting) = Starting" "shutdown_problem (snd (sh Starting)) = []" "fst (sh Ended) = Ended"
    using assms by (auto simp: shutdown_ok_def)
  then obtain err1 err2 where sh: "sh Starting = (Starting, err1)" "shutdown_problem err1 = []" "sh Ended = (Ended, err2)"
    by (metis prod.collapse)
  have "lstep sh start_server ?s1"
    using env_step.tcp_failed [of start_server e] by (simp add: start_server_def report_err_def lstep_def)
  moreover have "lstep sh ?s1 ?s2" using run_step.see_err [of ?s1 ?e "[]" sh] by (simp add: start_server_def lstep_def)
  moreover have "lstep sh ?s2 ?s3"
    using run_step.shut_udp [of ?s2 "ListenerErr ?e" sh Starting err1] sh by (simp add: start_server_def lstep_def)
  moreover have "lstep sh ?s3 ?s4"
    using run_step.shut_tcp_err [of ?s3 ?e "[]" sh Ended err2] sh by (simp add: start_server_def lstep_def)
  moreover have "lstep sh ?s4 ?s5" using env_step.udp_started [of ?s4] by (simp add: start_server_def lstep_def)
  ultimately have "lreaches sh start_server ?s5" by (meson lreaches_step lreaches_refl)
  moreover have "stuck ?e ?s5" by (simp add: stuck_def)
  ultimately show ?thesis using stuck_stays [OF assms] stuck_blocked by blast
qed

section \<open>Witnesses\<close>

definition sample_shutdown :: shutdown_fun where
  "sample_shutdown l = (case l of Serving \<Rightarrow> (Ended, None) | _ \<Rightarrow> (l, Some ''dns: server not started''))"

lemma sample_shutdown_ok: "shutdown_ok sample_shutdown"
proof -
  have "shutdown_problem (Some ''dns: server not started'') = []" by code_simp
  then show ?thesis by (simp add: shutdown_ok_def sample_shutdown_def)
qed

definition sample_shutting :: server where
  "sample_shutting = \<lparr>sv_udp = Serving, sv_tcp = Serving, sv_errs = [], sv_ctx = True, sv_pc = RunShutUdp CtxEnded\<rparr>"

lemma started_server_shuts_down_witness:
  "\<exists>t. (run_step sample_shutdown)\<^sup>*\<^sup>* sample_shutting t \<and> sv_pc t = RunDone [] \<and> sv_udp t = Ended \<and> sv_tcp t = Ended"
  using started_server_shuts_down [OF sample_shutdown_ok, of sample_shutting CtxEnded]
  by (auto simp: sample_shutting_def)

lemma early_failure_is_lost_witness:
  "\<exists>s. lreaches sample_shutdown start_server s \<and> stuck ''tcp listener: in use'' s"
  using early_failure_is_lost [OF sample_shutdown_ok, of "''in use''"] by auto

end
