(* ===== verification/Logging.thy ===== *)
theory Logging
  imports Failover
begin

text \<open>
  The logging of \<open>internal/failover/state.go\<close> at the granularity of its locks. \<open>RecordSuccess\<close> and
  \<open>RecordFailure\<close> release the entry's lock before they log, so any number of goroutines may be between
  their update and their log lines while others go on; \<open>logActiveChange\<close> holds a mutex of its own and
  reads the entries one by one under it. The announcements are right once all have finished, and
  everything but the log is as if each operation had been done at once, which is how the
  other theories use them.
\<close>

section \<open>The manager without its log\<close>

definition core :: "Manager \<Rightarrow> Manager" where
  "core m = m\<lparr>m_lastActive := [], m_log := []\<rparr>"

lemma core_simps [simp]:
  "m_byName (core m) = m_byName m" "m_heap (core m) = m_heap m" "m_entries (core m) = m_entries m"
  "m_failThreshold (core m) = m_failThreshold m" "m_recoverThreshold (core m) = m_recoverThreshold m"
  "m_logger (core m) = m_logger m" "m_emergencyActive (core m) = m_emergencyActive m"
  "snap_at (core m) p = snap_at m p" "core (set_snap m p x) = set_snap (core m) p x"
  "attempts_at (core m) p = attempts_at m p" "core (set_attempts m p c) = set_attempts (core m) p c"
  "StateOf (core m) n = StateOf m n" "Snapshots (core m) = Snapshots m"
  by (simp_all add: core_def snap_at_def attempts_at_def set_snap_def set_attempts_def StateOf_def Snapshots_eq
    split: option.split)

lemma core_log [simp]:
  "core (announce a m) = core m" "core (logActiveChange m) = core m" "core (logTransition p old new m) = core m"
  "core (m\<lparr>m_log := l\<rparr>) = core m"
  by (simp_all add: core_def logActiveChange_def announce_def logTransition_def)

section \<open>Goroutines between their update and their log lines\<close>

text \<open>
  \<open>lg_todo\<close> are the transitions recorded and not yet logged, \<open>lg_waiting\<close> the goroutines about to take the
  mutex of \<open>logActiveChange\<close>, and \<open>lg_reading\<close> what the one that has it still has to read and has read.
\<close>

record logging =
  lg_mgr :: Manager
  lg_todo :: "(ptr \<times> State \<times> State) list"
  lg_waiting :: nat
  lg_reading :: "(ptr list \<times> (ptr \<Rightarrow> State)) option"

definition start_logging :: "Manager \<Rightarrow> logging" where
  "start_logging m = \<lparr>lg_mgr = m, lg_todo = [], lg_waiting = 0, lg_reading = None\<rparr>"

definition quiescent :: "logging \<Rightarrow> bool" where
  "quiescent s \<longleftrightarrow> lg_todo s = [] \<and> lg_waiting s = 0 \<and> lg_reading s = None"

definition remember :: "logging \<Rightarrow> Manager \<times> (ptr \<times> State \<times> State) option \<Rightarrow> logging" where
  "remember s r = s\<lparr>lg_mgr := fst r, lg_todo := lg_todo s @ (case snd r of None \<Rightarrow> [] | Some x \<Rightarrow> [x])\<rparr>"

text \<open>A step with the operation it starts, if it starts one.\<close>

inductive log_step :: "logging \<Rightarrow> mgr_event option \<Rightarrow> logging \<Rightarrow> bool" where
  success: "log_step s (Some (EvSuccess n pr l t)) (remember s (success_locked n pr l t (lg_mgr s)))"
| failure: "log_step s (Some (EvFailure n msg t)) (remember s (failure_locked n msg t (lg_mgr s)))"
| selection: "lg_reading s = None \<Longrightarrow>
    log_step s (Some (EvSelection e)) (s\<lparr>lg_mgr := RecordSelectionMode e (lg_mgr s)\<rparr>)"
| slot_taken: "log_step s (Some (EvBegin n)) (s\<lparr>lg_mgr := mgr_step (EvBegin n) (lg_mgr s)\<rparr>)"
| slot_back: "log_step s (Some (EvRelease p)) (s\<lparr>lg_mgr := mgr_step (EvRelease p) (lg_mgr s)\<rparr>)"
| nothing_to_log: "\<lbrakk>lg_todo s = xs @ (p, old, new) # ys; \<not> m_logger (lg_mgr s) \<or> old = new\<rbrakk> \<Longrightarrow>
    log_step s None (s\<lparr>lg_todo := xs @ ys\<rparr>)"
| transition: "\<lbrakk>lg_todo s = xs @ (p, old, new) # ys; m_logger (lg_mgr s); old \<noteq> new\<rbrakk> \<Longrightarrow>
    log_step s None (s\<lparr>lg_mgr := (lg_mgr s)\<lparr>m_log := m_log (lg_mgr s) @ transition_log (snap_at (lg_mgr s) p) old new\<rparr>,
      lg_todo := xs @ ys, lg_waiting := Suc (lg_waiting s)\<rparr>)"
| lock: "\<lbrakk>lg_waiting s = Suc n; lg_reading s = None\<rbrakk> \<Longrightarrow>
    log_step s None (s\<lparr>lg_waiting := n, lg_reading := Some (m_entries (lg_mgr s), \<lambda>_. Unknown)\<rparr>)"
| read: "lg_reading s = Some (p # ps, seen) \<Longrightarrow>
    log_step s None (s\<lparr>lg_reading := Some (ps, seen(p := s_State (snap_at (lg_mgr s) p)))\<rparr>)"
| unlock: "lg_reading s = Some ([], seen) \<Longrightarrow>
    log_step s None (s\<lparr>lg_mgr := announce (active_seen seen (lg_mgr s)) (lg_mgr s), lg_reading := None\<rparr>)"

inductive log_run :: "logging \<Rightarrow> mgr_event list \<Rightarrow> logging \<Rightarrow> bool" for s where
  start: "log_run s [] s"
| step: "log_run s evs t \<Longrightarrow> log_step t ev u \<Longrightarrow> log_run s (evs @ (case ev of None \<Rightarrow> [] | Some e \<Rightarrow> [e])) u"

lemma log_run_trans: "log_run t b u \<Longrightarrow> log_run s a t \<Longrightarrow> log_run s (a @ b) u"
proof (induction rule: log_run.induct)
  case (step b u ev v)
  from log_run.step [OF step.IH [OF step.prems] step.hyps(2)] show ?case by simp
qed simp

lemma silent: "log_step s None t \<Longrightarrow> log_run t evs u \<Longrightarrow> log_run s evs u"
  using log_run_trans [of t evs u s "[]"] log_run.step [OF log_run.start, of s None t] by simp

section \<open>Everything but the log is as if the operations were atomic\<close>

lemma core_locked:
  "core (fst (success_locked n pr l t m)) = core (RecordSuccess n pr l t m)"
  "core (fst (failure_locked n msg t m)) = core (RecordFailure n msg t m)"
  by (simp_all add: RecordSuccess_def RecordFailure_def log_after_def split: prod.split option.split)

lemma core_step:
  assumes "core m = core m'"
  shows "core (mgr_step ev m) = core (mgr_step ev m')"
proof -
  have eq: "m_byName m = m_byName m'" "m_recoverThreshold m = m_recoverThreshold m'" "m_failThreshold m = m_failThreshold m'"
    "m_logger m = m_logger m'" "m_emergencyActive m = m_emergencyActive m'" "snap_at m p = snap_at m' p"
    "attempts_at m p = attempts_at m' p" for p
    using arg_cong [OF assms, of m_byName] arg_cong [OF assms, of m_recoverThreshold] arg_cong [OF assms, of m_failThreshold]
      arg_cong [OF assms, of m_logger] arg_cong [OF assms, of m_emergencyActive] arg_cong [OF assms, of "\<lambda>m. snap_at m p"]
      arg_cong [OF assms, of "\<lambda>m. attempts_at m p"] by simp_all
  have em: "core (m\<lparr>m_emergencyActive := e\<rparr>) = (core m)\<lparr>m_emergencyActive := e\<rparr>" for m e
    by (simp add: core_def)
  show ?thesis
    by (cases ev)
      (auto simp: RecordSuccess_eq RecordFailure_eq RecordSelectionMode_def BeginAttempt_def release_attempt_def Let_def
        eq em assms split: option.split prod.split)
qed

lemma core_run: "core m = core m' \<Longrightarrow> core (mgr_run evs m) = core (mgr_run evs m')"
proof (induction evs arbitrary: m m')
  case (Cons ev evs)
  from Cons.IH [OF core_step [OF Cons.prems, of ev]] show ?case by simp
qed simp

text \<open>
  Whatever the interleaving of updates and log lines, the manager is, but for its log, the one that the
  same operations give when each is done at once, in the order of their updates.
\<close>

lemma log_run_core: "log_run s evs t \<Longrightarrow> core (lg_mgr t) = core (mgr_run evs (lg_mgr s))"
proof (induction rule: log_run.induct)
  case start
  show ?case by simp
next
  case (step evs t ev u)
  have "core (lg_mgr u) = core (mgr_run (case ev of None \<Rightarrow> [] | Some e \<Rightarrow> [e]) (lg_mgr t))"
    using step.hyps(2) by cases (simp_all add: remember_def core_locked)
  also have "\<dots> = core (mgr_run (case ev of None \<Rightarrow> [] | Some e \<Rightarrow> [e]) (mgr_run evs (lg_mgr s)))"
    by (rule core_run [OF step.IH])
  finally show ?case by (simp add: mgr_run_append)
qed

corollary log_run_Snapshots: "log_run s evs t \<Longrightarrow> Snapshots (lg_mgr t) = Snapshots (mgr_run evs (lg_mgr s))"
  using log_run_core [of s evs t] core_simps(13) by metis

section \<open>The announcements\<close>

text \<open>
  The log read as a whole: every announcement starts from the upstream announced before and names
  another one; the result is the last one announced.
\<close>

fun follow :: "string \<Rightarrow> log_event list \<Rightarrow> string option" where
  "follow active [] = Some active"
| "follow active (LogActiveChanged a b # es) = (if a = active \<and> b \<noteq> active then follow b es else None)"
| "follow active (_ # es) = follow active es"

lemma follow_append: "follow a (xs @ ys) = Option.bind (follow a xs) (\<lambda>b. follow b ys)"
  by (induction a xs rule: follow.induct) auto

lemma follow_transition [simp]: "follow a (transition_log x old new) = Some a"
  by (simp add: transition_log_def split: State.split)

text \<open>
  Nothing left to announce means that the one who reads, if any, has seen the current states, and that
  otherwise the last announcement names the active upstream.
\<close>

definition changes :: "logging \<Rightarrow> (ptr \<times> State \<times> State) list" where
  "changes s = filter (\<lambda>(p, old, new). old \<noteq> new) (lg_todo s)"

definition up_to_date :: "logging \<Rightarrow> bool" where
  "up_to_date s \<longleftrightarrow>
     (case lg_reading s of
        None \<Rightarrow> m_lastActive (lg_mgr s) = Active (lg_mgr s)
      | Some (ps, seen) \<Rightarrow> \<forall>q \<in> set (m_entries (lg_mgr s)) - set ps. seen q = s_State (snap_at (lg_mgr s) q))"

definition named :: "Manager \<Rightarrow> bool" where
  "named m \<longleftrightarrow> m_logger m \<and> (\<forall>p \<in> set (m_entries m). u_Name (cfg_at m p) \<noteq> [])"

definition log_inv :: "string \<Rightarrow> logging \<Rightarrow> bool" where
  "log_inv a s \<longleftrightarrow> named (lg_mgr s) \<and> (m_entries (lg_mgr s) = [] \<longrightarrow> m_lastActive (lg_mgr s) = []) \<and>
     follow a (m_log (lg_mgr s)) = Some (m_lastActive (lg_mgr s)) \<and>
     (changes s = [] \<and> lg_waiting s = 0 \<longrightarrow> up_to_date s)"

lemma named_cong:
  "m_logger m' = m_logger m \<Longrightarrow> m_entries m' = m_entries m \<Longrightarrow> (\<And>p. cfg_at m' p = cfg_at m p) \<Longrightarrow> named m' = named m"
  by (simp add: named_def)

lemma up_to_date_cong:
  assumes "lg_reading s' = lg_reading s" and "m_lastActive (lg_mgr s') = m_lastActive (lg_mgr s)"
    and "m_entries (lg_mgr s') = m_entries (lg_mgr s)" and "\<And>p. cfg_at (lg_mgr s') p = cfg_at (lg_mgr s) p"
    and "\<And>p. s_State (snap_at (lg_mgr s') p) = s_State (snap_at (lg_mgr s) p)"
  shows "up_to_date s' = up_to_date s"
  using assms Active_cong [of "lg_mgr s'" "lg_mgr s"] by (simp add: up_to_date_def split: option.split)

lemma state_set_snap:
  "s_State x = s_State (snap_at m p) \<Longrightarrow> s_State (snap_at (set_snap m p x) q) = s_State (snap_at m q)"
  by (cases "p < length (m_heap m)") (simp_all add: snap_at_def set_snap_def nth_list_update list_update_beyond)

lemma set_snap_m_log [simp]: "m_log (set_snap m p x) = m_log m" "m_log (set_attempts m p c) = m_log m"
  by (simp_all add: set_snap_def set_attempts_def)

text \<open>An update keeps the invariant: it changes no state, or it leaves a change to announce.\<close>

lemma remember_inv:
  assumes "log_inv a s" and "m = lg_mgr s \<or> (\<exists>p x. m = set_snap (lg_mgr s) p x \<and>
      (s_State x = s_State (snap_at (lg_mgr s) p) \<or> tr = Some (p, s_State (snap_at (lg_mgr s) p), s_State x)))"
  shows "log_inv a (remember s (m, tr))"
proof -
  have f: "m_logger m = m_logger (lg_mgr s)" "m_entries m = m_entries (lg_mgr s)" "m_log m = m_log (lg_mgr s)"
    "m_lastActive m = m_lastActive (lg_mgr s)" "cfg_at m q = cfg_at (lg_mgr s) q" for q
    using assms(2) by auto
  let ?s = "remember s (m, tr)"
  have lg: "lg_mgr ?s = m" "lg_reading ?s = lg_reading s" "lg_waiting ?s = lg_waiting s" by (simp_all add: remember_def)
  have "up_to_date ?s" if "changes ?s = []" "lg_waiting s = 0"
  proof -
    from that have "changes s = []" and tr: "tr = Some (p, x, y) \<Longrightarrow> x = y" for p x y
      by (auto simp: changes_def remember_def split: option.splits if_splits)
    with assms(1) that(2) have "up_to_date s" by (simp add: log_inv_def)
    moreover have "s_State (snap_at m q) = s_State (snap_at (lg_mgr s) q)" for q
      using assms(2) tr state_set_snap by (metis)
    ultimately show ?thesis using up_to_date_cong [of ?s s] lg f by simp
  qed
  moreover have "named m" using assms(1) f named_cong [of m "lg_mgr s"] by (simp add: log_inv_def)
  ultimately show ?thesis using assms(1) f lg by (simp add: log_inv_def)
qed

lemma success_locked_update:
  assumes "success_locked n pr l t m = (m', tr)"
  shows "m' = m \<or> (\<exists>p x. m' = set_snap m p x \<and>
     (s_State x = s_State (snap_at m p) \<or> tr = Some (p, s_State (snap_at m p), s_State x)))"
proof (cases "m_byName m n")
  case (Some p)
  obtain x changed where u: "success_update (m_recoverThreshold m) pr l t (snap_at m p) = (x, changed)" by fastforce
  with assms Some have "m' = set_snap m p x" "tr = (if changed then Some (p, s_State (snap_at m p), s_State x) else None)"
    by (auto simp: success_locked_def Let_def)
  moreover have "\<not> changed \<Longrightarrow> s_State x = s_State (snap_at m p)"
    using success_update_unchanged [of "m_recoverThreshold m" pr l t "snap_at m p"] by (simp add: u)
  ultimately show ?thesis by auto
qed (use assms in \<open>simp add: success_locked_def\<close>)

lemma failure_locked_update:
  assumes "failure_locked n msg t m = (m', tr)"
  shows "m' = m \<or> (\<exists>p x. m' = set_snap m p x \<and>
     (s_State x = s_State (snap_at m p) \<or> tr = Some (p, s_State (snap_at m p), s_State x)))"
proof (cases "m_byName m n")
  case (Some p)
  with assms have "m' = set_snap m p (failure_update (m_failThreshold m) msg t (snap_at m p))"
    "tr = Some (p, s_State (snap_at m p), s_State (failure_update (m_failThreshold m) msg t (snap_at m p)))"
    by (auto simp: failure_locked_def Let_def)
  then show ?thesis by blast
qed (use assms in \<open>simp add: failure_locked_def\<close>)

text \<open>A change that concerns neither states nor announcements.\<close>

lemma unrelated_inv:
  assumes "log_inv a s" and "m_logger m = m_logger (lg_mgr s)" and "m_entries m = m_entries (lg_mgr s)"
    and "\<And>p. cfg_at m p = cfg_at (lg_mgr s) p" and "\<And>p. snap_at m p = snap_at (lg_mgr s) p"
    and "m_lastActive m = m_lastActive (lg_mgr s)" and "follow a (m_log m) = follow a (m_log (lg_mgr s))"
  shows "log_inv a (s\<lparr>lg_mgr := m\<rparr>)"
proof -
  have "named m = named (lg_mgr s)" by (rule named_cong) (simp_all add: assms)
  moreover have "up_to_date (s\<lparr>lg_mgr := m\<rparr>) = up_to_date s" by (rule up_to_date_cong) (simp_all add: assms)
  ultimately show ?thesis using assms by (simp add: log_inv_def changes_def)
qed

lemma slot_step_fields:
  assumes "ev = EvBegin n \<or> ev = EvRelease p"
  shows "m_log (mgr_step ev m) = m_log m" "m_lastActive (mgr_step ev m) = m_lastActive m"
    "snap_at (mgr_step ev m) q = snap_at m q"
  using assms by (auto simp: BeginAttempt_def release_attempt_def split: option.split)

lemma active_seen_cong:
  "(\<And>q. q \<in> set (m_entries m) \<Longrightarrow> seen q = s_State (snap_at m q)) \<Longrightarrow> active_seen seen m = Active m"
  by (simp add: active_seen_def Active_def candidates_seen_def Let_def cong: filter_cong)

lemma active_seen_nonempty:
  assumes "named m" and "m_entries m \<noteq> []"
  shows "active_seen seen m \<noteq> []"
proof -
  obtain u us where c: "fst (candidates_seen seen m) = u # us"
    using candidates_seen_nonempty [OF assms(2)] by (meson neq_Nil_conv)
  then have "u \<in> cfg_at m ` set (m_entries m)" using candidates_seen_subset [of seen m] by auto
  with c assms(1) show ?thesis by (auto simp: active_seen_def named_def)
qed

lemma announce_fields [simp]:
  "m_entries (announce b m) = m_entries m" "m_logger (announce b m) = m_logger m" "m_heap (announce b m) = m_heap m"
  by (simp_all add: announce_def)

lemma log_step_inv:
  assumes "log_step s ev t" and "log_inv a s"
  shows "log_inv a t"
  using assms
proof (induction rule: log_step.induct)
  case (success s n pr l t)
  obtain m tr where r: "success_locked n pr l t (lg_mgr s) = (m, tr)" by fastforce
  from remember_inv [OF success success_locked_update [OF r]] show ?case by (simp only: r)
next
  case (failure s n msg t)
  obtain m tr where r: "failure_locked n msg t (lg_mgr s) = (m, tr)" by fastforce
  from remember_inv [OF failure failure_locked_update [OF r]] show ?case by (simp only: r)
next
  case (selection s e)
  have "follow a (m_log (RecordSelectionMode e (lg_mgr s))) = follow a (m_log (lg_mgr s))"
    by (cases "follow a (m_log (lg_mgr s))") (simp_all add: RecordSelectionMode_def follow_append)
  moreover have "m_lastActive (RecordSelectionMode e (lg_mgr s)) = m_lastActive (lg_mgr s)"
    by (simp add: RecordSelectionMode_def)
  ultimately show ?case using selection by (intro unrelated_inv) simp_all
next
  case (slot_taken s n)
  have "EvBegin n = EvBegin n \<or> EvBegin n = EvRelease 0" by simp
  with slot_taken show ?case by (intro unrelated_inv) (simp_all only: mgr_step_frame slot_step_fields)
next
  case (slot_back s p)
  have "EvRelease p = EvBegin [] \<or> EvRelease p = EvRelease p" by simp
  with slot_back show ?case by (intro unrelated_inv) (simp_all only: mgr_step_frame slot_step_fields)
next
  case (nothing_to_log s xs p old new ys)
  let ?s = "s\<lparr>lg_todo := xs @ ys\<rparr>"
  have "old = new" using nothing_to_log(2,3) by (auto simp: log_inv_def named_def)
  then have "changes ?s = changes s" using nothing_to_log(1) by (simp add: changes_def)
  moreover have "up_to_date ?s = up_to_date s" by (rule up_to_date_cong) simp_all
  ultimately show ?case using nothing_to_log(3) by (simp add: log_inv_def)
next
  case (transition s xs p old new ys)
  have "named ((lg_mgr s)\<lparr>m_log := l\<rparr>) = named (lg_mgr s)" for l by (rule named_cong) (simp_all add: cfg_at_def)
  with transition(4) show ?case by (simp add: log_inv_def follow_append)
next
  case (lock s n)
  then show ?case by (simp add: log_inv_def up_to_date_def)
next
  case (read s p ps seen)
  let ?s = "s\<lparr>lg_reading := Some (ps, seen(p := s_State (snap_at (lg_mgr s) p)))\<rparr>"
  have "up_to_date s \<Longrightarrow> up_to_date ?s" using read(1) by (auto simp: up_to_date_def)
  with read(2) show ?case by (simp add: log_inv_def changes_def)
next
  case (unlock s seen)
  let ?m = "lg_mgr s" and ?b = "active_seen seen (lg_mgr s)"
  let ?m' = "announce ?b ?m" and ?s = "s\<lparr>lg_mgr := announce ?b ?m, lg_reading := None\<rparr>"
  have cfg: "cfg_at ?m' p = cfg_at ?m p" "snap_at ?m' p = snap_at ?m p" for p by (simp_all add: cfg_at_def snap_at_def)
  have n: "named ?m" using unlock(2) by (simp add: log_inv_def)
  then have "named ?m'" using named_cong [of ?m' ?m] cfg by simp
  moreover have act: "m_lastActive ?m' = (if m_entries ?m = [] then [] else ?b)"
    using active_seen_nonempty [OF n, of seen] unlock(2)
    by (auto simp: announce_def log_inv_def active_seen_def candidates_seen_def)
  moreover have "follow a (m_log ?m') = Some (m_lastActive ?m')"
    using unlock(2) by (auto simp: log_inv_def announce_def follow_append)
  moreover have "up_to_date ?s" if "changes ?s = []" "lg_waiting ?s = 0"
  proof -
    from that have "changes s = []" "lg_waiting s = 0" by (simp_all add: changes_def)
    with unlock(2) have "up_to_date s" by (simp add: log_inv_def)
    with unlock(1) have "?b = Active ?m" by (intro active_seen_cong) (simp add: up_to_date_def)
    moreover have "Active ?m' = Active ?m" by (rule Active_cong) (simp_all add: cfg)
    ultimately show ?thesis using act Active_no_entries [of ?m] by (simp add: up_to_date_def)
  qed
  ultimately show ?case by (simp add: log_inv_def)
qed

lemma log_run_inv: "log_run s evs t \<Longrightarrow> log_inv a s \<Longrightarrow> log_inv a t"
  by (induction rule: log_run.induct) (auto intro: log_step_inv)

lemma start_log_inv:
  assumes "named m" and "m_log m = []" and "m_lastActive m = Active m"
  shows "log_inv (Active m) (start_logging m)"
  using assms Active_no_entries [of m] by (simp add: log_inv_def start_logging_def up_to_date_def)

text \<open>One goroutine that nobody disturbs logs as the atomic operations do.\<close>

lemma logging_same:
  "lg_reading s = r \<Longrightarrow> s\<lparr>lg_reading := r\<rparr> = s"
  "lg_todo s = xs \<Longrightarrow> s\<lparr>lg_mgr := m, lg_todo := xs\<rparr> = s\<lparr>lg_mgr := m\<rparr>"
  by (cases s; simp)+

lemma read_all:
  "lg_reading s = Some (ps, seen) \<Longrightarrow>
   \<exists>seen'. log_run s [] (s\<lparr>lg_reading := Some ([], seen')\<rparr>) \<and>
     (\<forall>q. seen' q = (if q \<in> set ps then s_State (snap_at (lg_mgr s) q) else seen q))"
proof (induction ps arbitrary: s seen)
  case Nil
  then show ?case using log_run.start [of s] by (intro exI [of _ seen]) (simp add: logging_same)
next
  case (Cons p ps)
  let ?s = "s\<lparr>lg_reading := Some (ps, seen(p := s_State (snap_at (lg_mgr s) p)))\<rparr>"
  obtain seen' where r: "log_run ?s [] (?s\<lparr>lg_reading := Some ([], seen')\<rparr>)"
    and seen': "\<forall>q. seen' q = (if q \<in> set ps then s_State (snap_at (lg_mgr s) q) else (seen(p := s_State (snap_at (lg_mgr s) p))) q)"
    using Cons.IH [of ?s] by auto
  have "log_step s None ?s" using Cons.prems by (rule log_step.read)
  from silent [OF this r] have "log_run s [] (s\<lparr>lg_reading := Some ([], seen')\<rparr>)" by simp
  moreover have "seen' q = (if q \<in> set (p # ps) then s_State (snap_at (lg_mgr s) q) else seen q)" for q
    using seen' by simp
  ultimately show ?case by blast
qed

lemma finish:
  assumes "quiescent s"
  shows "log_run (remember s r) [] (s\<lparr>lg_mgr := log_after r\<rparr>)"
proof (cases "snd r")
  case None
  then have "remember s r = s\<lparr>lg_mgr := log_after r\<rparr>"
    by (cases r) (simp add: remember_def log_after_def)
  then show ?thesis using log_run.start by simp
next
  case (Some x)
  obtain p old new where x: "x = (p, old, new)" by (cases x)
  let ?m = "fst r"
  have la: "log_after r = logTransition p old new ?m" using Some x by (cases r) (simp add: log_after_def)
  let ?s1 = "remember s r"
  have s1: "lg_mgr ?s1 = ?m" "lg_todo ?s1 = [] @ (p, old, new) # []" "lg_waiting ?s1 = 0" "lg_reading ?s1 = None"
    using assms Some x by (simp_all add: remember_def quiescent_def)
  show ?thesis
  proof (cases "m_logger ?m \<and> old \<noteq> new")
    case False
    have "log_step ?s1 None (?s1\<lparr>lg_todo := [] @ []\<rparr>)" using False s1 by (intro log_step.nothing_to_log [OF s1(2)]) auto
    moreover have "log_after r = ?m" using False by (auto simp: la logTransition_def)
    then have "?s1\<lparr>lg_todo := [] @ []\<rparr> = s\<lparr>lg_mgr := log_after r\<rparr>"
      using assms logging_same(2) [of s "[]" ?m] by (simp add: remember_def quiescent_def)
    ultimately show ?thesis using silent [OF _ log_run.start] by metis
  next
    case True
    let ?m' = "?m\<lparr>m_log := m_log ?m @ transition_log (snap_at ?m p) old new\<rparr>"
    let ?s2 = "s\<lparr>lg_mgr := ?m', lg_todo := [], lg_waiting := 1\<rparr>"
    let ?s3 = "s\<lparr>lg_mgr := ?m', lg_todo := [], lg_waiting := 0, lg_reading := Some (m_entries ?m', \<lambda>_. Unknown)\<rparr>"
    have st1: "log_step ?s1 None ?s2"
      using log_step.transition [OF s1(2)] True assms s1 by (simp add: remember_def quiescent_def)
    have st2: "log_step ?s2 None ?s3" using log_step.lock [of ?s2 0] assms by (simp add: quiescent_def)
    obtain seen where r3: "log_run ?s3 [] (?s3\<lparr>lg_reading := Some ([], seen)\<rparr>)"
      and seen: "\<forall>q. seen q = (if q \<in> set (m_entries ?m') then s_State (snap_at ?m' q) else Unknown)"
      using read_all [of ?s3 "m_entries ?m'" "\<lambda>_. Unknown"] by auto
    have st4: "log_step (?s3\<lparr>lg_reading := Some ([], seen)\<rparr>) None (s\<lparr>lg_mgr := logActiveChange ?m'\<rparr>)"
    proof -
      let ?x = "?s3\<lparr>lg_reading := Some ([], seen)\<rparr>"
      have "active_seen seen ?m' = Active ?m'" using seen by (intro active_seen_cong) simp
      then have a: "announce (active_seen seen (lg_mgr ?x)) (lg_mgr ?x) = logActiveChange ?m'" by (simp add: logActiveChange_def)
      have e: "?x\<lparr>lg_mgr := logActiveChange ?m', lg_reading := None\<rparr> = s\<lparr>lg_mgr := logActiveChange ?m'\<rparr>"
        using assms by (cases s) (simp add: quiescent_def)
      have "log_step ?x None (?x\<lparr>lg_mgr := announce (active_seen seen (lg_mgr ?x)) (lg_mgr ?x), lg_reading := None\<rparr>)"
        by (rule log_step.unlock) simp
      then show ?thesis unfolding a e .
    qed
    have "log_run ?s3 ([] @ []) (s\<lparr>lg_mgr := logActiveChange ?m'\<rparr>)"
      by (rule log_run_trans [OF silent [OF st4 log_run.start] r3])
    then have "log_run ?s3 [] (s\<lparr>lg_mgr := logActiveChange ?m'\<rparr>)" by (simp only: append_Nil)
    from silent [OF st1 silent [OF st2 this]] have "log_run ?s1 [] (s\<lparr>lg_mgr := logActiveChange ?m'\<rparr>)" .
    with True la show ?thesis by (simp add: logTransition_def)
  qed
qed

lemma alone:
  assumes "quiescent s"
  shows "log_run s [EvSuccess n pr l t] (s\<lparr>lg_mgr := RecordSuccess n pr l t (lg_mgr s)\<rparr>)"
    and "log_run s [EvFailure n msg t] (s\<lparr>lg_mgr := RecordFailure n msg t (lg_mgr s)\<rparr>)"
proof -
  have one: "log_run s [e] u" if "log_step s (Some e) v" "log_run v [] u" for e u v
    using log_run_trans [OF that(2) log_run.step [OF log_run.start that(1)]] by simp
  show "log_run s [EvSuccess n pr l t] (s\<lparr>lg_mgr := RecordSuccess n pr l t (lg_mgr s)\<rparr>)"
    unfolding RecordSuccess_def by (rule one [OF log_step.success finish [OF assms]])
  show "log_run s [EvFailure n msg t] (s\<lparr>lg_mgr := RecordFailure n msg t (lg_mgr s)\<rparr>)"
    unfolding RecordFailure_def by (rule one [OF log_step.failure finish [OF assms]])
qed

lemma new_log:
  "m_log (NewManager us ft rt lg) = []" "m_log (NewManagerFromSnapshots us ft rt lg prev) = []"
  "m_lastActive (NewManagerFromSnapshots us ft rt lg prev) = Active (NewManagerFromSnapshots us ft rt lg prev)"
proof -
  have a: "m_log (add_entries m us) = m_log m" for m by (induction us arbitrary: m) (simp_all add: Let_def)
  have b: "m_log (fold (adopt f) ps m) = m_log m" for f ps m
    by (induction ps arbitrary: m) (simp_all add: adopt_def split: option.split)
  show n: "m_log (NewManager us ft rt lg) = []" by (simp add: NewManager_def Let_def a split: list.split)
  show "m_log (NewManagerFromSnapshots us ft rt lg prev) = []" by (simp add: NewManagerFromSnapshots_def Let_def b n)
  show "m_lastActive (NewManagerFromSnapshots us ft rt lg prev) = Active (NewManagerFromSnapshots us ft rt lg prev)"
    by (simp add: NewManagerFromSnapshots_def Let_def)
qed

text \<open>
  C32: the log tells which upstream is active. For a new or a reloaded manager with a logger, and for any
  interleaving of requests and probes with each other's log lines: the announcements in the
  log form a chain, each from the upstream announced before to another one, and whenever every
  goroutine that recorded evidence has finished logging, the last one announced is the upstream that
  requests are sent to first (at first, without an announcement, the manager's initial one).
\<close>

theorem log_tracks_active:
  assumes "distinct (map u_Name us)" and "[] \<notin> u_Name ` set us"
    and "m0 = NewManager us ft rt True \<or> m0 = NewManagerFromSnapshots us ft rt True previous"
    and "log_run (start_logging m0) evs s" and "quiescent s"
  shows "follow (Active m0) (m_log (lg_mgr s)) = Some (Active (lg_mgr s))"
proof -
  have "m_log m0 = [] \<and> m_lastActive m0 = Active m0" using assms(3) by (auto simp: new_log NewManager_announced)
  moreover have "u_Name (us ! p) \<noteq> []" if "p < length us" for p using that assms(2) by (metis imageI nth_mem)
  then have "named m0" using assms(3) by (auto simp: named_def NewManager_entries reloaded_at(1))
  ultimately have "log_inv (Active m0) (start_logging m0)" using start_log_inv by blast
  from log_run_inv [OF assms(4) this] assms(5) show ?thesis
    by (auto simp: log_inv_def quiescent_def changes_def up_to_date_def)
qed

section \<open>Witness\<close>

text \<open>Three failures of the primary upstream: the log announces the backup.\<close>

lemma log_tracks_active_witness:
  "\<exists>s. log_run (start_logging sample_manager) (replicate 3 (EvFailure ''primary'' ''timeout'' 5)) s \<and>
     follow ''primary'' (m_log (lg_mgr s)) = Some ''backup''"
proof -
  have q: "quiescent (start_logging m)" for m by (simp add: quiescent_def start_logging_def)
  have run: "log_run (start_logging m) (replicate k (EvFailure ''primary'' ''timeout'' 5))
      (start_logging (mgr_run (replicate k (EvFailure ''primary'' ''timeout'' 5)) m))" for k m
  proof (induction k arbitrary: m)
    case 0
    then show ?case using log_run.start by simp
  next
    case (Suc k)
    have "log_run (start_logging m) [EvFailure ''primary'' ''timeout'' 5] (start_logging (RecordFailure ''primary'' ''timeout'' 5 m))"
      using alone(2) [OF q [of m], of "''primary''" "''timeout''" 5] by (simp add: start_logging_def)
    from log_run_trans [OF Suc.IH this] show ?case by simp
  qed
  have r: "log_run (start_logging sample_manager) (replicate 3 (EvFailure ''primary'' ''timeout'' 5)) (start_logging sample_down)"
    using run [of sample_manager 3] by (simp add: sample_down_def)
  have "Active sample_manager = ''primary''" "Active sample_down = ''backup''" by code_simp+
  moreover have "follow (Active sample_manager) (m_log (lg_mgr (start_logging sample_down))) =
      Some (Active (lg_mgr (start_logging sample_down)))"
    by (rule log_tracks_active [OF sample_names _ _ r q, where ft = 3 and rt = 3])
      (simp_all add: sample_manager_def sample_upstreams sample_upstream_def)
  ultimately show ?thesis using r by (intro exI [of _ "start_logging sample_down"]) (simp add: start_logging_def)
qed

end
