(* ===== verification/ProbeOrder.thy ===== *)
theory ProbeOrder
  imports Health Logging
begin

text \<open>
  The probes of a round run in goroutines of their own. This theory shows that the order in which
  they finish does not matter for the scheduler or the health of the upstreams, which is what
  the source relies on when it starts them all and waits.
\<close>

section \<open>What a probe does when nobody interferes\<close>

definition quiet :: "'net probe_env \<Rightarrow> bool" where
  "quiet env \<longleftrightarrow> pe_before env = [] \<and> pe_between env = []"

text \<open>The piece of evidence a probe gives; it does not depend on the manager.\<close>

definition probe_event ::
  "dns_lib \<Rightarrow> ('net \<Rightarrow> duration \<Rightarrow> Upstream \<Rightarrow> dns_msg \<Rightarrow> xresult) \<Rightarrow> 'net probe_env \<Rightarrow> Scheduler \<Rightarrow> Upstream \<Rightarrow> mgr_event option" where
  "probe_event L xchg env s u =
     (case randomProbe (pe_index env) s of
        None \<Rightarrow> None
      | Some pr \<Rightarrow>
          (case xchg (pe_net env) (c_AttemptTimeout (sc_cfg s)) u (l_SetQuestion L (pe_id env) (p_Name pr) (p_QType pr)) of
             XPanic \<Rightarrow> None
           | XResult response latency (Some e) \<Rightarrow> Some (EvFailure (u_Name u) (''probe: '' @ e) (pe_now env))
           | XResult None latency None \<Rightarrow> None
           | XResult (Some r) latency None \<Rightarrow>
               Some (if transient L (d_Rcode r)
                     then EvFailure (u_Name u) (''probe: '' @ l_RcodeToString L (d_Rcode r)) (pe_now env)
                     else EvSuccess (u_Name u) True latency (pe_now env))))"

fun is_success :: "mgr_event \<Rightarrow> bool" where
  "is_success (EvSuccess n pr l t) = True"
| "is_success _ = False"

lemma probe_quiet:
  "quiet env \<Longrightarrow> probe L xchg fused env u (s, m) =
     (case probe_event L xchg env s u of
        None \<Rightarrow> None
      | Some ev \<Rightarrow>
          let m' = mgr_step ev m
          in Some (schedule fused (pe_random env) (u_Name u) (pe_now env) (is_success ev) m' s, m'))"
  by (simp add: probe_def probe_event_def quiet_def Let_def mgr_run_def split: option.split xresult.split)

section \<open>Evidence on the manager without its log\<close>

text \<open>The order of the log, and with it the last announced upstream, does depend on the order.\<close>

fun evidence_update :: "Manager \<Rightarrow> mgr_event \<Rightarrow> Snapshot \<Rightarrow> Snapshot" where
  "evidence_update m (EvSuccess n pr l t) x = fst (success_update (m_recoverThreshold m) pr l t x)"
| "evidence_update m (EvFailure n msg t) x = failure_update (m_failThreshold m) msg t x"
| "evidence_update m _ x = x"

definition apply_evidence :: "string \<Rightarrow> mgr_event \<Rightarrow> Manager \<Rightarrow> Manager" where
  "apply_evidence n ev m =
     (case m_byName m n of None \<Rightarrow> m | Some p \<Rightarrow> set_snap m p (evidence_update m ev (snap_at m p)))"

fun about :: "string \<Rightarrow> mgr_event \<Rightarrow> bool" where
  "about n (EvSuccess n' pr l t) = (n' = n)"
| "about n (EvFailure n' msg t) = (n' = n)"
| "about n _ = False"

lemma core_evidence: "about n ev \<Longrightarrow> core (mgr_step ev m) = apply_evidence n ev (core m)"
  by (cases ev)
    (auto simp: apply_evidence_def RecordSuccess_eq RecordFailure_eq Let_def split: option.split prod.split)

lemma probe_event_about: "probe_event L xchg env s u = Some ev \<Longrightarrow> about (u_Name u) ev"
  by (auto simp: probe_event_def split: option.splits xresult.splits if_splits)

lemma schedule_core: "schedule fused r n t ok (core m) s = schedule fused r n t ok m s"
  by (simp add: schedule_def)

section \<open>Probes of different upstreams commute\<close>

definition one_name :: "Manager \<Rightarrow> bool" where
  "one_name m \<longleftrightarrow> (\<forall>n n' p. m_byName m n = Some p \<and> m_byName m n' = Some p \<longrightarrow> n = n')"

lemma one_name_core [simp]: "one_name (core m) = one_name m"
  by (simp add: one_name_def)

lemma apply_evidence_simps [simp]:
  "m_byName (apply_evidence n ev m) = m_byName m" "one_name (apply_evidence n ev m) = one_name m"
  "m_failThreshold (apply_evidence n ev m) = m_failThreshold m"
  "m_recoverThreshold (apply_evidence n ev m) = m_recoverThreshold m"
  by (simp_all add: apply_evidence_def one_name_def split: option.split)

lemma evidence_update_thresholds [simp]: "evidence_update (apply_evidence n ev m) = evidence_update m"
proof (intro ext)
  show "evidence_update (apply_evidence n ev m) ev' x = evidence_update m ev' x" for ev' x by (cases ev') simp_all
qed

lemma evidence_elsewhere:
  assumes "one_name m" and "n \<noteq> n'"
  shows "m_byName m n' = Some p \<Longrightarrow> snap_at (apply_evidence n ev m) p = snap_at m p"
    and "StateOf (apply_evidence n ev m) n' = StateOf m n'"
proof -
  show at: "snap_at (apply_evidence n ev m) p = snap_at m p" if "m_byName m n' = Some p" for p
  proof (cases "m_byName m n")
    case (Some x)
    with assms that have "x \<noteq> p" by (auto simp: one_name_def)
    with Some show ?thesis by (simp add: apply_evidence_def snap_at_def set_snap_def)
  qed (simp add: apply_evidence_def)
  show "StateOf (apply_evidence n ev m) n' = StateOf m n'"
    using at by (simp add: StateOf_def split: option.split)
qed

lemma apply_evidence_commute:
  assumes "one_name m" and "n \<noteq> n'"
  shows "apply_evidence n ev (apply_evidence n' ev' m) = apply_evidence n' ev' (apply_evidence n ev m)"
proof (cases "m_byName m n = None \<or> m_byName m n' = None")
  case True
  then show ?thesis by (auto simp: apply_evidence_def split: option.split)
next
  case False
  then obtain p p' where p: "m_byName m n = Some p" "m_byName m n' = Some p'" by auto
  with assms have "p \<noteq> p'" by (auto simp: one_name_def)
  have "apply_evidence n ev (apply_evidence n' ev' m) = set_snap (set_snap m p' (evidence_update m ev' (snap_at m p'))) p (evidence_update m ev (snap_at m p))"
    using p evidence_elsewhere(1) [OF assms(1) assms(2) [symmetric] p(1), of ev']
    by (simp add: apply_evidence_def [of n ev]) (simp add: apply_evidence_def p)
  moreover have "apply_evidence n' ev' (apply_evidence n ev m) = set_snap (set_snap m p (evidence_update m ev (snap_at m p))) p' (evidence_update m ev' (snap_at m p'))"
    using p evidence_elsewhere(1) [OF assms p(2), of ev]
    by (simp add: apply_evidence_def [of n' ev']) (simp add: apply_evidence_def p)
  ultimately show ?thesis using \<open>p \<noteq> p'\<close> by (simp add: set_snap_def list_update_swap)
qed

lemma schedule_commute:
  assumes "n \<noteq> n'" and "StateOf m1 n = StateOf m2 n" and "StateOf m3 n' = StateOf m4 n'"
  shows "schedule f r n t ok m1 (schedule f r' n' t' ok' m3 s) = schedule f r' n' t' ok' m4 (schedule f r n t ok m2 s)"
  using assms by (auto simp: schedule_def Let_def failures_of_def fun_upd_twist)

text \<open>A probe as a function on the scheduler and the manager without its log.\<close>

definition core_probe ::
  "dns_lib \<Rightarrow> ('net \<Rightarrow> duration \<Rightarrow> Upstream \<Rightarrow> dns_msg \<Rightarrow> xresult) \<Rightarrow> bool \<Rightarrow> (string \<Rightarrow> 'net probe_env) \<Rightarrow>
   Upstream \<Rightarrow> (Scheduler \<times> Manager) option \<Rightarrow> (Scheduler \<times> Manager) option" where
  "core_probe L xchg fused env u x =
     Option.bind x (\<lambda>(s, m).
       if \<not> one_name m then None
       else map_option (\<lambda>ev.
         let m' = apply_evidence (u_Name u) ev m; e = env (u_Name u)
         in (schedule fused (pe_random e) (u_Name u) (pe_now e) (is_success ev) m' s, m'))
         (probe_event L xchg (env (u_Name u)) s u))"

lemma probe_event_schedule [simp]:
  "probe_event L xchg env (schedule f r n t ok m s) u = probe_event L xchg env s u"
  by (simp add: probe_event_def randomProbe_def cong: option.case_cong)

lemma core_probe_commute:
  assumes "u_Name u \<noteq> u_Name v"
  shows "core_probe L xchg fused env u (core_probe L xchg fused env v x) =
    core_probe L xchg fused env v (core_probe L xchg fused env u x)"
proof (cases x)
  case (Some sm)
  obtain s m where sm: "sm = (s, m)" by (cases sm)
  show ?thesis
  proof (cases "one_name m")
    case True
    show ?thesis
    proof (cases "probe_event L xchg (env (u_Name u)) s u = None \<or> probe_event L xchg (env (u_Name v)) s v = None")
      case True
      then show ?thesis
        by (cases "probe_event L xchg (env (u_Name u)) s u"; cases "probe_event L xchg (env (u_Name v)) s v")
          (simp_all add: core_probe_def Some sm Let_def)
    next
      case False
      then obtain a b where ev: "probe_event L xchg (env (u_Name u)) s u = Some a" "probe_event L xchg (env (u_Name v)) s v = Some b"
        by auto
      have st: "StateOf (apply_evidence (u_Name u) a (apply_evidence (u_Name v) b m)) (u_Name u) =
          StateOf (apply_evidence (u_Name u) a m) (u_Name u)"
        "StateOf (apply_evidence (u_Name v) b m) (u_Name v) =
          StateOf (apply_evidence (u_Name v) b (apply_evidence (u_Name u) a m)) (u_Name v)"
        unfolding apply_evidence_commute [OF \<open>one_name m\<close> assms, of a b]
        using evidence_elsewhere(2) [of "apply_evidence (u_Name u) a m" "u_Name v" "u_Name u" b]
          evidence_elsewhere(2) [of "apply_evidence (u_Name v) b m" "u_Name u" "u_Name v" a] assms \<open>one_name m\<close>
        by (simp_all add: apply_evidence_commute [OF \<open>one_name m\<close> assms, of a b])
      show ?thesis
        using ev \<open>one_name m\<close> schedule_commute [OF assms st, of fused]
        by (simp add: core_probe_def Some sm Let_def apply_evidence_commute [OF \<open>one_name m\<close> assms, of a b])
    qed
  qed (simp add: core_probe_def Some sm)
qed (simp add: core_probe_def)

lemma run_probes_core:
  assumes "\<And>n. quiet (env n)" and "one_name m"
  shows "map_option (map_prod id core) (run_probes L xchg fused env us (s, m)) =
    fold (core_probe L xchg fused env) us (Some (s, core m))"
  using assms(2)
proof (induction us arbitrary: s m)
  case (Cons u us)
  show ?case
  proof (cases "probe_event L xchg (env (u_Name u)) s u")
    case None
    have "fold (core_probe L xchg fused env) us None = None" by (induction us) (simp_all add: core_probe_def)
    moreover have "core_probe L xchg fused env u (Some (s, core m)) = None" using None by (simp add: core_probe_def)
    ultimately show ?thesis using None by (simp add: probe_quiet [OF assms(1)])
  next
    case (Some ev)
    let ?m = "mgr_step ev m"
    have "core ?m = apply_evidence (u_Name u) ev (core m)" by (rule core_evidence [OF probe_event_about [OF Some]])
    then have "core_probe L xchg fused env u (Some (s, core m)) =
      Some (schedule fused (pe_random (env (u_Name u))) (u_Name u) (pe_now (env (u_Name u))) (is_success ev) ?m s, core ?m)"
      using Some Cons.prems schedule_core [of fused _ _ _ _ ?m s]
      by (simp add: core_probe_def Let_def)
    moreover have "one_name ?m" using Cons.prems by (simp add: one_name_def)
    ultimately show ?thesis using Some Cons.IH by (simp add: probe_quiet [OF assms(1)] Let_def)
  qed
qed simp

lemma run_probes_order:
  assumes "mgr_inv B C m" and "distinct (map u_Name us)" and "mset us' = mset us" and "\<And>n. quiet (env n)"
  shows "map_option (map_prod id Snapshots) (run_probes L xchg fused env us' (s, m)) =
    map_option (map_prod id Snapshots) (run_probes L xchg fused env us (s, m))"
proof -
  have one: "one_name m" using assms(1) by (auto simp: one_name_def mgr_inv_def mgr_shape_def)
  have "fold (core_probe L xchg fused env) us' = fold (core_probe L xchg fused env) us"
  proof (rule fold_multiset_equiv)
    fix u v assume "u \<in> set us'" "v \<in> set us'"
    then have "u \<in> set us" "v \<in> set us" using assms(3) by (metis set_mset_mset)+
    then show "core_probe L xchg fused env u \<circ> core_probe L xchg fused env v =
        core_probe L xchg fused env v \<circ> core_probe L xchg fused env u"
    proof (cases "u = v")
      case False
      with \<open>u \<in> set us\<close> \<open>v \<in> set us\<close> assms(2) have "u_Name u \<noteq> u_Name v" by (auto simp: distinct_map inj_on_def)
      then show ?thesis by (simp add: fun_eq_iff core_probe_commute)
    qed simp
  qed (use assms(3) in simp)
  then have "map_option (map_prod id core) (run_probes L xchg fused env us' (s, m)) =
      map_option (map_prod id core) (run_probes L xchg fused env us (s, m))"
    by (simp add: run_probes_core [OF assms(4) one])
  then have "map_option (map_prod id Snapshots) (map_option (map_prod id core) (run_probes L xchg fused env us' (s, m))) =
      map_option (map_prod id Snapshots) (map_option (map_prod id core) (run_probes L xchg fused env us (s, m)))" by simp
  then show ?thesis by (simp add: option.map_comp comp_def prod.map_comp id_def)
qed

section \<open>The shared random numbers\<close>

text \<open>
  The generator \<open>rng\<close> is one for all probes, under \<open>rngMu\<close>: the draws come out in the order in which
  the goroutines take the lock. \<open>deal\<close> hands them out in such an order; what it changes of a round
  are the draws of the probes and nothing else.
\<close>

datatype draw = DrawProbe string | DrawJitter string

fun deal ::
  "('rng \<Rightarrow> nat \<times> 'rng) \<Rightarrow> ('rng \<Rightarrow> rat \<times> 'rng) \<Rightarrow> draw list \<Rightarrow> 'rng \<Rightarrow> (string \<Rightarrow> 'net probe_env) \<Rightarrow>
   (string \<Rightarrow> 'net probe_env)" where
  "deal Intn Float64 [] rng env = env"
| "deal Intn Float64 (DrawProbe n # ds) rng env =
     (let (i, rng') = Intn rng in deal Intn Float64 ds rng' (env(n := (env n)\<lparr>pe_index := i\<rparr>)))"
| "deal Intn Float64 (DrawJitter n # ds) rng env =
     (let (r, rng') = Float64 rng in deal Intn Float64 ds rng' (env(n := (env n)\<lparr>pe_random := r\<rparr>)))"

lemma deal_changes_draws:
  "\<exists>i r. deal Intn Float64 ds rng env n = (env n)\<lparr>pe_index := i, pe_random := r\<rparr>"
proof (induction Intn Float64 ds rng env rule: deal.induct)
  case (1 Intn Float64 rng env)
  show ?case by (rule exI [of _ "pe_index (env n)"], rule exI [of _ "pe_random (env n)"]) simp
next
  case (2 Intn Float64 x ds rng env)
  obtain i rng' where d: "Intn rng = (i, rng')" by fastforce
  from 2 [OF d [symmetric] refl] obtain j r where
    "deal Intn Float64 ds rng' (env(x := (env x)\<lparr>pe_index := i\<rparr>)) n =
      (env(x := (env x)\<lparr>pe_index := i\<rparr>)) n\<lparr>pe_index := j, pe_random := r\<rparr>" by blast
  then show ?case by (cases "n = x") (auto simp: d)
next
  case (3 Intn Float64 x ds rng env)
  obtain r rng' where d: "Float64 rng = (r, rng')" by fastforce
  from 3 [OF d [symmetric] refl] obtain j r' where
    "deal Intn Float64 ds rng' (env(x := (env x)\<lparr>pe_random := r\<rparr>)) n =
      (env(x := (env x)\<lparr>pe_random := r\<rparr>)) n\<lparr>pe_index := j, pe_random := r'\<rparr>" by blast
  then show ?case by (cases "n = x") (auto simp: d)
qed

lemma deal_quiet: "quiet (deal Intn Float64 ds rng env n) = quiet (env n)"
  using deal_changes_draws [of Intn Float64 ds rng env n] by (auto simp: quiet_def)

text \<open>Other random numbers change due times at most, as long as the probes find the same.\<close>

definition forget_due :: "Scheduler \<Rightarrow> Scheduler" where
  "forget_due s = s\<lparr>sc_due := Map.empty\<rparr>"

lemma probe_event_forget: "probe_event L xchg env (forget_due s) u = probe_event L xchg env s u"
  by (simp add: probe_event_def randomProbe_def forget_due_def cong: option.case_cong)

lemma schedule_forget:
  "forget_due s' = forget_due s \<Longrightarrow> forget_due (schedule f r' n t' ok m s') = forget_due (schedule f r n t ok m s)"
  by (cases s; cases s') (simp add: forget_due_def schedule_def failures_of_def Let_def)

lemma run_probes_draws:
  assumes "\<And>n. quiet (env n)" and "\<And>n. quiet (env' n)" and "forget_due s' = forget_due s"
    and "\<And>u. u \<in> set us \<Longrightarrow> probe_event L xchg (env' (u_Name u)) s u = probe_event L xchg (env (u_Name u)) s u"
  shows "map_option (map_prod forget_due id) (run_probes L xchg fused env' us (s', m)) =
    map_option (map_prod forget_due id) (run_probes L xchg fused env us (s, m))"
  using assms(3,4)
proof (induction us arbitrary: s s' m)
  case (Cons u us)
  have e: "probe_event L xchg (env' (u_Name u)) s' u = probe_event L xchg (env (u_Name u)) s u"
    using Cons.prems(2) [of u] probe_event_forget [of L xchg _ s' u] probe_event_forget [of L xchg _ s u] Cons.prems(1)
    by (metis list.set_intros(1))
  show ?case
  proof (cases "probe_event L xchg (env (u_Name u)) s u")
    case None
    then show ?thesis using e by (simp add: probe_quiet [OF assms(1)] probe_quiet [OF assms(2)])
  next
    case (Some ev)
    let ?m = "mgr_step ev m"
    let ?t = "schedule fused (pe_random (env (u_Name u))) (u_Name u) (pe_now (env (u_Name u))) (is_success ev) ?m s"
    let ?t' = "schedule fused (pe_random (env' (u_Name u))) (u_Name u) (pe_now (env' (u_Name u))) (is_success ev) ?m s'"
    have "map_option (map_prod forget_due id) (run_probes L xchg fused env' us (?t', ?m)) =
        map_option (map_prod forget_due id) (run_probes L xchg fused env us (?t, ?m))"
      by (rule Cons.IH [OF schedule_forget [OF Cons.prems(1)]]) (use Cons.prems(2) in simp)
    then show ?thesis using e Some by (simp add: probe_quiet [OF assms(1)] probe_quiet [OF assms(2)] Let_def id_def)
  qed
qed simp

fun event_time :: "mgr_event \<Rightarrow> time" where
  "event_time (EvSuccess n pr l t) = t"
| "event_time (EvFailure n msg t) = t"
| "event_time _ = 0"

lemma probe_event_time: "probe_event L xchg env s u = Some ev \<Longrightarrow> event_time ev = pe_now env"
  by (auto simp: probe_event_def split: option.splits xresult.splits if_splits)

lemma run_probes_cong:
  assumes "\<And>n. quiet (env n)" and "\<And>n. quiet (env' n)" and "\<And>n. pe_random (env' n) = pe_random (env n)"
    and "\<And>u. u \<in> set us \<Longrightarrow> probe_event L xchg (env' (u_Name u)) s u = probe_event L xchg (env (u_Name u)) s u"
  shows "run_probes L xchg fused env' us (s, m) = run_probes L xchg fused env us (s, m)"
  using assms(4)
proof (induction us arbitrary: s m)
  case (Cons u us)
  have e: "probe_event L xchg (env' (u_Name u)) s u = probe_event L xchg (env (u_Name u)) s u" using Cons.prems by simp
  show ?case
  proof (cases "probe_event L xchg (env (u_Name u)) s u")
    case None
    then show ?thesis using e by (simp add: probe_quiet [OF assms(1)] probe_quiet [OF assms(2)])
  next
    case (Some ev)
    have "pe_now (env' (u_Name u)) = pe_now (env (u_Name u))" using probe_event_time Some e by metis
    then show ?thesis using e Some Cons.IH Cons.prems
      by (simp add: probe_quiet [OF assms(1)] probe_quiet [OF assms(2)] Let_def assms(3))
  qed
qed simp

lemma mark_due_forget: "forget_due (fst (mark_due clock us s)) = forget_due s"
proof (induction us arbitrary: s)
  case (Cons u us)
  have "forget_due (fst (isDue n t s)) = forget_due s" for n t
    by (cases s) (simp add: isDue_def forget_due_def split: option.split)
  with Cons show ?case by (simp add: Let_def split: prod.split) (metis fst_conv)
qed simp

text \<open>
  C16: the order of the probes of a round does not matter. Assume that nothing else acts on the
  manager during the round (\<open>quiet\<close>), and compare it with a round in which the goroutines do
  their work in any other order and the shared generator gives them any other numbers, but each
  upstream is found up or down with the same result at the same time. Then both rounds panic, or both give
  the same failure counts and the same snapshots of all upstreams. The due times are the same too
  if the jitter numbers happen to be; the log may differ in any case.
\<close>

theorem probe_order_irrelevant:
  assumes "mgr_inv B C m" and "distinct (map u_Name (c_Upstreams (sc_cfg s)))"
    and "\<And>n. quiet (rd_env rd n)" and "\<And>n. quiet (env n)"
    and "\<And>us. mset (rd_order rd us) = mset us" and "\<And>us. mset (order us) = mset us"
    and "\<And>u. u \<in> set (c_Upstreams (sc_cfg s)) \<Longrightarrow>
      probe_event L xchg (env (u_Name u)) s u = probe_event L xchg (rd_env rd (u_Name u)) s u"
  shows "map_option (map_prod sc_failures Snapshots) (probeAll L xchg fused (rd\<lparr>rd_order := order, rd_env := env\<rparr>) (s, m)) =
      map_option (map_prod sc_failures Snapshots) (probeAll L xchg fused rd (s, m)) \<and>
    ((\<forall>n. pe_random (env n) = pe_random (rd_env rd n)) \<longrightarrow>
      map_option (map_prod id Snapshots) (probeAll L xchg fused (rd\<lparr>rd_order := order, rd_env := env\<rparr>) (s, m)) =
      map_option (map_prod id Snapshots) (probeAll L xchg fused rd (s, m)))"
proof -
  obtain s' started where d: "mark_due (rd_clock rd) (c_Upstreams (sc_cfg s)) s = (s', started)" by fastforce
  have started: "started = filter (\<lambda>u. \<forall>d. sc_due s (u_Name u) = Some d \<longrightarrow> d \<le> rd_clock rd (u_Name u)) (c_Upstreams (sc_cfg s))"
    using mark_due_spec(1) [OF assms(2), of "rd_clock rd" s] d by simp
  then have dist: "distinct (map u_Name started)" using assms(2) by (simp add: distinct_map_filter)
  have "forget_due s' = forget_due s" using mark_due_forget d by (metis fst_conv)
  then have same: "probe_event L xchg (env (u_Name u)) s' u = probe_event L xchg (rd_env rd (u_Name u)) s' u"
    if "u \<in> set started" for u
    using that assms(7) [of u] started probe_event_forget [of L xchg _ s u] probe_event_forget [of L xchg _ s' u]
    by (metis (no_types, lifting) filter_is_subset subsetD)
  let ?run = "\<lambda>env us. run_probes L xchg fused env us (s', m)"
  have order: "map_option (map_prod id Snapshots) (?run (rd_env rd) (order started)) =
      map_option (map_prod id Snapshots) (?run (rd_env rd) (rd_order rd started))"
    using run_probes_order [OF assms(1) dist _ assms(3), where us' = "order started"] assms(6)
      run_probes_order [OF assms(1) dist _ assms(3), where us' = "rd_order rd started"] assms(5) by simp
  have mem: "u \<in> set (order started) \<Longrightarrow> u \<in> set started" for u using assms(6) by (metis set_mset_mset)
  have draws: "map_option (map_prod forget_due id) (?run env (order started)) =
      map_option (map_prod forget_due id) (?run (rd_env rd) (order started))"
    by (rule run_probes_draws [OF assms(3) assms(4) refl]) (use same mem in blast)
  have "map_option (map_prod sc_failures Snapshots) x = map_option (map_prod sc_failures Snapshots) y"
    if "map_option (map_prod forget_due id) x = map_option (map_prod forget_due id) y" for x y :: "(Scheduler \<times> Manager) option"
  proof -
    have f: "sc_failures (forget_due t) = sc_failures t" for t by (simp add: forget_due_def)
    from arg_cong [OF that, of "map_option (map_prod sc_failures Snapshots)"] f show ?thesis
      by (simp add: option.map_comp comp_def prod.map_comp)
  qed
  moreover have "map_option (map_prod sc_failures Snapshots) x = map_option (map_prod sc_failures Snapshots) y"
    if "map_option (map_prod id Snapshots) x = map_option (map_prod id Snapshots) y" for x y :: "(Scheduler \<times> Manager) option"
    using arg_cong [OF that, of "map_option (map_prod sc_failures id)"]
    by (simp add: option.map_comp comp_def prod.map_comp)
  ultimately have "map_option (map_prod sc_failures Snapshots) (?run env (order started)) =
      map_option (map_prod sc_failures Snapshots) (?run (rd_env rd) (rd_order rd started))"
    using draws order by metis
  moreover have "?run env (order started) = ?run (rd_env rd) (order started)"
    if "\<forall>n. pe_random (env n) = pe_random (rd_env rd n)"
    by (rule run_probes_cong [OF assms(3) assms(4)]) (use that same mem in blast)+
  ultimately show ?thesis using d order by (simp add: probeAll_def)
qed

text \<open>Both probes fail; the other order deals other jitter, and so other due times.\<close>

definition sample_draws :: "string \<Rightarrow> client probe_env" where
  "sample_draws = deal (\<lambda>g. (g, g + 1)) (\<lambda>g. (1 / 3, g + 1)) [DrawProbe ''backup'', DrawJitter ''backup'', DrawProbe ''primary''] 3
     (rd_env (sample_round (answering False 2)))"

lemma probe_order_irrelevant_witness:
  "map_option (map_prod sc_failures Snapshots) (probeAll sample_lib (Exchange sample_lib) True
      ((sample_round (answering False 2))\<lparr>rd_order := id, rd_env := sample_draws\<rparr>) (NewScheduler sample_config, sample_manager)) =
   map_option (map_prod sc_failures Snapshots) (probeAll sample_lib (Exchange sample_lib) True
      (sample_round (answering False 2)) (NewScheduler sample_config, sample_manager))"
proof -
  let ?rd = "sample_round (answering False 2)" and ?s = "NewScheduler sample_config"
  have q: "quiet (rd_env ?rd n)" "quiet (sample_draws n)" for n
    unfolding sample_draws_def deal_quiet by (simp_all add: sample_round_def sample_probe_env_def quiet_def)
  have c: "c_Probes (sc_cfg ?s) = [\<lparr>p_Name = ''example.com.'', p_QType = 1\<rparr>]"
    unfolding sample_scheduler by (simp add: sample_config_def)
  have r: "randomProbe i ?s = randomProbe 0 ?s" for i
    unfolding randomProbe_def c by (simp add: Let_def)
  have one: "probe_event L xchg (e\<lparr>pe_index := i, pe_random := j\<rparr>) ?s u = probe_event L xchg e ?s u" for L xchg e i j u
    using r [of i] r [of "pe_index e"] by (simp add: probe_event_def split: option.split xresult.split)
  have ev: "probe_event sample_lib (Exchange sample_lib) (sample_draws n) ?s u =
      probe_event sample_lib (Exchange sample_lib) (rd_env ?rd n) ?s u" for n u
  proof -
    obtain i j where "sample_draws n = (rd_env ?rd n)\<lparr>pe_index := i, pe_random := j\<rparr>"
      using deal_changes_draws [of "\<lambda>g. (g, g + 1)" "\<lambda>g. (1 / 3, g + 1)"
        "[DrawProbe ''backup'', DrawJitter ''backup'', DrawProbe ''primary'']" 3 "rd_env ?rd" n, folded sample_draws_def]
      by blast
    then show ?thesis by (simp only: one)
  qed
  show ?thesis
    by (rule conjunct1 [OF probe_order_irrelevant [OF sample_manager_inv _ q _ _ ev]])
      (use sample_names in \<open>simp_all add: sample_scheduler sample_round_def\<close>)
qed

end
