(* ===== verification/UciExport.thy ===== *)
theory UciExport
  imports Config
begin

text \<open>
  The reader of \<open>internal/config/config.go\<close> against a writer: \<open>export_config\<close> prints a configuration as a
  UCI file, all options written out, and \<open>Parse\<close> reads exactly that configuration back, for every
  configuration the reader itself produced whose strings the format can hold. The writer is a
  reference for the reader; the program itself has none.
\<close>

section \<open>The writer\<close>

datatype uci_entry = Opt string string | Lst string string

fun entry_line :: "uci_entry \<Rightarrow> string" where
  "entry_line (Opt k v) = CHR 0x09 # uci_line ''option'' [k, v]"
| "entry_line (Lst k v) = CHR 0x09 # uci_line ''list'' [k, v]"

fun put_entry :: "uci_section \<Rightarrow> uci_entry \<Rightarrow> uci_section" where
  "put_entry s (Opt k v) = put_option s k v"
| "put_entry s (Lst k v) = put_list s k v"

type_synonym uci_block = "string \<times> string \<times> uci_entry list"

fun block_lines :: "uci_block \<Rightarrow> string list" where
  "block_lines (kind, name, es) = uci_line ''config'' [kind, name] # map entry_line es"

fun block_section :: "nat \<Rightarrow> uci_block \<Rightarrow> uci_section" where
  "block_section n (kind, name, es) =
     foldl put_entry \<lparr>sec_kind = kind, sec_name = name, sec_options = Map.empty, sec_lists = (\<lambda>_. []), sec_line = n\<rparr> es"

definition probe_value :: "Probe \<Rightarrow> string" where
  "probe_value p = p_Name p @ (if p_QType p = 1 then '':A'' else '':AAAA'')"

definition bool_value :: "bool \<Rightarrow> string" where
  "bool_value b = (if b then ''1'' else ''0'')"

definition main_block :: "Config \<Rightarrow> uci_block" where
  "main_block c = (''main'', ''main'',
     [Opt ''enabled'' (bool_value (c_Enabled c)),
      Opt ''listen_addr'' (c_ListenAddr c),
      Opt ''listen_port'' (itoa (c_ListenPort c)),
      Opt ''attempt_timeout_ms'' (itoa (c_AttemptTimeout c div millisecond)),
      Opt ''request_timeout_ms'' (itoa (c_RequestTimeout c div millisecond)),
      Opt ''health_interval_s'' (itoa (c_HealthInterval c div second)),
      Opt ''fail_threshold'' (itoa (c_FailThreshold c)),
      Opt ''recover_threshold'' (itoa (c_RecoverThreshold c)),
      Opt ''max_concurrent'' (itoa (c_MaxConcurrent c)),
      Opt ''status_socket'' (c_StatusSocket c)] @
     map (\<lambda>p. Lst ''probe'' (probe_value p)) (c_Probes c))"

definition upstream_block :: "Upstream \<Rightarrow> uci_block" where
  "upstream_block u = (''upstream'', u_Name u,
     [Opt ''enabled'' (bool_value (u_Enabled u)),
      Opt ''priority'' (itoa (u_Priority u)),
      Opt ''protocol'' (u_Protocol u),
      Opt ''address'' (u_Address u),
      Opt ''port'' (itoa (u_Port u))])"

definition config_blocks :: "Config \<Rightarrow> uci_block list" where
  "config_blocks c = main_block c # map upstream_block (c_Upstreams c)"

definition export_config :: "Config \<Rightarrow> string" where
  "export_config c = concat (map (\<lambda>l. l @ [CHR 0x0A]) (concat (map block_lines (config_blocks c))))"

section \<open>What can be written\<close>

text \<open>A value in single quotes can hold no single quote and no line feed, and a line has to fit the scanner.\<close>

definition plain_value :: "string \<Rightarrow> bool" where
  "plain_value v \<longleftrightarrow> uci_value v \<and> CHR 0x0A \<notin> set v \<and> int (length v) < 65000"

definition exportable_probe :: "Probe \<Rightarrow> bool" where
  "exportable_probe p \<longleftrightarrow> p_QType p \<in> {1, 28} \<and> has_suffix (p_Name p) ''.'' \<and> to_lower (p_Name p) = p_Name p \<and>
     trim_space (p_Name p) = p_Name p \<and> CHR '':'' \<notin> set (p_Name p) \<and> plain_value (probe_value p)"

definition exportable_upstream :: "Upstream \<Rightarrow> bool" where
  "exportable_upstream u \<longleftrightarrow> plain_value (u_Name u) \<and> plain_value (u_Address u) \<and> in_int64 (u_Priority u)"

definition exportable :: "Config \<Rightarrow> bool" where
  "exportable c \<longleftrightarrow> valid_config c \<and> machine_config c \<and> in_int64 (c_MaxConcurrent c) \<and>
     c_AttemptTimeout c mod millisecond = 0 \<and> c_RequestTimeout c mod millisecond = 0 \<and>
     c_HealthInterval c mod second = 0 \<and>
     plain_value (c_ListenAddr c) \<and> plain_value (c_StatusSocket c) \<and>
     list_all exportable_probe (c_Probes c) \<and> list_all exportable_upstream (c_Upstreams c) \<and>
     list_all u_Enabled (c_Upstreams c) \<and> sorted (map u_Priority (c_Upstreams c))"

section \<open>Lines\<close>

lemma split_lines_acc:
  "CHR 0x0A \<notin> set l \<Longrightarrow> split_lines acc (l @ CHR 0x0A # rest) = (rev acc @ l) # split_lines [] rest"
  by (induction l arbitrary: acc) auto

lemma split_lines_concat:
  "\<forall>l \<in> set ls. CHR 0x0A \<notin> set l \<Longrightarrow> split_lines [] (concat (map (\<lambda>l. l @ [CHR 0x0A]) ls)) = ls"
  by (induction ls) (simp_all add: split_lines_acc)

definition clean_line :: "string \<Rightarrow> bool" where
  "clean_line l \<longleftrightarrow> CHR 0x0A \<notin> set l \<and> int (length l) < max_token \<and> (l = [] \<or> last l \<noteq> CHR 0x0D)"

lemma scan_lines_concat:
  assumes "list_all clean_line ls"
  shows "scan_lines (concat (map (\<lambda>l. l @ [CHR 0x0A]) ls)) = (ls, False)"
proof -
  have "split_lines [] (concat (map (\<lambda>l. l @ [CHR 0x0A]) ls)) = ls"
    using assms by (intro split_lines_concat) (auto simp: list_all_iff clean_line_def)
  moreover have "takeWhile (\<lambda>l. int (length l) < max_token) ls = ls"
    using assms by (simp only: takeWhile_eq_all_conv) (auto simp: list_all_iff clean_line_def)
  moreover have "map drop_cr ls = ls"
    by (rule map_idI) (use assms in \<open>auto simp: list_all_iff clean_line_def drop_cr_def\<close>)
  ultimately show ?thesis by (simp only: scan_lines_def Let_def) simp
qed

fun uci_entry_ok :: "uci_entry \<Rightarrow> bool" where
  "uci_entry_ok (Opt k v) \<longleftrightarrow> plain_value k \<and> length k < 30 \<and> plain_value v"
| "uci_entry_ok (Lst k v) \<longleftrightarrow> plain_value k \<and> length k < 30 \<and> plain_value v"

fun uci_block_ok :: "uci_block \<Rightarrow> bool" where
  "uci_block_ok (kind, name, es) \<longleftrightarrow>
     plain_value kind \<and> length kind < 30 \<and> plain_value name \<and> list_all uci_entry_ok es"

lemma uci_line_clean:
  assumes "plain_value k" and "length k < 30" and "plain_value v" and "CHR 0x0A \<notin> set kw" "length kw < 30"
  shows "clean_line (uci_line kw [k, v])" "clean_line (CHR 0x09 # uci_line kw [k, v])"
  using assms by (auto simp: clean_line_def uci_line_def uci_quote_def plain_value_def max_token_def)

lemma block_lines_clean: "uci_block_ok b \<Longrightarrow> list_all clean_line (block_lines b)"
proof -
  have "uci_entry_ok e \<Longrightarrow> clean_line (entry_line e)" for e
    by (cases e) (auto intro!: uci_line_clean)
  then show "uci_block_ok b \<Longrightarrow> ?thesis" by (cases b) (auto simp: list_all_iff intro!: uci_line_clean)
qed

section \<open>Sections\<close>

lemma bare_words: "bare_word ''config''" "bare_word ''option''" "bare_word ''list''"
  by code_simp+

lemma parse_uci_line:
  assumes "bare_word kw" and "list_all uci_value args" and "list_all is_space pre"
  shows "parse_lines n secs ((pre @ uci_line kw args) # rest) =
    bind_err (directive n secs (kw # args)) (\<lambda>secs'. parse_lines (Suc n) secs' rest)"
  using uci_line_roundtrip [of pre kw args "[]" n secs None rest] assms by (simp add: uci_tail_def)

lemma parse_entry:
  assumes "uci_entry_ok e"
  shows "parse_lines n (secs @ [s]) (entry_line e # rest) = parse_lines (Suc n) (secs @ [put_entry s e]) rest"
  using assms parse_uci_line [of "''option''" _ "[CHR 0x09]"] parse_uci_line [of "''list''" _ "[CHR 0x09]"]
  by (cases e) (simp_all add: bare_words plain_value_def directive_def)

lemma parse_entries:
  "list_all uci_entry_ok es \<Longrightarrow>
   parse_lines n (secs @ [s]) (map entry_line es @ rest) =
   parse_lines (n + length es) (secs @ [foldl put_entry s es]) rest"
  by (induction es arbitrary: n s) (simp_all add: parse_entry del: parse_lines.simps(2))

lemma parse_block:
  assumes "uci_block_ok b"
  shows "parse_lines n secs (block_lines b @ rest) =
    parse_lines (n + length (block_lines b)) (secs @ [block_section n b]) rest"
  using assms parse_uci_line [of "''config''" _ "[]"]
  by (cases b) (simp add: bare_words plain_value_def directive_def parse_entries)

fun block_sections :: "nat \<Rightarrow> uci_block list \<Rightarrow> uci_section list" where
  "block_sections n [] = []"
| "block_sections n (b # bs) = block_section n b # block_sections (n + length (block_lines b)) bs"

lemma parse_blocks:
  "list_all uci_block_ok bs \<Longrightarrow>
   parse_lines n secs (concat (map block_lines bs)) = Inr (secs @ block_sections n bs)"
  by (induction bs arbitrary: n secs) (simp_all add: parse_block)

section \<open>Options\<close>

lemma put_entry_fields [simp]: "sec_kind (put_entry s e) = sec_kind s" "sec_name (put_entry s e) = sec_name s"
  by (cases e; simp add: put_option_def put_list_def)+

lemma foldl_put_entry_fields [simp]:
  "sec_kind (foldl put_entry s es) = sec_kind s" "sec_name (foldl put_entry s es) = sec_name s"
  by (induction es arbitrary: s) simp_all

lemma block_section_kind: "sec_kind (block_section n b) = fst b"
  by (cases b) simp

lemma foldl_put_list:
  "foldl put_entry s (map (\<lambda>p. Lst k (f p)) ps) = s\<lparr>sec_lists := (sec_lists s)(k := sec_lists s k @ map f ps)\<rparr>"
  by (induction ps arbitrary: s) (simp_all add: put_list_def)

lemma boolOption_value [simp]:
  "sec_options s k = Some (bool_value b) \<Longrightarrow> boolOption s k d = Inr b"
  by (simp add: boolOption_def bool_value_def)

lemma intOption_value [simp]:
  "sec_options s k = Some (itoa i) \<Longrightarrow> in_int64 i \<Longrightarrow> intOption s k d = Inr i"
  by (simp add: intOption_def atoi_itoa)

lemma stringOption_value [simp]: "sec_options s k = Some v \<Longrightarrow> stringOption s k d = v"
  by (simp add: stringOption_def)

lemma cut_append: "c \<notin> set s \<Longrightarrow> cut c (s @ c # t) = Some (s, t)"
  by (induction s) auto

lemma parse_probe_value:
  assumes "exportable_probe p"
  shows "parseProbe (probe_value p) = Inr p"
proof -
  have "p_Name p \<noteq> []" using assms by (auto simp: exportable_probe_def has_suffix_def)
  moreover have "to_upper (trim_space ''A'') = ''A''" "to_upper (trim_space ''AAAA'') = ''AAAA''" by code_simp+
  ultimately show ?thesis
    using assms cut_append [of "CHR '':''" "p_Name p"]
    by (auto simp: parseProbe_def probe_value_def exportable_probe_def Let_def)
qed

lemma applyProbes_values:
  "list_all exportable_probe ps \<Longrightarrow> applyProbes qs (map probe_value ps) = Inr (qs @ ps)"
  by (induction ps arbitrary: qs) (simp_all add: parse_probe_value)

lemma exportable_int64:
  assumes "exportable c"
  shows "in_int64 (c_ListenPort c)" "in_int64 (c_AttemptTimeout c div millisecond)"
    "in_int64 (c_RequestTimeout c div millisecond)" "in_int64 (c_HealthInterval c div second)"
    "in_int64 (c_FailThreshold c)" "in_int64 (c_RecoverThreshold c)" "in_int64 (c_MaxConcurrent c)"
    "in_int64 (c_AttemptTimeout c)" "in_int64 (c_RequestTimeout c)" "in_int64 (c_HealthInterval c)"
  using assms by (auto simp: exportable_def valid_config_def machine_config_def in_int64_def
    min_int64_def max_int64_def millisecond_def second_def)

lemma applyMain_block:
  assumes "exportable c"
  shows "applyMain Defaults (block_section n (main_block c)) = Inr (c\<lparr>c_Upstreams := []\<rparr>)"
proof -
  note i = exportable_int64 [OF assms]
  have d: "c_AttemptTimeout c div millisecond * millisecond = c_AttemptTimeout c"
    "c_RequestTimeout c div millisecond * millisecond = c_RequestTimeout c"
    "c_HealthInterval c div second * second = c_HealthInterval c"
    using assms by (auto simp: exportable_def)
  show ?thesis using assms i d
    by (simp add: applyMain_def main_block_def put_option_def foldl_put_list applyProbes_values Let_def
      Defaults_def exportable_def)
qed

lemma parseUpstream_block:
  assumes "exportable_upstream u" and "valid_upstream u"
  shows "parseUpstream (block_section n (upstream_block u)) = Inr u"
proof -
  have "in_int64 (u_Port u)" using assms(2)
    by (simp add: valid_upstream_def in_int64_def min_int64_def max_int64_def)
  moreover have "to_lower (u_Protocol u) = u_Protocol u"
    using assms(2) by (auto simp: valid_upstream_def) code_simp+
  ultimately show ?thesis using assms(1)
    by (simp add: parseUpstream_def upstream_block_def put_option_def exportable_upstream_def plain_value_def uci_value_def)
qed

lemma apply_upstream_blocks:
  "list_all exportable_upstream us \<Longrightarrow> list_all valid_upstream us \<Longrightarrow> list_all u_Enabled us \<Longrightarrow>
   apply_sections True cfg (block_sections n (map upstream_block us)) = Inr (cfg\<lparr>c_Upstreams := c_Upstreams cfg @ us\<rparr>)"
proof (induction us arbitrary: n cfg)
  case Nil
  then show ?case by simp
next
  case (Cons u us)
  have "sec_kind (block_section n (upstream_block u)) = ''upstream''"
    by (simp only: block_section_kind) (simp add: upstream_block_def)
  with Cons show ?case by (simp add: parseUpstream_block)
qed

lemma show_dec_length: "n < 10 ^ Suc k \<Longrightarrow> length (show_dec n) \<le> Suc k"
proof (induction k arbitrary: n)
  case 0
  then show ?case by (subst show_dec.simps) simp
next
  case (Suc k)
  show ?case
  proof (cases "n < 10")
    case True
    then show ?thesis by (subst show_dec.simps) simp
  next
    case False
    with Suc.prems have "n div 10 < 10 ^ Suc k" by (simp add: div_less_iff_less_mult)
    with False show ?thesis using Suc.IH [of "n div 10"] by (subst show_dec.simps) simp
  qed
qed

lemma itoa_plain: "in_int64 i \<Longrightarrow> plain_value (itoa i)"
proof -
  assume i: "in_int64 i"
  then have "length (itoa i) \<le> 20"
    using show_dec_length [of i 18] show_dec_length [of "- i" 18]
    by (auto simp: itoa_def in_int64_def min_int64_def max_int64_def)
  moreover have c: "c \<in> set (itoa i) \<Longrightarrow> is_digit c \<or> c = CHR ''-''" for c
    using show_dec_chars [of i c] show_dec_chars [of "- i" c] by (auto simp: itoa_def split: if_splits)
  have "CHR 0x27 \<notin> set (itoa i)" "CHR 0x0A \<notin> set (itoa i)"
    using c [of "CHR 0x27"] c [of "CHR 0x0A"] by (auto simp: is_digit_def)
  moreover have "itoa i \<noteq> []" by (simp add: itoa_def)
  ultimately show ?thesis by (simp add: plain_value_def uci_value_def)
qed

lemma plain_literals:
  "list_all plain_value [''enabled'', ''listen_addr'', ''listen_port'', ''attempt_timeout_ms'', ''request_timeout_ms'',
     ''health_interval_s'', ''fail_threshold'', ''recover_threshold'', ''max_concurrent'', ''status_socket'', ''probe'',
     ''main'', ''upstream'', ''priority'', ''protocol'', ''address'', ''port'', ''udp'', ''tcp'', ''1'', ''0'']"
  by code_simp

lemma upstream_block_ok: "exportable_upstream u \<Longrightarrow> valid_upstream u \<Longrightarrow> uci_block_ok (upstream_block u)"
  using plain_literals
  by (auto simp: upstream_block_def exportable_upstream_def valid_upstream_def bool_value_def in_int64_def
    min_int64_def max_int64_def intro!: itoa_plain)

lemma main_block_ok: "exportable c \<Longrightarrow> uci_block_ok (main_block c)"
  using plain_literals exportable_int64 [of c]
  by (auto simp: main_block_def exportable_def exportable_probe_def bool_value_def list_all_iff intro!: itoa_plain)

lemma config_blocks_ok: "exportable c \<Longrightarrow> list_all uci_block_ok (config_blocks c)"
  using main_block_ok [of c]
  by (auto simp: config_blocks_def exportable_def valid_config_def list_all_iff intro!: upstream_block_ok)

lemma sort_upstreams_id:
  assumes "sorted (map u_Priority us)" and "distinct (map u_Priority us)"
  shows "sort_upstreams us = us"
  unfolding sort_upstreams_def
proof (rule sort_key_id_if_sorted)
  show "sorted (map (\<lambda>u. (u_Priority u, u_Name u)) us)"
    using sorted_distinct_strict [OF assms] by (auto simp: sorted_iff_nth_mono_less less_eq_prod_def)
qed

lemma export_parse_exportable:
  assumes "exportable c"
  shows "Parse (export_config c) None = Inr c"
proof -
  have ok: "list_all uci_block_ok (config_blocks c)" by (rule config_blocks_ok [OF assms])
  then have "list_all clean_line (concat (map block_lines (config_blocks c)))"
    using block_lines_clean unfolding list_all_iff by fastforce
  then have lines: "scan_lines (export_config c) = (concat (map block_lines (config_blocks c)), False)"
    unfolding export_config_def by (rule scan_lines_concat)
  have secs: "parse_lines 1 [] (fst (scan_lines (export_config c))) = Inr (block_sections 1 (config_blocks c))"
    using parse_blocks [OF ok, of 1 "[]"] by (simp add: lines)
  have "sec_kind (block_section 1 (main_block c)) = ''main''"
    by (simp only: block_section_kind) (simp add: main_block_def)
  moreover have v: "valid_config c" "list_all valid_upstream (c_Upstreams c)"
    using assms by (auto simp: exportable_def valid_config_def)
  ultimately have "apply_sections False Defaults (block_sections 1 (config_blocks c)) = Inr c"
    using assms by (simp add: config_blocks_def applyMain_block [OF assms] apply_upstream_blocks exportable_def)
  moreover have "sort_upstreams (c_Upstreams c) = c_Upstreams c"
    using assms v by (intro sort_upstreams_id) (auto simp: exportable_def valid_config_def)
  moreover have "Validate c = []" using v by (simp add: Validate_Nil)
  ultimately show ?thesis using secs lines by (simp add: Parse_def)
qed

section \<open>What the reader produces can be written\<close>

definition read_probe :: "Probe \<Rightarrow> bool" where
  "read_probe p \<longleftrightarrow> p_QType p \<in> {1, 28} \<and> has_suffix (p_Name p) ''.'' \<and> to_lower (p_Name p) = p_Name p \<and>
     trim_space (p_Name p) = p_Name p \<and> CHR '':'' \<notin> set (p_Name p)"

definition read_config :: "Config \<Rightarrow> bool" where
  "read_config c \<longleftrightarrow> in_int64 (c_MaxConcurrent c) \<and> list_all read_probe (c_Probes c) \<and>
     list_all (\<lambda>u. u_Name u \<noteq> [] \<and> in_int64 (u_Priority u)) (c_Upstreams c)"

lemma lower_char_facts:
  "lower_char (lower_char c) = lower_char c" "is_space (lower_char c) = is_space c"
  "lower_char c = CHR '':'' \<longleftrightarrow> c = CHR '':''"
proof -
  let ?n = "of_char c :: nat"
  have up: "(of_char (lower_char c) :: nat) = ?n + 32 \<and> 97 \<le> (of_char (lower_char c) :: nat)" if "65 \<le> ?n" "?n \<le> 90"
    using that by (simp add: lower_char_def)
  have other: "lower_char c = c" if "\<not> (65 \<le> ?n \<and> ?n \<le> 90)" using that by (auto simp: lower_char_def Let_def)
  show "lower_char (lower_char c) = lower_char c"
    using up other by (cases "65 \<le> ?n \<and> ?n \<le> 90") (auto simp: lower_char_def [of "lower_char c"])
  show "is_space (lower_char c) = is_space c"
    using up other by (cases "65 \<le> ?n \<and> ?n \<le> 90") (auto simp: is_space_def)
  have "(of_char (CHR '':'') :: nat) = 58" by simp
  then show "lower_char c = CHR '':'' \<longleftrightarrow> c = CHR '':''"
    using up other by (cases "65 \<le> ?n \<and> ?n \<le> 90") auto
qed

lemma trim_space_ends:
  "s \<noteq> [] \<Longrightarrow> \<not> is_space (hd s) \<Longrightarrow> \<not> is_space (last s) \<Longrightarrow> trim_space s = s"
  using trim_space_line [of "[]" "[]" s] by simp

lemma trim_space_result:
  assumes "trim_space s \<noteq> []"
  shows "\<not> is_space (hd (trim_space s))" "\<not> is_space (last (trim_space s))" "set (trim_space s) \<subseteq> set s"
proof -
  let ?t = "dropWhile is_space s"
  have d: "dropWhile is_space (rev ?t) \<noteq> []" using assms by (simp add: trim_space_def)
  show "\<not> is_space (last (trim_space s))" using hd_dropWhile [OF d] by (simp add: trim_space_def last_rev d)
  have "?t \<noteq> []"
  proof
    assume t: "?t = []"
    from d show False unfolding t by simp
  qed
  from hd_dropWhile [OF this] have h: "\<not> is_space (hd ?t)" .
  have "hd (trim_space s) = hd ?t"
    using d takeWhile_dropWhile_id [of is_space "rev ?t"] unfolding trim_space_def
    by (metis hd_append2 rev_append rev_is_Nil_conv rev_rev_ident)
  with h show "\<not> is_space (hd (trim_space s))" by simp
  show "set (trim_space s) \<subseteq> set s"
    unfolding trim_space_def using set_dropWhileD [of _ is_space] by (metis set_rev subsetI)
qed

lemma cut_no_sep: "cut c s = Some (a, b) \<Longrightarrow> c \<notin> set a"
  by (induction s arbitrary: a b) (auto split: if_splits option.splits)

lemma parseProbe_read:
  assumes "parseProbe raw = Inr p"
  shows "read_probe p"
proof -
  from assms obtain name kind where c: "cut (CHR '':'') raw = Some (name, kind)" "trim_space name \<noteq> []"
    and p: "p_Name p = (if has_suffix (to_lower (trim_space name)) ''.'' then to_lower (trim_space name) else to_lower (trim_space name) @ ''.'')"
      "p_QType p \<in> {1, 28}"
    by (auto simp: parseProbe_def Let_def split: option.splits prod.splits if_splits)
  let ?n = "to_lower (trim_space name)"
  note t = trim_space_result [OF c(2)]
  have n: "?n \<noteq> []" "\<not> is_space (hd ?n)" "\<not> is_space (last ?n)" "to_lower ?n = ?n"
    using c(2) t by (simp_all add: to_lower_def hd_map last_map lower_char_facts)
  have "CHR '':'' \<notin> set (trim_space name)" using cut_no_sep [OF c(1)] t(3) by blast
  then have col: "CHR '':'' \<notin> set ?n" unfolding to_lower_def set_map using lower_char_facts(3) by (metis imageE)
  have dot: "to_lower ''.'' = ''.''" "\<not> is_space (CHR ''.'')" by code_simp+
  have "to_lower (?n @ ''.'') = ?n @ ''.''" using n(4) dot(1) by (simp add: to_lower_def)
  moreover have "trim_space ?n = ?n" "trim_space (?n @ ''.'') = ?n @ ''.''"
    using n dot(2) by (auto intro!: trim_space_ends)
  ultimately show ?thesis using p n(4) col by (auto simp: read_probe_def has_suffix_def)
qed

lemma applyProbes_read: "applyProbes qs raws = Inr ps \<Longrightarrow> list_all read_probe qs \<Longrightarrow> list_all read_probe ps"
  by (induction qs raws rule: applyProbes.induct) (auto split: sum.splits dest: parseProbe_read)

lemma applyMain_read:
  assumes "applyMain cfg s = Inr cfg'" and "read_config cfg"
  shows "read_config cfg'"
  using assms
  by (auto simp: applyMain_def Let_def read_config_def intro: intOption_in_int64 applyProbes_read)

lemma parseUpstream_read: "parseUpstream s = Inr u \<Longrightarrow> u_Name u \<noteq> [] \<and> in_int64 (u_Priority u)"
proof -
  assume p: "parseUpstream s = Inr u"
  then have "intOption s ''priority'' 0 = Inr (u_Priority u)" by (auto simp: parseUpstream_def split: if_splits)
  moreover have "in_int64 0" by (simp add: in_int64_def min_int64_def max_int64_def)
  ultimately show ?thesis using intOption_in_int64 parseUpstream_Inr [OF p] by simp
qed

lemma apply_sections_read:
  "apply_sections m cfg ss = Inr cfg' \<Longrightarrow> read_config cfg \<Longrightarrow> read_config cfg'"
proof (induction m cfg ss rule: apply_sections.induct)
  case (1 m cfg)
  then show ?case by (auto split: if_splits)
next
  case (2 m cfg s ss)
  show ?case
  proof (cases "sec_kind s = ''main''")
    case True
    with 2(3) obtain c where "\<not> m" "applyMain cfg s = Inr c" "apply_sections True c ss = Inr cfg'"
      by (auto split: if_splits sum.splits)
    with 2(1) [OF True] applyMain_read 2(4) show ?thesis by blast
  next
    case False
    with 2(3) obtain u where u: "sec_kind s = ''upstream''" "parseUpstream s = Inr u"
      "apply_sections m (if u_Enabled u then cfg\<lparr>c_Upstreams := c_Upstreams cfg @ [u]\<rparr> else cfg) ss = Inr cfg'"
      by (auto split: if_splits sum.splits)
    have "read_config (if u_Enabled u then cfg\<lparr>c_Upstreams := c_Upstreams cfg @ [u]\<rparr> else cfg)"
      using parseUpstream_read [OF u(2)] 2(4) by (simp add: read_config_def)
    from 2(2) [OF False u(1) u(2) u(3) this] show ?thesis .
  qed
qed

lemma Load_read:
  assumes "Load fs path = Inr cfg"
  shows "read_config cfg"
proof -
  from assms obtain src where "Parse src None = Inr cfg" by (rule Load_Inr_Parse)
  then obtain secs cfg0 where c: "apply_sections False Defaults secs = Inr cfg0"
    "cfg = cfg0\<lparr>c_Upstreams := sort_upstreams (c_Upstreams cfg0)\<rparr>" by (rule Parse_InrE)
  have "read_config Defaults"
    by (simp add: read_config_def Defaults_def in_int64_def min_int64_def max_int64_def)
  from apply_sections_read [OF c(1) this] show ?thesis by (simp add: c(2) read_config_def list_all_iff)
qed

text \<open>What the file format of the reader cannot hold is left out.\<close>

definition writable_string :: "string \<Rightarrow> bool" where
  "writable_string v \<longleftrightarrow> CHR 0x27 \<notin> set v \<and> CHR 0x0A \<notin> set v \<and> int (length v) < 64990"

definition writable :: "Config \<Rightarrow> bool" where
  "writable c \<longleftrightarrow>
     list_all writable_string (c_ListenAddr c # c_StatusSocket c # map p_Name (c_Probes c) @
       map u_Name (c_Upstreams c) @ map u_Address (c_Upstreams c)) \<and>
     c_AttemptTimeout c mod millisecond = 0 \<and> c_RequestTimeout c mod millisecond = 0 \<and>
     c_HealthInterval c mod second = 0"

lemma writable_plain: "writable_string v \<Longrightarrow> v \<noteq> [] \<Longrightarrow> plain_value v"
  by (simp add: writable_string_def plain_value_def uci_value_def)

lemma writable_exportable:
  assumes "Load fs path = Inr c" and "writable c"
  shows "exportable c"
proof -
  obtain src where p: "Parse src None = Inr c" using assms(1) by (rule Load_Inr_Parse)
  note r = Load_read [OF assms(1)]
  have ip: "parse_ip v \<noteq> None \<Longrightarrow> v \<noteq> []" for v
  proof -
    have "parse_ip [] = None" by code_simp
    then show "parse_ip v \<noteq> None \<Longrightarrow> v \<noteq> []" by auto
  qed
  have v: "valid_config c" by (rule Load_valid_config [OF assms(1)])
  have "exportable_probe q" if "q \<in> set (c_Probes c)" for q
  proof -
    have "read_probe q" using r that by (simp add: read_config_def list_all_iff)
    moreover have "writable_string (p_Name q)" using assms(2) that by (simp add: writable_def list_all_iff)
    ultimately show ?thesis
      by (simp add: exportable_probe_def read_probe_def plain_value_def uci_value_def probe_value_def writable_string_def)
  qed
  moreover have "exportable_upstream u" if "u \<in> set (c_Upstreams c)" for u
  proof -
    have "u_Name u \<noteq> []" "in_int64 (u_Priority u)" using r that by (simp_all add: read_config_def list_all_iff)
    moreover have "parse_ip (u_Address u) \<noteq> None"
      using v that by (simp add: valid_config_def list_all_iff valid_upstream_def)
    moreover have "writable_string (u_Name u)" "writable_string (u_Address u)"
      using assms(2) that by (simp_all add: writable_def list_all_iff)
    ultimately show ?thesis by (simp add: exportable_upstream_def writable_plain ip)
  qed
  moreover have "plain_value (c_ListenAddr c)" "plain_value (c_StatusSocket c)"
    using assms(2) v ip by (auto simp: writable_def valid_config_def intro!: writable_plain)
  ultimately show ?thesis
    using v r assms(2) Load_machine [OF assms(1)] Parse_upstreams(1,2) [OF p]
    by (simp add: exportable_def writable_def read_config_def list_all_iff)
qed

text \<open>
  C14: every configuration that \<open>Load\<close> accepts can be written as a UCI file, and \<open>Parse\<close> reads
  exactly that configuration back, all options, all probes in order and all upstreams, provided that
  it is \<open>writable\<close>: its addresses, names and paths hold no single quote and no line feed and are
  shorter than 64990 bytes, and its timeouts are whole milliseconds and its interval whole seconds
  (which they are unless they wrapped around).
\<close>

theorem export_parse_roundtrip:
  assumes "Load fs path = Inr c" and "writable c"
  shows "Parse (export_config c) None = Inr c"
  by (rule export_parse_exportable [OF writable_exportable [OF assms]])

lemma export_parse_roundtrip_witness: "Parse (export_config sample_config) None = Inr sample_config"
proof -
  have "writable sample_config" by code_simp
  with sample_loads show ?thesis by (rule export_parse_roundtrip)
qed

end
