(* ===== verification/Spec2Isabelle.thy ===== *)
theory Spec2Isabelle
  imports Daemon Requests Listener ProbeOrder UciExport
begin

text \<open>
  \<^bold>\<open>A verification library for failsafe-dns-proxy.\<close>

  The program (Go, \<open>cmd/\<close> and \<open>internal/\<close> under \<open>src/\<close>) is a local DNS proxy for a router. It
  forwards every query to the best of several configured upstream resolvers, fails over to the
  next one within the request, takes an upstream out of service after a number of consecutive
  failures and brings it back after a number of successful background probes.

  \<^bold>\<open>Parts and how they interact.\<close> \<open>config.Load\<close> reads a UCI file into a \<open>Config\<close>. The \<open>failover.Manager\<close>
  owns the health of the upstreams and their attempt slots. \<open>runtimecfg.Store\<close> publishes a
  snapshot (configuration, manager, limit of concurrent requests) through an atomic pointer.
  \<open>dnsserver.Server\<close> handles a query: it loads the snapshot, takes a place in the limit, asks the
  manager for candidates and tries them in order through \<open>upstream.DNSExchanger\<close>, recording
  evidence. \<open>health.Scheduler\<close> probes the upstreams in the background and records evidence too.
  \<open>status.Server\<close> serves a document about the current snapshot. \<open>main.go\<close> has the commands and the
  daemon's event loop, which on SIGHUP loads the file again, builds a manager from the old
  manager's snapshots and publishes both.

  \<^bold>\<open>Theories.\<close>
  \<^item> \<open>Prelude\<close>: integers with the wrap-around of Go's 64-bit \<open>int\<close> and \<open>time.Duration\<close>, errors as sums,
    channels of empty structs, and the interfaces \<open>bounded_channel\<close> (a semaphore) and
    \<open>guarded_machine\<close> (a step function with an invariant).
  \<^item> \<open>GoText\<close>, \<open>GoFlag\<close>, \<open>GoFloat\<close>: what the program uses of Go's \<open>strings\<close>, \<open>strconv\<close>, \<open>bufio\<close>, \<open>net\<close>
    and \<open>flag\<close>, and \<open>float64\<close> rounding (53 bits, ties to even, on rationals). Text is ASCII.
  \<^item> \<open>GoTime\<close>, \<open>GoJson\<close>: RFC 3339 times (calendar, writer, reader) and the part of \<open>encoding/json\<close> that
    the status protocol needs: the writer, the scanner as the state machines it has, and the
    decoding into structs. Both prove that what the writer writes the reader reads back, and that
    no proper prefix of a written document is accepted.
  \<^item> \<open>Config\<close> (\<open>internal/config/config.go\<close>): records, UCI reader, sections, options, validator, \<open>Load\<close>.
    Its lemmas show that the validator decides a readable specification, that whatever \<open>Load\<close>
    accepts satisfies it, that lines of \<open>uci export\<close> are read back exactly, where durations wrap, and
    where comment stripping and field splitting disagree.
    Errors are values with their texts beside them (\<open>config_error_text\<close>).
  \<^item> \<open>UciExport\<close>: a writer of UCI files as a reference for the reader, and their round trip for every
    configuration that \<open>Load\<close> accepts and the format can hold (\<open>writable\<close>).
  \<^item> \<open>Failover\<close> (\<open>internal/failover/state.go\<close>): entries behind pointers (\<open>m_heap\<close> with positions in
    \<open>m_entries\<close> and \<open>m_byName\<close>), one definition per method. \<open>mgr_inv\<close> is the invariant, kept by every
    operation (\<open>mgr_step\<close>, an interpretation of \<open>guarded_machine\<close>); the slots interpret
    \<open>bounded_channel\<close>. \<open>health_spec\<close> is the abstract contract of one upstream's health and the
    manager refines it; failover, recovery, selection and reload are proved from it.
  \<^item> \<open>Logging\<close>: the operations of the same file at the granularity of their locks. \<open>RecordSuccess\<close> and
    \<open>RecordFailure\<close> unlock the entry before they log, so goroutines interleave between the two
    (\<open>log_step\<close>). \<open>log_run_core\<close> shows that everything but the log is as if each operation were one step,
    which is how the other theories use them, and the log names the active upstream once all have
    finished.
  \<^item> \<open>Generations\<close>: every manager that operations and reloads can lead to, by rule induction.
  \<^item> \<open>Exchange\<close> (\<open>internal/upstream/exchange.go\<close>): \<open>Exchange\<close> with the TCP retry and \<open>ValidateResponse\<close>. The
    interface \<open>upstream.Exchanger\<close> is the locale \<open>exchanger\<close>, interpreted on \<open>Exchange\<close>; the resolver's
    and the prober's facts are proved inside it.
  \<^item> \<open>Runtimecfg\<close> (\<open>internal/runtimecfg/store.go\<close>): the store keeps all published snapshots, since
    requests in flight hold pointers to old ones; the limit interprets \<open>bounded_channel\<close>.
  \<^item> \<open>Dnsserver\<close> (\<open>handle\<close>, \<open>resolve\<close>, \<open>failureResponse\<close> of \<open>internal/dnsserver/server.go\<close>): one request, with an
    environment that lets other goroutines change the manager between any two operations of it.
    \<open>walk\<close> is the reference for an undisturbed request and \<open>resolve\<close> refines it; validity of answers,
    order and timeouts hold under any interference.
  \<^item> \<open>Requests\<close>: the same handler as an \<open>inductive\<close> step relation with any number of interleaved
    requests, each with its context (\<open>sy_done\<close> are those that have ended), and the invariant that
    accounts for every place in the limit and every slot. The number of steps a request has left bounds
    every run; a request without a step of its own has a context that has not ended and waits for a
    candidate with all slots taken.
  \<^item> \<open>Listener\<close> (\<open>New\<close>, \<open>Run\<close> and \<open>Shutdown\<close> of the same file): the steps of \<open>Run\<close> (\<open>run_step\<close>) and
    those of its listeners and its context (\<open>env_step\<close>); when a shutdown completes, and how it can
    be lost.
  \<^item> \<open>Health\<close> (\<open>internal/health/scheduler.go\<close>): due times, probes, rounds, the run loop, and the back-off
    with its floating-point jitter, bounded exactly in nanoseconds.
  \<^item> \<open>ProbeOrder\<close>: the goroutines of one round probe different upstreams and share one random number
    generator (\<open>deal\<close>); in an undisturbed round neither their order nor the numbers they draw matter to
    the health they leave behind, as long as they find the same.
  \<^item> \<open>Status\<close> (\<open>internal/status/server.go\<close>): the document, read entry by entry while others record, and
    its JSON text, the life of the socket, the reader with its limit of one mebibyte. A time in
    a document is an instant with the offset of its zone (\<open>stamp\<close>), as in Go. A reader gets the document or
    an error, however much of the text arrives.
  \<^item> \<open>Daemon\<close> (\<open>cmd/failsafe-dns-proxy/main.go\<close>): the commands with their flags and exit status, the
    daemon's start and event loop; \<open>daemon_ok\<close> is its invariant (an interpretation of
    \<open>guarded_machine\<close>).
  \<^item> This theory: properties that span the components.

  \<^bold>\<open>Parameters.\<close> The DNS library is the record \<open>dns_lib\<close> and the function type \<open>client\<close>; the only
  behaviour assumed of it is \<open>client_ok\<close> (no error means there is a reply) and \<open>shutdown_ok\<close> (what
  stopping a listener does). The clock, the random
  numbers, the scheduler of goroutines, the file system, the local time zone and the sockets are
  arguments; a deadline on a connection shows as the error that the connection fails with.
  Every loop of the program is a total recursion (over the candidates, the lines, the
  received events), and the doubling loop and the flag parser have termination proofs. Only the
  JSON scanner has fuel, twice the length of its input and one: every call of it consumes a
  character or hands on to one that does, and \<open>scan_value_fuel\<close> shows that more never changes the result.

  \<^bold>\<open>Not modelled.\<close> The texts of the JSON decoder's own errors (an argument of \<open>main_stderr\<close>) and the
  usage text that the flag package prints, the attributes of log records and debug logging, text
  that is not ASCII, the memory model below mutexes, atomics and channels, and everything that is
  not Go (LuCI, packaging, scripts, documentation).

  \<^bold>\<open>Next.\<close> The daemon's servers and the request relation as one composed system, and fairness
  of the wait for attempt slots.
\<close>

section \<open>Properties that span components\<close>

lemma resolve_calls_candidates:
  assumes "resolve L xchg T env seen request m = (m', calls, result)"
  shows "map fst calls = take (length calls) (fst (candidates_seen seen m))"
proof -
  obtain cs em where c: "candidates_seen seen m = (cs, em)" by (cases "candidates_seen seen m") auto
  with assms have "resolve_loop L xchg T em env request 0 cs [] (RecordSelectionMode em m) = (m', calls, result)"
    by (simp add: resolve_def)
  from resolve_loop_calls [OF this] show ?thesis by (simp add: c)
qed

text \<open>
  C20: an upstream that is down or recovering gets no client traffic while another one is usable:
  if some upstream is eligible when a request selects its candidates, every upstream the
  request asks was eligible then, and they are asked in increasing priority, under any
  interference afterwards.
\<close>

theorem no_traffic_to_down_upstreams:
  assumes "mgr_inv B C m" and "p \<in> set (m_entries m)" and "eligible (StateOf m (u_Name (cfg_at m p)))"
    and "resolve L xchg T env (\<lambda>p. s_State (snap_at m p)) request m = (m', calls, result)"
  shows "(\<forall>c \<in> set calls. eligible (StateOf m (u_Name (fst c)))) \<and> sorted (map (\<lambda>c. u_Priority (fst c)) calls)"
proof -
  let ?seen = "\<lambda>p. s_State (snap_at m p)"
  have sh: "mgr_shape m" using assms(1) by (simp add: mgr_inv_def)
  note st = StateOf_cfg(2) [OF sh]
  have calls: "map fst calls = take (length calls) (fst (candidates_seen ?seen m))"
    by (rule resolve_calls_candidates [OF assms(4)])
  have "eligible (StateOf m (u_Name (fst c)))" if "c \<in> set calls" for c
  proof -
    from that have "fst c \<in> set (map fst calls)" by simp
    then have "fst c \<in> set (fst (candidates_seen ?seen m))" unfolding calls by (rule in_set_takeD)
    with assms(2,3) st show ?thesis by (auto simp: candidates_seen_cases split: if_splits)
  qed
  moreover have "sorted (map u_Priority (map fst calls))"
    unfolding calls take_map [symmetric] using candidates_seen_sorted [OF sh, of ?seen] by (rule sorted_wrt_take)
  ultimately show ?thesis by (auto simp: comp_def)
qed

text \<open>
  C7: the whole daemon answers its clients. After any sequence of reloads and traffic, and under
  any interference with it, a request to the current snapshot that ends has given back its
  place in the limit and is answered with SERVFAIL, with FORMERR if it has no
  question, or with a valid reply to its own question that is neither SERVFAIL nor REFUSED;
  a nil message is written only if the deadline has passed when the first attempt reads the
  clock.
\<close>

theorem daemon_answers_are_valid:
  assumes "start_daemon version path fs now = Inr d0" and "daemon_loop path evs d0 = (d, None)"
    and "handle L (Exchange L) env seen request (LoadRuntime (dm_store d)) = (rt', Wrote w)"
  shows "r_Limit rt' = r_Limit (LoadRuntime (dm_store d)) \<and> (case w of
      Some r \<Rightarrow> r = failureResponse L request (l_ServerFailure L) \<or>
        d_Question request = [] \<and> r = failureResponse L request (l_FormatError L) \<or>
        valid_reply L request r \<and> d_Rcode r \<noteq> l_ServerFailure L \<and> d_Rcode r \<noteq> l_Refused L
    | None \<Rightarrow> \<exists>remaining \<le> 0. ae_remaining (env 0) = Some remaining)"
proof -
  obtain cfg where "daemon_ok cfg d0" using start_daemon_ok [OF assms(1)] by blast
  moreover obtain evs' where "d = fold (\<lambda>ev d. fst (daemon_step path ev d)) evs' d0"
    using daemon_loop_prefix [of path evs d0] assms(2) by auto
  ultimately have "daemon_ok cfg d" using daemon.run_inv by blast
  then have ok: "runtime_ok (LoadRuntime (dm_store d))" using current_in_heap by (auto simp: daemon_ok_def)
  have "m_entries (r_Manager (LoadRuntime (dm_store d))) \<noteq> []"
  proof
    assume "m_entries (r_Manager (LoadRuntime (dm_store d))) = []"
    with ok have "length (m_heap (r_Manager (LoadRuntime (dm_store d)))) = 0"
      by (auto simp: runtime_ok_def mgr_inv_def mgr_shape_def)
    with ok show False by (auto simp: runtime_ok_def valid_config_def)
  qed
  with handle_writes [OF assms(3)] show ?thesis by (auto split: option.splits)
qed

section \<open>Witnesses\<close>

lemma no_traffic_to_down_upstreams_witness:
  "\<exists>m' calls result. resolve sample_lib (Exchange sample_lib) 9 (\<lambda>k. sample_env (answering False 0))
     (\<lambda>p. s_State (snap_at sample_down p)) sample_query sample_down = (m', calls, result) \<and>
   (\<forall>c \<in> set calls. eligible (StateOf sample_down (u_Name (fst c))))"
proof -
  have p: "1 \<in> set (m_entries sample_down)" by (simp add: sample_down_def sample_manager_def sample_upstreams)
  have e: "eligible (StateOf sample_down (u_Name (cfg_at sample_down 1)))" by code_simp
  let ?r = "resolve sample_lib (Exchange sample_lib) 9 (\<lambda>k. sample_env (answering False 0))
     (\<lambda>p. s_State (snap_at sample_down p)) sample_query sample_down"
  obtain m' calls result where r: "?r = (m', calls, result)" by (cases ?r)
  from no_traffic_to_down_upstreams [OF sample_down_inv p e r] r show ?thesis by blast
qed

lemma daemon_answers_are_valid_witness:
  "\<exists>rt'. handle sample_lib (Exchange sample_lib) (\<lambda>k. sample_env (answering False 0)) sample_seen sample_query
     (LoadRuntime (dm_store sample_daemon)) = (rt', Wrote (Some sample_reply)) \<and>
   valid_reply sample_lib sample_query sample_reply"
proof -
  have "snd (handle sample_lib (Exchange sample_lib) (\<lambda>k. sample_env (answering False 0)) sample_seen sample_query
    (LoadRuntime (dm_store sample_daemon))) = Wrote (Some sample_reply)" by code_simp
  then obtain rt' where h: "handle sample_lib (Exchange sample_lib) (\<lambda>k. sample_env (answering False 0)) sample_seen
    sample_query (LoadRuntime (dm_store sample_daemon)) = (rt', Wrote (Some sample_reply))" by (metis prod.collapse)
  have l: "daemon_loop DefaultPath [] sample_daemon = (sample_daemon, None)" by simp
  have ne: "sample_reply \<noteq> failureResponse sample_lib sample_query (l_ServerFailure sample_lib)"
    "d_Question sample_query \<noteq> []" by code_simp+
  from daemon_answers_are_valid [OF sample_start l h] ne h show ?thesis by auto
qed

end
